(* ===== verification/Prelude.thy ===== *)
theory Prelude
  imports Main "HOL-Library.Monad_Syntax" "HOL-Library.Multiset"
begin

text \<open>
  What every component shares: C pointers into a store, loops that thread a state through a
  list of indices, array access with a bounds check, and the lemma collections.

  A result of type \<open>'a option\<close> is the outcome of running C code: \<open>None\<close> stands for an
  execution that has no defined result (an invalid memory access, or a loop that never ends),
  \<open>Some\<close> for a normal return. Error codes and NULL results that the code returns on purpose
  are ordinary values.
\<close>

section \<open>Pointers\<close>

datatype ptr = Null | Ref nat

text \<open>Dereferencing is defined on allocated addresses only.\<close>

fun deref :: "(nat \<rightharpoonup> 'a) \<Rightarrow> ptr \<Rightarrow> 'a option" where
  "deref h Null = None"
| "deref h (Ref a) = h a"

lemma deref_Some: "deref h p = Some e \<longleftrightarrow> (\<exists>a. p = Ref a \<and> h a = Some e)"
  by (cases p) auto

section \<open>Arrays and counting loops\<close>

definition arr_get :: "'a list \<Rightarrow> nat \<Rightarrow> 'a option" where
  "arr_get xs i = (if i < length xs then Some (xs ! i) else None)"

lemma arr_get_in [simp]: "i < length xs \<Longrightarrow> arr_get xs i = Some (xs ! i)"
  by (simp add: arr_get_def)

lemma arr_get_out [simp]: "length xs \<le> i \<Longrightarrow> arr_get xs i = None"
  by (simp add: arr_get_def)

text \<open>A counting loop runs its body on each index in turn and stops at the first fault.\<close>

fun mfold :: "('i \<Rightarrow> 's \<Rightarrow> 's option) \<Rightarrow> 'i list \<Rightarrow> 's \<Rightarrow> 's option" where
  "mfold f [] s = Some s"
| "mfold f (i # is) s = (case f i s of None \<Rightarrow> None | Some s' \<Rightarrow> mfold f is s')"

lemma mfold_append:
  "mfold f (is @ js) s = (case mfold f is s of None \<Rightarrow> None | Some s' \<Rightarrow> mfold f js s')"
  by (induction "is" arbitrary: s) (auto split: option.splits)

lemma mfold_map: "mfold f (map g is) = mfold (\<lambda>i. f (g i)) is"
proof
  show "mfold f (map g is) s = mfold (\<lambda>i. f (g i)) is s" for s
    by (induction "is" arbitrary: s) (auto split: option.splits)
qed

lemma mfold_filter:
  "mfold f (filter P is) = mfold (\<lambda>i s. if P i then f i s else Some s) is"
proof
  show "mfold f (filter P is) s = mfold (\<lambda>i s. if P i then f i s else Some s) is s" for s
    by (induction "is" arbitrary: s) (auto split: option.splits)
qed

lemma mfold_concat: "mfold f (concat iss) = mfold (\<lambda>is. mfold f is) iss"
proof
  show "mfold f (concat iss) s = mfold (\<lambda>is. mfold f is) iss s" for s
    by (induction iss arbitrary: s) (auto simp: mfold_append split: option.splits)
qed

lemma mfold_cong:
  "(\<And>i s. i \<in> set is \<Longrightarrow> f i s = g i s) \<Longrightarrow> mfold f is s = mfold g is s"
  by (induction "is" arbitrary: s) (auto split: option.splits)

text \<open>An invariant of the loop body is an invariant of the loop, and the loop then returns.\<close>

lemma mfold_inv:
  assumes "P s" and "\<And>i s. i \<in> set is \<Longrightarrow> P s \<Longrightarrow> \<exists>s'. f i s = Some s' \<and> P s'"
  shows "\<exists>s'. mfold f is s = Some s' \<and> P s'"
  using assms
proof (induction "is" arbitrary: s)
  case Nil
  then show ?case by simp
next
  case (Cons i "is")
  from Cons.prems obtain s' where "f i s = Some s'" "P s'" by (meson list.set_intros(1))
  with Cons.IH [of s'] Cons.prems(2) show ?case by simp
qed

lemma mfold_keeps:
  assumes "\<And>i s s'. P s \<Longrightarrow> f i s = Some s' \<Longrightarrow> P s'" and "P s" and "mfold f is s = Some s'"
  shows "P s'"
  using assms(2,3) by (induction "is" arbitrary: s) (auto split: option.splits dest: assms(1))

text \<open>A loop over the indices of an array is a loop over its elements.\<close>

lemma mfold_index:
  "mfold (\<lambda>i s. arr_get xs i \<bind> (\<lambda>x. f x s)) [0..<length xs] s = mfold f xs s"
proof -
  have "mfold f xs s = mfold f (map ((!) xs) [0..<length xs]) s" by (simp add: map_nth)
  also have "\<dots> = mfold (\<lambda>i s. arr_get xs i \<bind> (\<lambda>x. f x s)) [0..<length xs] s"
    unfolding mfold_map by (rule mfold_cong) simp
  finally show ?thesis by simp
qed

section \<open>Counting occurrences\<close>

lemma count_list_eq_0 [simp]: "count_list xs x = 0 \<longleftrightarrow> x \<notin> set xs"
  by (induction xs) auto

lemma count_list_distinct: "distinct xs \<Longrightarrow> count_list xs x = (if x \<in> set xs then 1 else 0)"
  by (induction xs) auto

lemma count_list_mset: "count_list xs x = count (mset xs) x"
  by (induction xs) auto

lemma count_remove1:
  "distinct xs \<Longrightarrow> count (mset (remove1 a xs)) b = (if b \<in> set xs \<and> b \<noteq> a then 1 else 0)"
  by (simp add: count_list_distinct flip: count_list_mset del: mset_remove1)

end
