(* ===== verification/CList.thy ===== *)
theory CList
  imports Prelude
begin

text \<open>
  The doubly linked list of \<open>ac-lib/list.c\<close> and \<open>ac-lib/list.h\<close>.

  A list is the struct \<open>_list\<close> together with the store of the elements it has allocated. The
  values are the pointers the clients store, compared by identity. The contents of a freshly
  allocated element are whatever \<open>malloc\<close> left there: \<open>blocks l n\<close> is the content of the
  \<open>n\<close>-th element handed to this list, and it is a parameter of \<open>list_create\<close>, so a field the code
  does not write keeps it. Addresses of freed elements are not handed out again; reading or
  writing one is a fault (\<open>None\<close>), as it is undefined in C.

  The first part is the code. The second states which heaps represent a list (\<open>lseg\<close>, \<open>lrep\<close>) and
  proves that the operations refine the abstract operations \<open>spec_remove\<close> and append, on element
  stores whose fresh blocks have a null \<open>next\<close> field. The locale \<open>list_store\<close> is the interface
  the clients of the list rely on.
\<close>

section \<open>The code\<close>

record 'v list_elm =
  elm_val :: 'v
  elm_next :: ptr
  elm_prev :: ptr

record 'v clist =
  lst_head :: ptr
  lst_tail :: ptr
  lst_size :: int
  elms :: "nat \<rightharpoonup> 'v list_elm"
  brk :: nat
  blocks :: "nat \<Rightarrow> 'v list_elm"

definition list_create :: "(nat \<Rightarrow> 'v list_elm) \<Rightarrow> 'v clist" where
  "list_create m =
     \<lparr>lst_head = Null, lst_tail = Null, lst_size = 0, elms = Map.empty, brk = 0, blocks = m\<rparr>"

definition list_size :: "'v clist \<Rightarrow> int" where
  "list_size l = lst_size l"

text \<open>
  \<open>list_add\<close> writes \<open>elm->next\<close> only when the list is empty: in the other branch the field keeps
  what the block held.
\<close>

definition list_add :: "'v clist \<Rightarrow> 'v \<Rightarrow> (int \<times> 'v clist) option" where
  "list_add l v =
     (let a = brk l; elm = (blocks l a)\<lparr>elm_val := v\<rparr>; h = (elms l)(a \<mapsto> elm) in
      if list_size l = 0
      then Some (1, l\<lparr>elms := h(a \<mapsto> elm\<lparr>elm_next := Null, elm_prev := Null\<rparr>), brk := Suc a,
                      lst_head := Ref a, lst_tail := Ref a, lst_size := lst_size l + 1\<rparr>)
      else (case lst_tail l of
              Null \<Rightarrow> None
            | Ref t \<Rightarrow> do {
                cur_tail \<leftarrow> h t;
                let h1 = h(t \<mapsto> cur_tail\<lparr>elm_next := Ref a\<rparr>);
                elm1 \<leftarrow> h1 a;
                Some (1, l\<lparr>elms := h1(a \<mapsto> elm1\<lparr>elm_prev := Ref t\<rparr>), brk := Suc a,
                           lst_tail := Ref a, lst_size := lst_size l + 1\<rparr>)
              }))"

text \<open>The \<open>while\<close> loop of \<open>list_remove\<close>: the first element that holds the value, or NULL.\<close>

partial_function (option) find_elm :: "(nat \<rightharpoonup> 'v list_elm) \<Rightarrow> 'v \<Rightarrow> ptr \<Rightarrow> ptr option" where
  "find_elm h v p =
     (case p of
        Null \<Rightarrow> Some Null
      | Ref a \<Rightarrow> (case h a of
          None \<Rightarrow> None
        | Some e \<Rightarrow> if elm_val e \<noteq> v then find_elm h v (elm_next e) else Some (Ref a)))"

definition list_remove :: "'v clist \<Rightarrow> 'v \<Rightarrow> ('v option \<times> 'v clist) option" where
  "list_remove l v =
     (if list_size l < 1 then Some (None, l)
      else do {
        curr \<leftarrow> find_elm (elms l) v (lst_head l);
        case curr of
          Null \<Rightarrow> Some (None, l)
        | Ref c \<Rightarrow> do {
            e \<leftarrow> elms l c;
            l1 \<leftarrow> (if Ref c = lst_head l then Some (l\<lparr>lst_head := elm_next e\<rparr>)
                  else (case elm_prev e of
                          Null \<Rightarrow> None
                        | Ref b \<Rightarrow> do {
                            pe \<leftarrow> elms l b;
                            let l' = l\<lparr>elms := (elms l)(b \<mapsto> pe\<lparr>elm_next := elm_next e\<rparr>)\<rparr>;
                            Some (if elm_next e = Null then l'\<lparr>lst_tail := elm_prev e\<rparr> else l')
                          }));
            Some (Some (elm_val e),
                  l1\<lparr>lst_size := lst_size l1 - 1, elms := (elms l1)(c := None)\<rparr>)
          }
      })"

fun advance :: "(nat \<rightharpoonup> 'v list_elm) \<Rightarrow> ptr \<Rightarrow> nat \<Rightarrow> ptr option" where
  "advance h p 0 = Some p"
| "advance h p (Suc n) = (case deref h p of None \<Rightarrow> None | Some e \<Rightarrow> advance h (elm_next e) n)"

definition list_item_at :: "'v clist \<Rightarrow> int \<Rightarrow> 'v option option" where
  "list_item_at l pos =
     (if pos \<ge> list_size l \<or> pos < 0 then Some None
      else do {
        elm \<leftarrow> advance (elms l) (lst_head l) (nat pos);
        e \<leftarrow> deref (elms l) elm;
        Some (Some (elm_val e))
      })"

partial_function (option) contains_from :: "(nat \<rightharpoonup> 'v list_elm) \<Rightarrow> 'v \<Rightarrow> ptr \<Rightarrow> int option" where
  "contains_from h v spot =
     (case spot of
        Null \<Rightarrow> Some 0
      | Ref a \<Rightarrow> (case h a of
          None \<Rightarrow> None
        | Some e \<Rightarrow> if elm_val e = v then Some 1 else contains_from h v (elm_next e)))"

definition list_contains :: "'v clist \<Rightarrow> 'v \<Rightarrow> int option" where
  "list_contains l v = contains_from (elms l) v (lst_head l)"

section \<open>Heaps that represent a list\<close>

text \<open>
  The abstract list has an entry \<open>(v, f)\<close> per element. The flag says whether the element's
  \<open>prev\<close> field still points to its predecessor: \<open>list_remove\<close> does not update the \<open>prev\<close> field of
  the element behind the one it frees, so that field goes stale. The flag of the first entry
  plays no role, as the code never reads the head's \<open>prev\<close> field.
\<close>

definition dangling :: "(nat \<rightharpoonup> 'v list_elm) \<Rightarrow> nat \<Rightarrow> ptr \<Rightarrow> bool" where
  "dangling h k p \<longleftrightarrow> (case p of Null \<Rightarrow> False | Ref b \<Rightarrow> h b = None \<and> b < k)"

definition link_ok :: "(nat \<rightharpoonup> 'v list_elm) \<Rightarrow> nat \<Rightarrow> ptr \<Rightarrow> bool \<Rightarrow> ptr \<Rightarrow> bool" where
  "link_ok h k q f p \<longleftrightarrow> q = Null \<or> (if f then p = q else dangling h k p)"

text \<open>
  \<open>lseg h k q p as xs q' p'\<close>: following \<open>next\<close> from \<open>p\<close> visits the addresses \<open>as\<close>, holding \<open>xs\<close>,
  and arrives at \<open>p'\<close>; \<open>q\<close> and \<open>q'\<close> are the elements before \<open>p\<close> and \<open>p'\<close>.
\<close>

fun lseg :: "(nat \<rightharpoonup> 'v list_elm) \<Rightarrow> nat \<Rightarrow> ptr \<Rightarrow> ptr \<Rightarrow> nat list \<Rightarrow> ('v \<times> bool) list
    \<Rightarrow> ptr \<Rightarrow> ptr \<Rightarrow> bool" where
  "lseg h k q p [] [] q' p' \<longleftrightarrow> q = q' \<and> p = p'"
| "lseg h k q p (a # as) ((v, f) # xs) q' p' \<longleftrightarrow>
     p = Ref a \<and> a < k \<and>
     (\<exists>e. h a = Some e \<and> elm_val e = v \<and> link_ok h k q f (elm_prev e) \<and>
          lseg h k (Ref a) (elm_next e) as xs q' p')"
| "lseg _ _ _ _ _ _ _ _ \<longleftrightarrow> False"

definition zeroed :: "(nat \<Rightarrow> 'v list_elm) \<Rightarrow> bool" where
  "zeroed m \<longleftrightarrow> (\<forall>a. elm_next (m a) = Null)"

definition lrep_at :: "'v clist \<Rightarrow> nat list \<Rightarrow> ('v \<times> bool) list \<Rightarrow> bool" where
  "lrep_at l as xs \<longleftrightarrow>
     (\<exists>t. lseg (elms l) (brk l) Null (lst_head l) as xs t Null \<and> (xs \<noteq> [] \<longrightarrow> lst_tail l = t)) \<and>
     distinct as \<and> lst_size l = int (length xs) \<and> (\<forall>a. brk l \<le> a \<longrightarrow> elms l a = None) \<and> zeroed (blocks l)"

definition lrep :: "'v clist \<Rightarrow> ('v \<times> bool) list \<Rightarrow> bool" where
  "lrep l xs \<longleftrightarrow> (\<exists>as. lrep_at l as xs)"

section \<open>The abstract operations\<close>

fun mark_stale :: "('v \<times> bool) list \<Rightarrow> ('v \<times> bool) list" where
  "mark_stale [] = []"
| "mark_stale ((v, f) # xs) = (v, False) # xs"

text \<open>Removal behind the head: a fault when the element's \<open>prev\<close> field is stale.\<close>

fun spec_remove_tl :: "'v \<Rightarrow> ('v \<times> bool) list \<Rightarrow> ('v option \<times> ('v \<times> bool) list) option" where
  "spec_remove_tl v [] = Some (None, [])"
| "spec_remove_tl v ((x, f) # xs) =
     (if x = v then (if f then Some (Some x, mark_stale xs) else None)
      else map_option (\<lambda>(r, ys). (r, (x, f) # ys)) (spec_remove_tl v xs))"

fun spec_remove :: "'v \<Rightarrow> ('v \<times> bool) list \<Rightarrow> ('v option \<times> ('v \<times> bool) list) option" where
  "spec_remove v [] = Some (None, [])"
| "spec_remove v ((x, f) # xs) =
     (if x = v then Some (Some x, xs)
      else map_option (\<lambda>(r, ys). (r, (x, f) # ys)) (spec_remove_tl v xs))"

lemma spec_remove_tl_absent: "v \<notin> fst ` set xs \<Longrightarrow> spec_remove_tl v xs = Some (None, xs)"
  by (induction v xs rule: spec_remove_tl.induct) auto

lemma spec_remove_tl_split:
  "v \<notin> fst ` set ys \<Longrightarrow> spec_remove_tl v (ys @ (v, f) # zs) =
     (if f then Some (Some v, ys @ mark_stale zs) else None)"
  by (induction ys) auto

lemma spec_remove_absent: "v \<notin> fst ` set xs \<Longrightarrow> spec_remove v xs = Some (None, xs)"
  by (cases xs) (auto simp: spec_remove_tl_absent)

lemma spec_remove_split:
  "v \<notin> fst ` set ys \<Longrightarrow> ys \<noteq> [] \<Longrightarrow> spec_remove v (ys @ (v, f) # zs) =
     (if f then Some (Some v, ys @ mark_stale zs) else None)"
  by (cases ys) (auto simp: spec_remove_tl_split)

lemma spec_remove_values: "spec_remove v xs = Some (r, ys) \<Longrightarrow> map fst ys = remove1 v (map fst xs)"
proof -
  have stale: "map fst (mark_stale zs) = map fst zs" for zs :: "('a \<times> bool) list"
    by (cases zs rule: mark_stale.cases) auto
  have "spec_remove_tl v xs = Some (r, ys) \<Longrightarrow> map fst ys = remove1 v (map fst xs)" for xs ys
    by (induction v xs arbitrary: ys rule: spec_remove_tl.induct) (auto simp: stale split: if_splits)
  then show "spec_remove v xs = Some (r, ys) \<Longrightarrow> map fst ys = remove1 v (map fst xs)"
    by (cases xs) (auto split: if_splits)
qed

lemma first_occurrence:
  assumes "v \<in> fst ` set xs"
  obtains ys f zs where "xs = ys @ (v, f) # zs" and "v \<notin> fst ` set ys"
proof -
  from assms have "\<exists>x \<in> set xs. fst x = v" by auto
  then obtain ys x zs where "xs = ys @ x # zs" "fst x = v" "\<forall>y \<in> set ys. fst y \<noteq> v"
    by (rule split_list_first_propE)
  then show ?thesis by (cases x) (auto intro: that)
qed

section \<open>Segments under updates\<close>

lemma lseg_length: "lseg h k q p as xs q' p' \<Longrightarrow> length as = length xs"
  by (induction h k q p as xs q' p' rule: lseg.induct) auto

lemma lseg_append:
  "length as = length xs \<Longrightarrow> lseg h k q p (as @ bs) (xs @ ys) q' p' \<longleftrightarrow>
     (\<exists>qm pm. lseg h k q p as xs qm pm \<and> lseg h k qm pm bs ys q' p')"
proof (induction as xs arbitrary: q p rule: list_induct2)
  case Nil
  then show ?case by simp
next
  case (Cons a as x xs)
  then show ?case by (cases x) auto
qed

lemma lseg_Cons:
  "lseg h k q p as ((v, f) # xs) q' p' \<longleftrightarrow>
     (\<exists>a bs e. as = a # bs \<and> p = Ref a \<and> a < k \<and> h a = Some e \<and> elm_val e = v \<and>
        link_ok h k q f (elm_prev e) \<and> lseg h k (Ref a) (elm_next e) bs xs q' p')"
  by (cases as) auto

lemma lseg_Nil: "lseg h k q p as [] q' p' \<longleftrightarrow> as = [] \<and> q = q' \<and> p = p'"
  by (cases as) auto

lemma lseg_bound: "lseg h k q p as xs q' p' \<Longrightarrow> set as \<subseteq> {..<k} \<inter> dom h"
  by (induction h k q p as xs q' p' rule: lseg.induct) auto

lemma link_ok_live: "h a \<noteq> None \<Longrightarrow> link_ok (h(a \<mapsto> e)) k q f p = link_ok h k q f p"
  by (auto simp: link_ok_def dangling_def split: ptr.splits)

lemma lseg_live:
  "a \<notin> set as \<Longrightarrow> h a \<noteq> None \<Longrightarrow>
     lseg (h(a \<mapsto> e)) k q p as xs q' p' = lseg h k q p as xs q' p'"
  by (induction h k q p as xs q' p' rule: lseg.induct) (auto simp: link_ok_live)

lemma link_ok_free: "link_ok h k q f p \<Longrightarrow> link_ok (h(a := None)) k q f p"
  by (auto simp: link_ok_def dangling_def split: ptr.splits if_splits)

lemma lseg_free:
  "a \<notin> set as \<Longrightarrow> lseg h k q p as xs q' p' \<Longrightarrow> lseg (h(a := None)) k q p as xs q' p'"
  by (induction h k q p as xs q' p' rule: lseg.induct) (auto intro: link_ok_free)

lemma link_ok_alloc: "k \<le> a \<Longrightarrow> link_ok h k q f p \<Longrightarrow> link_ok (h(a \<mapsto> e)) (Suc a) q f p"
  by (auto simp: link_ok_def dangling_def split: ptr.splits if_splits)

lemma lseg_alloc:
  "k \<le> a \<Longrightarrow> lseg h k q p as xs q' p' \<Longrightarrow> lseg (h(a \<mapsto> e)) (Suc a) q p as xs q' p'"
  by (induction h k q p as xs q' p' rule: lseg.induct) (auto simp: less_Suc_eq intro: link_ok_alloc)

lemma lseg_unlink: "lseg h k q p as xs q' p' \<Longrightarrow> xs \<noteq> [] \<Longrightarrow> lseg h k Null p as xs q' p'"
  by (cases xs) (auto simp: lseg_Cons link_ok_def)

lemma find_elm_seg:
  "lseg h k q p as xs q' p' \<Longrightarrow> v \<notin> fst ` set xs \<Longrightarrow> find_elm h v p = find_elm h v p'"
proof (induction h k q p as xs q' p' rule: lseg.induct)
  case (2 h k q p a as w f xs q' p')
  then show ?case by (auto simp: find_elm.simps [of h v "Ref a"])
qed auto

lemma find_elm_here: "h a = Some e \<Longrightarrow> elm_val e = v \<Longrightarrow> find_elm h v (Ref a) = Some (Ref a)"
  by (simp add: find_elm.simps)

lemma find_elm_Null: "find_elm h v Null = Some Null"
  by (simp add: find_elm.simps)

lemma contains_seg:
  "lseg h k q p as xs q' p' \<Longrightarrow>
     contains_from h v p = (if v \<in> fst ` set xs then Some 1 else contains_from h v p')"
proof (induction h k q p as xs q' p' rule: lseg.induct)
  case (2 h k q p a as w f xs q' p')
  then obtain e where "p = Ref a" "h a = Some e" "elm_val e = w"
    "contains_from h v (elm_next e) = (if v \<in> fst ` set xs then Some 1 else contains_from h v p')"
    by auto
  then show ?case by (simp add: contains_from.simps [of h v "Ref a"])
qed (simp_all del: contains_from.simps)

lemma advance_seg:
  "lseg h k q p as xs q' p' \<Longrightarrow> i < length xs \<Longrightarrow>
     \<exists>e. advance h p i = Some (Ref (as ! i)) \<and> h (as ! i) = Some e \<and> elm_val e = fst (xs ! i)"
proof (induction h k q p as xs q' p' arbitrary: i rule: lseg.induct)
  case (2 h k q p a as w f xs q' p')
  then show ?case by (cases i) auto
qed auto

section \<open>The operations refine the abstract list\<close>

lemma zeroed_next: "zeroed m \<Longrightarrow> elm_next (m a) = Null"
  by (simp add: zeroed_def)

lemma lrepE:
  assumes "lrep l xs"
  obtains as t where "lseg (elms l) (brk l) Null (lst_head l) as xs t Null"
    and "xs \<noteq> [] \<Longrightarrow> lst_tail l = t" and "distinct as" and "length as = length xs"
    and "lst_size l = int (length xs)" and "(\<forall>a. brk l \<le> a \<longrightarrow> elms l a = None)" and "zeroed (blocks l)"
  using assms by (auto simp: lrep_def lrep_at_def dest: lseg_length)

lemma lrepI:
  assumes "lseg (elms l) (brk l) Null (lst_head l) as xs t Null"
    and "xs \<noteq> [] \<Longrightarrow> lst_tail l = t" and "distinct as"
    and "lst_size l = int (length xs)" and "(\<forall>a. brk l \<le> a \<longrightarrow> elms l a = None)" and "zeroed (blocks l)"
  shows "lrep l xs"
  using assms by (auto simp: lrep_def lrep_at_def)

lemma lrep_create: "zeroed m \<Longrightarrow> lrep (list_create m) []"
  by (rule lrepI [where as = "[]" and t = Null]) (auto simp: list_create_def)

lemma lrep_size: "lrep l xs \<Longrightarrow> list_size l = int (length xs)"
  by (auto simp: list_size_def elim: lrepE)

lemma lrep_item_at:
  assumes "lrep l xs"
  shows "list_item_at l i =
    Some (if 0 \<le> i \<and> i < int (length xs) then Some (fst (xs ! nat i)) else None)"
proof -
  from assms obtain as t where seg: "lseg (elms l) (brk l) Null (lst_head l) as xs t Null"
    by (rule lrepE)
  show ?thesis
  proof (cases "0 \<le> i \<and> i < int (length xs)")
    case True
    with advance_seg [OF seg, of "nat i"] lrep_size [OF assms] show ?thesis
      by (auto simp: list_item_at_def nat_less_iff)
  next
    case False
    with lrep_size [OF assms] show ?thesis by (auto simp: list_item_at_def)
  qed
qed

lemma lrep_contains:
  assumes "lrep l xs"
  shows "list_contains l v = Some (if v \<in> fst ` set xs then 1 else 0)"
proof -
  from assms obtain as t where "lseg (elms l) (brk l) Null (lst_head l) as xs t Null"
    by (rule lrepE)
  from contains_seg [OF this, of v] show ?thesis
    by (auto simp: list_contains_def contains_from.simps [of _ _ Null])
qed

lemma lrep_add_Nil:
  assumes "lrep l []"
  shows "\<exists>l'. list_add l v = Some (1, l') \<and> lrep l' [(v, True)]"
  using assms
proof (rule lrepE)
  fix as t
  assume a: "lst_size l = int (length ([] :: ('a \<times> bool) list))"
    "(\<forall>a. brk l \<le> a \<longrightarrow> elms l a = None)" "zeroed (blocks l)"
  then show ?thesis
    by (auto simp: list_add_def list_size_def Let_def link_ok_def less_Suc_eq
        intro!: lrepI [where as = "[brk l]" and t = "Ref (brk l)"])
qed

lemma lrep_add_snoc:
  assumes "lrep l (xs @ [(w, g)])"
  shows "\<exists>l'. list_add l v = Some (1, l') \<and> lrep l' (xs @ [(w, g), (v, True)])"
  using assms
proof (rule lrepE)
  let ?h = "elms l" and ?k = "brk l"
  fix as' t
  assume seg: "lseg ?h ?k Null (lst_head l) as' (xs @ [(w, g)]) t Null"
    and len: "length as' = length (xs @ [(w, g)])" and dist: "distinct as'"
    and tail: "xs @ [(w, g)] \<noteq> [] \<Longrightarrow> lst_tail l = t"
    and size: "lst_size l = int (length (xs @ [(w, g)]))"
    and dom: "\<forall>a. ?k \<le> a \<longrightarrow> ?h a = None" and z: "zeroed (blocks l)"
  from len obtain as z where as': "as' = as @ [z]" and len: "length as = length xs"
    by (cases as' rule: rev_cases) auto
  let ?a = "?k"
  from seg as' len obtain q e where
    s1: "lseg ?h ?k Null (lst_head l) as xs q (Ref z)" and z_k: "z < ?k" and
    hz: "?h z = Some e" and ew: "elm_val e = w" and el: "link_ok ?h ?k q g (elm_prev e)" and
    t: "t = Ref z"
    by (auto simp: lseg_append)
  let ?e1 = "e\<lparr>elm_next := Ref ?a\<rparr>" and ?new = "(blocks l ?a)\<lparr>elm_val := v, elm_prev := Ref z\<rparr>"
  let ?h' = "?h(?a := Some ((blocks l ?a)\<lparr>elm_val := v\<rparr>), z := Some ?e1, ?a := Some ?new)"
  let ?l' = "l\<lparr>elms := ?h', brk := Suc ?a, lst_tail := Ref ?a, lst_size := lst_size l + 1\<rparr>"
  have add: "list_add l v = Some (1, ?l')"
    using size tail t hz z_k by (simp add: list_add_def list_size_def Let_def)
  have h': "?h' = (?h(z := Some ?e1))(?a := Some ?new)"
    using z_k by (auto simp: fun_eq_iff)
  have "lseg (?h(z := Some ?e1)) ?k Null (lst_head l) as xs q (Ref z)"
    using s1 dist as' hz by (subst lseg_live) auto
  then have "lseg ?h' (Suc ?a) Null (lst_head l) as xs q (Ref z)"
    unfolding h' by (rule lseg_alloc [OF le_refl])
  moreover have "link_ok ?h' (Suc ?a) q g (elm_prev ?e1)"
    unfolding h' by (rule link_ok_alloc [OF le_refl]) (simp add: link_ok_live hz el)
  ultimately have "lseg ?h' (Suc ?a) Null (lst_head l) (as @ [z, ?a]) (xs @ [(w, g), (v, True)])
      (Ref ?a) Null"
    using z_k ew z by (auto simp: lseg_append len link_ok_def zeroed_next)
  then have "lrep ?l' (xs @ [(w, g), (v, True)])"
    using dist as' dom z size lseg_bound [OF seg] hz
    by (intro lrepI [where as = "as @ [z, ?a]" and t = "Ref ?a"]) auto
  with add show ?thesis by blast
qed

lemma lrep_add:
  assumes "lrep l xs"
  shows "\<exists>l'. list_add l v = Some (1, l') \<and> lrep l' (xs @ [(v, True)])"
proof (cases xs rule: rev_cases)
  case Nil
  with assms lrep_add_Nil show ?thesis by auto
next
  case (snoc ys y)
  with assms lrep_add_snoc [of l ys "fst y" "snd y" v] show ?thesis by simp
qed

lemma lrep_remove_absent:
  assumes "lrep l xs" and "v \<notin> fst ` set xs"
  shows "list_remove l v = Some (None, l)"
proof -
  from assms(1) obtain as t where "lseg (elms l) (brk l) Null (lst_head l) as xs t Null"
    by (rule lrepE)
  from find_elm_seg [OF this assms(2)] have "find_elm (elms l) v (lst_head l) = Some Null"
    by (simp add: find_elm_Null)
  then show ?thesis by (simp add: list_remove_def)
qed

lemma lrep_remove_head:
  assumes "lrep l ((v, f) # xs)"
  shows "\<exists>l'. list_remove l v = Some (Some v, l') \<and> lrep l' xs"
  using assms
proof (rule lrepE)
  let ?h = "elms l" and ?k = "brk l"
  fix as' t
  assume seg: "lseg ?h ?k Null (lst_head l) as' ((v, f) # xs) t Null"
    and dist: "distinct as'" and tail: "(v, f) # xs \<noteq> [] \<Longrightarrow> lst_tail l = t"
    and size: "lst_size l = int (length ((v, f) # xs))"
    and dom: "\<forall>a. ?k \<le> a \<longrightarrow> ?h a = None" and z: "zeroed (blocks l)"
  from seg obtain a as e where as': "as' = a # as" and hd: "lst_head l = Ref a"
    and ha: "?h a = Some e" "elm_val e = v" and s: "lseg ?h ?k (Ref a) (elm_next e) as xs t Null"
    by (auto simp: lseg_Cons)
  let ?l' = "l\<lparr>lst_head := elm_next e, lst_size := lst_size l - 1, elms := ?h(a := None)\<rparr>"
  have "list_remove l v = Some (Some v, ?l')"
    using size hd ha by (simp add: list_remove_def list_size_def find_elm_here)
  moreover from dist as' s have s': "lseg (?h(a := None)) ?k (Ref a) (elm_next e) as xs t Null"
    by (intro lseg_free) auto
  have "lrep ?l' xs"
  proof (cases "xs = []")
    case True
    with s' z dom size show ?thesis
      by (auto intro!: lrepI [where as = as and t = Null] simp: lseg_Nil)
  next
    case False
    with lseg_unlink [OF s'] tail dist as' z dom size show ?thesis
      by (auto intro!: lrepI [where as = as and t = t])
  qed
  ultimately show ?thesis by blast
qed

text \<open>Freeing the element \<open>c\<close> makes the link behind it stale.\<close>

lemma link_ok_stale:
  "link_ok h k (Ref c) f p \<Longrightarrow> c < k \<Longrightarrow> link_ok (h(c := None)) k q False p"
  by (auto simp: link_ok_def dangling_def split: ptr.splits if_splits)

lemma lseg_stale:
  assumes "lseg h k (Ref c) p as xs q' p'" and "c \<notin> set as" and "c < k" and "xs \<noteq> []"
  shows "lseg (h(c := None)) k q p as (mark_stale xs) q' p'"
proof -
  from assms(4) obtain w g ys where xs: "xs = (w, g) # ys" by (cases xs) auto
  with assms(1,2) obtain a bs e where as: "as = a # bs" "p = Ref a" "a < k" "a \<noteq> c" "c \<notin> set bs"
    and e: "h a = Some e" "elm_val e = w" "link_ok h k (Ref c) g (elm_prev e)"
    and s: "lseg h k (Ref a) (elm_next e) bs ys q' p'"
    by (auto simp: lseg_Cons)
  from link_ok_stale [OF e(3) assms(3)] lseg_free [OF as(5) s] as e show ?thesis
    by (simp add: xs)
qed

lemma length_mark_stale [simp]: "length (mark_stale xs) = length xs"
  by (cases xs rule: mark_stale.cases) auto

lemma map_fst_mark_stale [simp]: "map fst (mark_stale xs) = map fst xs"
  by (cases xs rule: mark_stale.cases) auto

lemma mark_stale_eq_Nil [simp]: "mark_stale xs = [] \<longleftrightarrow> xs = []"
  by (cases xs rule: mark_stale.cases) auto

text \<open>Two neighbours behind the start of the list, with the segments around them.\<close>

lemma lrep_two:
  assumes rep: "lrep l (ys @ (w, g) # (v, f) # zs)"
  obtains as b c cs e ec q p t where "length as = length ys" and "distinct (as @ b # c # cs)"
    and "lseg (elms l) (brk l) Null (lst_head l) as ys q (Ref b)"
    and "b < brk l" and "elms l b = Some e" and "elm_val e = w" and "link_ok (elms l) (brk l) q g (elm_prev e)"
    and "elm_next e = Ref c" and "c < brk l" and "elms l c = Some ec" and "elm_val ec = v"
    and "link_ok (elms l) (brk l) (Ref b) f (elm_prev ec)"
    and "lseg (elms l) (brk l) (Ref c) (elm_next ec) cs zs t Null" and "lst_tail l = t"
    and "lst_size l = int (length ys + length zs + 2)" and "\<forall>a. brk l \<le> a \<longrightarrow> elms l a = None"
    and "zeroed (blocks l)"
  using rep
proof (rule lrepE)
  let ?h = "elms l" and ?k = "brk l" and ?xs = "ys @ (w, g) # (v, f) # zs"
  fix as' t
  assume seg: "lseg ?h ?k Null (lst_head l) as' ?xs t Null"
    and len: "length as' = length ?xs" and dist: "distinct as'"
    and tail: "?xs \<noteq> [] \<Longrightarrow> lst_tail l = t" and size: "lst_size l = int (length ?xs)"
    and rest: "\<forall>a. ?k \<le> a \<longrightarrow> ?h a = None" "zeroed (blocks l)"
  from len obtain as bs where as': "as' = as @ bs" and las: "length as = length ys"
    by (metis length_append append_eq_conv_conj length_take min_absorb2 append_take_drop_id le_add1)
  from seg as' las obtain q p b e c ec cs where
    s: "lseg ?h ?k Null (lst_head l) as ys q (Ref b)" and bs: "bs = b # c # cs" and
    b: "b < ?k" "?h b = Some e" "elm_val e = w" "link_ok ?h ?k q g (elm_prev e)" "elm_next e = Ref c" and
    c: "c < ?k" "?h c = Some ec" "elm_val ec = v" "link_ok ?h ?k (Ref b) f (elm_prev ec)"
      "lseg ?h ?k (Ref c) (elm_next ec) cs zs t Null"
    by (auto simp: lseg_append lseg_Cons)
  from dist have d: "distinct (as @ b # c # cs)" unfolding as' bs .
  have "lst_tail l = t" "lst_size l = int (length ys + length zs + 2)" using tail size by simp_all
  from that [OF las d s b c this rest] show thesis .
qed

lemma lrep_remove_behind:
  assumes rep: "lrep l (ys @ (w, g) # (v, f) # zs)" and new: "v \<notin> fst ` set (ys @ [(w, g)])"
  shows "if f then \<exists>l'. list_remove l v = Some (Some v, l') \<and>
                        lrep l' (ys @ (w, g) # mark_stale zs)
         else list_remove l v = None"
  using rep
proof (rule lrep_two)
  let ?h = "elms l" and ?k = "brk l"
  fix as b c cs e ec q t
  assume las: "length as = length ys" and dist: "distinct (as @ b # c # cs)"
    and s1: "lseg ?h ?k Null (lst_head l) as ys q (Ref b)"
    and hb: "b < ?k" "?h b = Some e" "elm_val e = w" "link_ok ?h ?k q g (elm_prev e)" "elm_next e = Ref c"
    and hc: "c < ?k" "?h c = Some ec" "elm_val ec = v" "link_ok ?h ?k (Ref b) f (elm_prev ec)"
    and s2: "lseg ?h ?k (Ref c) (elm_next ec) cs zs t Null" and tail: "lst_tail l = t"
    and size: "lst_size l = int (length ys + length zs + 2)"
    and rest: "\<forall>a. ?k \<le> a \<longrightarrow> ?h a = None" "zeroed (blocks l)"
  have "find_elm ?h v (lst_head l) = find_elm ?h v (Ref b)" using find_elm_seg [OF s1] new by auto
  also have "\<dots> = find_elm ?h v (Ref c)" using hb new by (auto simp: find_elm.simps [of _ _ "Ref b"])
  finally have find: "find_elm ?h v (lst_head l) = Some (Ref c)" using hc by (simp add: find_elm_here)
  have nhd: "Ref c \<noteq> lst_head l"
    using s1 las dist by (cases as; cases ys) (auto simp: lseg_Cons)
  show ?thesis
  proof (cases f)
    case False
    with hc obtain d where "elm_prev ec = Ref d" "?h d = None"
      by (auto simp: link_ok_def dangling_def split: ptr.splits)
    with False show ?thesis
      using find nhd hc size by (simp add: list_remove_def list_size_def)
  next
    case True
    let ?e1 = "e\<lparr>elm_next := elm_next ec\<rparr>" and ?tl = "if elm_next ec = Null then Ref b else lst_tail l"
    let ?h' = "(?h(b \<mapsto> ?e1))(c := None)"
    let ?l' = "l\<lparr>elms := ?h', lst_size := lst_size l - 1, lst_tail := ?tl\<rparr>"
    from True hc(4) have prev: "elm_prev ec = Ref b" by (simp add: link_ok_def)
    then have rem: "list_remove l v = Some (Some v, ?l')"
      using find nhd hc hb size dist by (simp add: list_remove_def list_size_def)
    have b_c: "b \<noteq> c" "b \<notin> set as" "c \<notin> set as" "b \<notin> set cs" "c \<notin> set cs" using dist by auto
    have s1': "lseg ?h' ?k Null (lst_head l) as ys q (Ref b)"
      using s1 b_c hb by (intro lseg_free) (auto simp: lseg_live)
    have b': "link_ok ?h' ?k q g (elm_prev ?e1)"
      using hb by (intro link_ok_free) (simp add: link_ok_live)
    have s2': "lseg (?h(b \<mapsto> ?e1)) ?k (Ref c) (elm_next ec) cs zs t Null"
      using s2 b_c hb by (simp add: lseg_live)
    have "lseg ?h' ?k (Ref b) (elm_next ec) cs (mark_stale zs) ?tl Null"
    proof (cases "zs = []")
      case False
      with s2 have "elm_next ec \<noteq> Null" by (cases zs) (auto simp: lseg_Cons)
      with lseg_stale [OF s2' b_c(5) hc(1) False] tail show ?thesis by auto
    qed (use s2 in \<open>simp add: lseg_Nil\<close>)
    with s1' b' hb b_c las have
      "lseg ?h' ?k Null (lst_head l) (as @ b # cs) (ys @ (w, g) # mark_stale zs) ?tl Null"
      by (auto simp: lseg_append)
    with dist rest size hb(1) have "lrep ?l' (ys @ (w, g) # mark_stale zs)"
      by (intro lrepI) auto
    with True rem show ?thesis by auto
  qed
qed

lemma lrep_remove:
  assumes "lrep l xs"
  shows "case spec_remove v xs of
           None \<Rightarrow> list_remove l v = None
         | Some (r, ys) \<Rightarrow> \<exists>l'. list_remove l v = Some (r, l') \<and> lrep l' ys"
proof (cases "v \<in> fst ` set xs")
  case False
  with assms show ?thesis by (simp add: lrep_remove_absent spec_remove_absent)
next
  case True
  then obtain ys f zs where xs: "xs = ys @ (v, f) # zs" and new: "v \<notin> fst ` set ys"
    by (rule first_occurrence)
  show ?thesis
  proof (cases ys rule: rev_cases)
    case Nil
    with assms xs lrep_remove_head show ?thesis by auto
  next
    case (snoc us u)
    have "spec_remove v xs = (if f then Some (Some v, ys @ mark_stale zs) else None)"
      unfolding xs by (rule spec_remove_split [OF new]) (simp add: snoc)
    with lrep_remove_behind [of l us "fst u" "snd u" v f zs] assms xs new snoc
    show ?thesis by (auto split: if_splits)
  qed
qed

section \<open>The interface of the list\<close>

text \<open>
  What a client of the list may use: the abstract contents \<open>rep l xs\<close>, the laws of the
  operations on it, and the facts about queues, growing sets and draining loops that follow.
\<close>

locale list_store =
  fixes rep :: "'l \<Rightarrow> ('v \<times> bool) list \<Rightarrow> bool"
    and fresh_ok :: "'m \<Rightarrow> bool"
    and create :: "'m \<Rightarrow> 'l"
    and add :: "'l \<Rightarrow> 'v \<Rightarrow> (int \<times> 'l) option"
    and remove :: "'l \<Rightarrow> 'v \<Rightarrow> ('v option \<times> 'l) option"
    and len :: "'l \<Rightarrow> int"
    and item_at :: "'l \<Rightarrow> int \<Rightarrow> 'v option option"
    and contains :: "'l \<Rightarrow> 'v \<Rightarrow> int option"
  assumes create: "fresh_ok m \<Longrightarrow> rep (create m) []"
    and add: "rep l xs \<Longrightarrow> \<exists>l'. add l v = Some (1, l') \<and> rep l' (xs @ [(v, True)])"
    and remove: "rep l xs \<Longrightarrow>
      (case spec_remove v xs of
         None \<Rightarrow> remove l v = None
       | Some (r, ys) \<Rightarrow> \<exists>l'. remove l v = Some (r, l') \<and> rep l' ys)"
    and len: "rep l xs \<Longrightarrow> len l = int (length xs)"
    and item_at: "rep l xs \<Longrightarrow>
      item_at l i = Some (if 0 \<le> i \<and> i < int (length xs) then Some (fst (xs ! nat i)) else None)"
    and contains: "rep l xs \<Longrightarrow> contains l v = Some (if v \<in> fst ` set xs then 1 else 0)"
begin

lemma dequeue:
  assumes "rep l ((v, f) # xs)"
  shows "item_at l 0 = Some (Some v) \<and> (\<exists>l'. remove l v = Some (Some v, l') \<and> rep l' xs)"
  using item_at [OF assms, of 0] remove [OF assms, of v] by simp

lemma add_all:
  "rep l xs \<Longrightarrow> \<exists>l'. mfold (\<lambda>v l. map_option snd (add l v)) vs l = Some l' \<and>
     rep l' (xs @ map (\<lambda>v. (v, True)) vs)"
proof (induction vs arbitrary: l xs)
  case Nil
  then show ?case by simp
next
  case (Cons v vs)
  from add [OF Cons.prems, of v] obtain l' where
    l': "add l v = Some (1, l')" "rep l' (xs @ [(v, True)])" by blast
  from Cons.IH [OF l'(2)] l'(1) show ?case by auto
qed

lemma build:
  assumes "fresh_ok m"
  obtains l where "mfold (\<lambda>v l. map_option snd (add l v)) vs (create m) = Some l"
    and "rep l (map (\<lambda>v. (v, True)) vs)"
  using add_all [OF create [OF assms], of vs] by auto

lemma remove_absent: "rep l xs \<Longrightarrow> v \<notin> fst ` set xs \<Longrightarrow> \<exists>l'. remove l v = Some (None, l') \<and> rep l' xs"
  using remove [of l xs v] by (simp add: spec_remove_absent)

lemma remove_values:
  assumes "rep l xs" and "remove l v = Some (r, l')"
  shows "\<exists>ys. rep l' ys \<and> map fst ys = remove1 v (map fst xs)"
proof (cases "spec_remove v xs")
  case None
  with remove [OF assms(1), of v] assms(2) show ?thesis by simp
next
  case (Some p)
  with remove [OF assms(1), of v] assms(2) obtain ys where "spec_remove v xs = Some (r, ys)" "rep l' ys"
    by (cases p) auto
  from spec_remove_values [OF this(1)] this(2) show ?thesis by (intro exI [of _ ys]) simp
qed

lemma remove_good:
  assumes "rep l (ys @ (v, True) # zs)" and "v \<notin> fst ` set ys"
  shows "\<exists>l' zs'. remove l v = Some (Some v, l') \<and> rep l' (ys @ zs') \<and> map fst zs' = map fst zs"
proof (cases "ys = []")
  case True
  with remove [OF assms(1), of v] show ?thesis by auto
next
  case False
  from remove [OF assms(1), of v] obtain l' where
    "remove l v = Some (Some v, l')" "rep l' (ys @ mark_stale zs)"
    by (auto simp: spec_remove_split [OF assms(2) False])
  then show ?thesis by (intro exI [of _ l'] exI [of _ "mark_stale zs"]) auto
qed

text \<open>Freeing an element behind the head makes its successor impossible to remove.\<close>

lemma remove_successor:
  assumes "rep l (ys @ (u, g) # (v, True) # (w, h) # zs)"
    and "distinct (map fst (ys @ (u, g) # (v, True) # (w, h) # zs))"
  shows "\<exists>l'. remove l v = Some (Some v, l') \<and> remove l' w = None"
proof -
  let ?ys = "ys @ [(u, g)]"
  have v: "v \<notin> fst ` set ?ys" and w: "w \<notin> fst ` set ?ys"
    using assms(2) by auto
  from remove [OF assms(1), of v] spec_remove_split [OF v, of True "(w, h) # zs"]
  obtain l' where l': "remove l v = Some (Some v, l')" "rep l' (?ys @ (w, False) # zs)" by auto
  from remove [OF l'(2), of w] spec_remove_split [OF w, of False zs] l'(1) show ?thesis by auto
qed

end

interpretation lst: list_store lrep zeroed list_create list_add list_remove list_size list_item_at
  list_contains
  by unfold_locales
    (auto intro: lrep_create lrep_add lrep_size lrep_remove simp: lrep_item_at lrep_contains)

section \<open>Properties\<close>

definition ex_blocks :: "nat \<Rightarrow> nat list_elm" where
  "ex_blocks n = \<lparr>elm_val = 0, elm_next = Null, elm_prev = Null\<rparr>"

definition ex_list :: "nat clist" where
  "ex_list = \<lparr>lst_head = Ref 0, lst_tail = Ref 2, lst_size = 3,
     elms = [0 \<mapsto> \<lparr>elm_val = 7, elm_next = Ref 1, elm_prev = Null\<rparr>,
             1 \<mapsto> \<lparr>elm_val = 8, elm_next = Ref 2, elm_prev = Ref 0\<rparr>,
             2 \<mapsto> \<lparr>elm_val = 9, elm_next = Null, elm_prev = Ref 1\<rparr>],
     brk = 3, blocks = ex_blocks\<rparr>"

lemma zeroed_ex_blocks: "zeroed ex_blocks"
  by (simp add: zeroed_def ex_blocks_def)

lemma ex_list_built:
  "mfold (\<lambda>v l. map_option snd (list_add l v)) [7, 8, 9] (list_create ex_blocks) = Some ex_list"
  by (simp add: list_add_def list_create_def list_size_def ex_blocks_def ex_list_def Let_def
      numeral_eq_Suc fun_eq_iff)

lemma lrep_ex_list: "lrep ex_list [(7, True), (8, True), (9, True)]"
  using lst.add_all [OF lst.create [OF zeroed_ex_blocks], of "[7, 8, 9]"] ex_list_built by simp

text \<open>
  C9: every call of \<open>list_remove\<close> on a well-formed list does what the abstract removal does:
  it takes out the first element that holds the value and returns it, returns NULL when there is
  none, and faults exactly when the element found is not the head and its \<open>prev\<close> field is stale.
\<close>

theorem list_remove_refines:
  "lrep l xs \<Longrightarrow>
     (case spec_remove v xs of
        None \<Rightarrow> list_remove l v = None
      | Some (r, ys) \<Rightarrow> \<exists>l'. list_remove l v = Some (r, l') \<and> lrep l' ys)"
  by (rule lst.remove)

theorem list_remove_refines_witness:
  "lrep ex_list [(7, True), (8, True), (9, True)] \<and>
   (\<exists>l'. list_remove ex_list 8 = Some (Some 8, l') \<and> lrep l' [(7, True), (9, False)])"
  using lrep_ex_list list_remove_refines [OF lrep_ex_list, of 8] by simp

text \<open>
  On elements whose fresh blocks have a null \<open>next\<close> field, a list built by any sequence of
  \<open>list_add\<close> calls reports the number of values as its size, returns them by position in the
  order they were added (NULL outside the range), and finds exactly these values.
\<close>

lemma list_build_correct:
  assumes "zeroed m"
  shows "\<exists>l. mfold (\<lambda>v l. map_option snd (list_add l v)) vs (list_create m) = Some l \<and>
     list_size l = int (length vs) \<and>
     (\<forall>i. list_item_at l i =
        Some (if 0 \<le> i \<and> i < int (length vs) then Some (vs ! nat i) else None)) \<and>
     (\<forall>v. list_contains l v = Some (if v \<in> set vs then 1 else 0))"
proof -
  obtain l where "mfold (\<lambda>v l. map_option snd (list_add l v)) vs (list_create m) = Some l"
    and r: "lrep l (map (\<lambda>v. (v, True)) vs)"
    by (rule lst.build [OF assms])
  with lst.len [OF r] lst.item_at [OF r] lst.contains [OF r] show ?thesis
    by (intro exI [of _ l]) (auto simp: image_image)
qed

text \<open>
  After an element behind the head has been removed, the attempt to remove the element that
  followed it writes through the freed element: the call has no defined result.
\<close>

lemma list_remove_successor_faults:
  assumes "lrep l (ys @ (u, g) # (v, True) # (w, h) # zs)"
    and "distinct (map fst (ys @ (u, g) # (v, True) # (w, h) # zs))"
  shows "\<exists>l'. list_remove l v = Some (Some v, l') \<and> list_remove l' w = None"
  by (rule lst.remove_successor [OF assms])

text \<open>
  \<open>list_add\<close> leaves the \<open>next\<close> field of an element it appends as \<open>malloc\<close> delivered it. When
  the second block's \<open>next\<close> field holds an invalid address, looking for a value that is not in a
  list of two elements runs off its end and has no defined result.
\<close>

lemma list_contains_runs_off:
  assumes "elm_next (m 1) = Ref b" and "1 < b" and "z \<noteq> x" and "z \<noteq> y"
  shows "\<exists>l. mfold (\<lambda>v l. map_option snd (list_add l v)) [x, y] (list_create m) = Some l \<and>
     list_contains l z = None"
  using assms
  by (simp add: list_add_def list_create_def list_size_def Let_def list_contains_def
      contains_from.simps)

end
