(* ===== verification/Graph.thy ===== *)
theory Graph
  imports Prelude
begin

text \<open>
  The graph of \<open>ac-lib/tree.c\<close> and \<open>ac-lib/tree.h\<close>: nodes in a store, each with an array of
  pointers to its neighbours, and \<open>combineNodesToGraph\<close>, which the name server uses to decide
  which clients become peers. \<open>graph_ok\<close> is the invariant of the store, \<open>edges\<close> the number of
  times a node lists another one; the loops are reduced to a list of node pairs that
  \<open>addConnection\<close> is called on (\<open>connect_all\<close>), about which the properties are proved.
\<close>

section \<open>The code\<close>

record 'd node =
  numConnections :: int
  node_data :: 'd
  connections :: "nat list"

record 'd gheap =
  gnodes :: "nat \<rightharpoonup> 'd node"
  gbrk :: nat

definition compareNodes :: "ptr \<Rightarrow> ptr \<Rightarrow> int" where
  "compareNodes uno dos = (if uno = dos then 1 else 0)"

text \<open>The entry is written at index \<open>numConnections\<close> of the reallocated array.\<close>

definition addConnection :: "'d gheap \<Rightarrow> nat \<Rightarrow> nat \<Rightarrow> (int \<times> 'd gheap) option" where
  "addConnection g uno dos =
     (if uno = dos then Some (1, g)
      else do {
        n \<leftarrow> gnodes g uno;
        let n' = n\<lparr>connections := take (nat (numConnections n)) (connections n) @ [dos],
                   numConnections := numConnections n + 1\<rparr>;
        let h = (gnodes g)(uno \<mapsto> n');
        m \<leftarrow> h dos;
        let m' = m\<lparr>connections := take (nat (numConnections m)) (connections m) @ [uno],
                   numConnections := numConnections m + 1\<rparr>;
        Some (0, g\<lparr>gnodes := h(dos \<mapsto> m')\<rparr>)
      })"

definition combineNodesToGraph :: "'d gheap \<Rightarrow> nat list \<Rightarrow> int \<Rightarrow> int \<Rightarrow> (nat \<times> 'd gheap) option" where
  "combineNodesToGraph g grp minConnections sz = do {
     g' \<leftarrow> (if sz = 1 then Some g
       else if sz < minConnections - 1
       then mfold (\<lambda>count g.
              let target = (if sz < minConnections then sz else minConnections) in
              mfold (\<lambda>sub g. do {
                  uno \<leftarrow> arr_get grp count;
                  dos \<leftarrow> arr_get grp (if int (count + sub) \<ge> sz then 0 + sub else count + sub);
                  map_option snd (addConnection g uno dos)
                }) [1..<nat target] g) [0..<nat sz] g
       else mfold (\<lambda>count g.
              mfold (\<lambda>subCount g.
                  if count = subCount then Some g
                  else do {
                    uno \<leftarrow> arr_get grp count;
                    dos \<leftarrow> arr_get grp subCount;
                    map_option snd (addConnection g uno dos)
                  }) [0..<nat sz] g) [0..<nat sz] g);
     head \<leftarrow> (if sz < 1 then None else arr_get grp (nat (sz - 1)));
     Some (head, g')
   }"

definition numberOfConnections :: "'d gheap \<Rightarrow> nat \<Rightarrow> int option" where
  "numberOfConnections g n = map_option numConnections (gnodes g n)"

definition createNode :: "'d gheap \<Rightarrow> 'd \<Rightarrow> nat \<times> 'd gheap" where
  "createNode g d =
     (gbrk g, g\<lparr>gnodes := (gnodes g)(gbrk g \<mapsto> \<lparr>numConnections = 0, node_data = d, connections = []\<rparr>),
                gbrk := Suc (gbrk g)\<rparr>)"

text \<open>The array of connections of a node that is cleaned up is not freed.\<close>

definition cleanupNode :: "'d gheap \<Rightarrow> nat \<Rightarrow> ('d \<times> 'd gheap) option" where
  "cleanupNode g n = do {
     nd \<leftarrow> gnodes g n;
     Some (node_data nd, g\<lparr>gnodes := (gnodes g)(n := None)\<rparr>)
   }"

section \<open>The invariant of the node store\<close>

definition conns :: "'d gheap \<Rightarrow> nat \<Rightarrow> nat list" where
  "conns g a = (case gnodes g a of None \<Rightarrow> [] | Some n \<Rightarrow> connections n)"

definition edges :: "'d gheap \<Rightarrow> nat \<Rightarrow> nat \<Rightarrow> nat" where
  "edges g a b = count_list (conns g a) b"

definition graph_ok :: "'d gheap \<Rightarrow> bool" where
  "graph_ok g \<longleftrightarrow>
     (\<forall>a n. gnodes g a = Some n \<longrightarrow> numConnections n = int (length (connections n)) \<and>
            a < gbrk g \<and> a \<notin> set (connections n) \<and>
            (\<forall>b \<in> set (connections n). gnodes g b \<noteq> None)) \<and>
     (\<forall>a b. edges g a b = edges g b a)"

text \<open>The same nodes with the same data: what adding connections never changes.\<close>

definition same_nodes :: "'d gheap \<Rightarrow> 'd gheap \<Rightarrow> bool" where
  "same_nodes g g' \<longleftrightarrow>
     gbrk g' = gbrk g \<and> map_option node_data \<circ> gnodes g' = map_option node_data \<circ> gnodes g"

definition adj :: "'d gheap \<Rightarrow> nat \<Rightarrow> nat \<Rightarrow> bool" where
  "adj g a b \<longleftrightarrow> b \<in> set (conns g a)"

lemma adj_edges: "adj g a b \<longleftrightarrow> 0 < edges g a b"
  by (simp add: adj_def edges_def zero_less_iff_neq_zero)

lemma same_nodes_refl [simp]: "same_nodes g g"
  by (simp add: same_nodes_def)

lemma same_nodes_trans: "same_nodes g g' \<Longrightarrow> same_nodes g' g'' \<Longrightarrow> same_nodes g g''"
  by (simp add: same_nodes_def)

lemma same_nodes_data:
  "same_nodes g g' \<Longrightarrow> map_option node_data (gnodes g' a) = map_option node_data (gnodes g a)"
  by (auto simp: same_nodes_def fun_eq_iff)

lemma same_nodes_None: "same_nodes g g' \<Longrightarrow> gnodes g' a = None \<longleftrightarrow> gnodes g a = None"
  using same_nodes_data [of g g' a] by (metis option.map_disc_iff)

lemma graph_ok_self: "graph_ok g \<Longrightarrow> edges g a a = 0"
  by (auto simp: graph_ok_def edges_def conns_def split: option.splits)

lemma graph_ok_sym: "graph_ok g \<Longrightarrow> edges g a b = edges g b a"
  by (simp add: graph_ok_def)

lemma addConnection_self: "addConnection g u u = Some (1, g)"
  by (simp add: addConnection_def)

lemma addConnection_other:
  assumes ok: "graph_ok g" and nd: "u \<noteq> d" "gnodes g u = Some n" "gnodes g d = Some m"
  shows "\<exists>g'. addConnection g u d = Some (0, g') \<and> graph_ok g' \<and> same_nodes g g' \<and>
    (\<forall>a. conns g' a = conns g a @ (if a = u then [d] else if a = d then [u] else []))"
proof -
  let ?n = "n\<lparr>connections := connections n @ [d], numConnections := numConnections n + 1\<rparr>"
  let ?m = "m\<lparr>connections := connections m @ [u], numConnections := numConnections m + 1\<rparr>"
  let ?g = "g\<lparr>gnodes := (gnodes g)(u \<mapsto> ?n, d \<mapsto> ?m)\<rparr>"
  from ok nd have len: "numConnections n = int (length (connections n))"
    "numConnections m = int (length (connections m))"
    by (auto simp: graph_ok_def)
  with nd have "addConnection g u d = Some (0, ?g)"
    by (simp add: addConnection_def)
  moreover have c: "conns ?g a = conns g a @ (if a = u then [d] else if a = d then [u] else [])" for a
    using nd by (auto simp: conns_def)
  moreover have "same_nodes g ?g"
    using nd by (auto simp: same_nodes_def fun_eq_iff)
  moreover have "graph_ok ?g"
    unfolding graph_ok_def
  proof (intro conjI allI impI)
    fix a b
    show "edges ?g a b = edges ?g b a"
      using graph_ok_sym [OF ok, of a b] nd(1) by (simp add: edges_def c)
  next
    fix a x
    assume x: "gnodes ?g a = Some x"
    show "numConnections x = int (length (connections x))" "a < gbrk ?g"
      "a \<notin> set (connections x)" "\<forall>b \<in> set (connections x). gnodes ?g b \<noteq> None"
      using x ok nd len by (auto simp: graph_ok_def split: if_splits)
  qed
  ultimately show ?thesis by blast
qed

section \<open>Adding a list of connections\<close>

definition connect_all :: "'d gheap \<Rightarrow> (nat \<times> nat) list \<Rightarrow> 'd gheap option" where
  "connect_all g ps = mfold (\<lambda>(u, d) g. map_option snd (addConnection g u d)) ps g"

lemma connect_all_simps [simp]:
  "connect_all g [] = Some g"
  "connect_all g ((u, d) # ps) =
     (case addConnection g u d of None \<Rightarrow> None | Some (_, g') \<Rightarrow> connect_all g' ps)"
  by (auto simp: connect_all_def split: option.splits)

lemma connect_all_edges:
  "graph_ok g \<Longrightarrow> \<forall>(u, d) \<in> set ps. gnodes g u \<noteq> None \<and> gnodes g d \<noteq> None \<Longrightarrow>
   \<exists>g'. connect_all g ps = Some g' \<and> graph_ok g' \<and> same_nodes g g' \<and>
     (\<forall>a b. a \<noteq> b \<longrightarrow> edges g' a b = edges g a b + count_list ps (a, b) + count_list ps (b, a))"
proof (induction ps arbitrary: g)
  case Nil
  then show ?case by simp
next
  case (Cons p ps)
  obtain u d where p: "p = (u, d)" by (cases p)
  show ?case
  proof (cases "u = d")
    case True
    with Cons.IH [OF Cons.prems(1)] Cons.prems(2) show ?thesis
      by (auto simp: p addConnection_self)
  next
    case False
    from Cons.prems(2) p obtain n m where "gnodes g u = Some n" "gnodes g d = Some m" by auto
    from addConnection_other [OF Cons.prems(1) False this] obtain g1 where
      g1: "addConnection g u d = Some (0, g1)" "graph_ok g1" and same: "same_nodes g g1" and
      c: "\<And>a. conns g1 a = conns g a @ (if a = u then [d] else if a = d then [u] else [])"
      by blast
    have e: "edges g1 a b = edges g a b + count_list [p] (a, b) + count_list [p] (b, a)"
      if "a \<noteq> b" for a b
      using that False by (auto simp: edges_def c p)
    have "\<forall>(u, d) \<in> set ps. gnodes g1 u \<noteq> None \<and> gnodes g1 d \<noteq> None"
      using Cons.prems(2) by (auto simp: same_nodes_None [OF same])
    from Cons.IH [OF g1(2) this] obtain g' where
      "connect_all g1 ps = Some g'" "graph_ok g'" "same_nodes g1 g'"
      "\<forall>a b. a \<noteq> b \<longrightarrow> edges g' a b = edges g1 a b + count_list ps (a, b) + count_list ps (b, a)"
      by blast
    with g1 e same show ?thesis
      by (auto simp: p intro: same_nodes_trans)
  qed
qed

section \<open>The pairs that \<open>combineNodesToGraph\<close> connects\<close>

text \<open>Index pairs, in the order of the loops: the small-group branch and the full mesh.\<close>

definition ring_idx :: "nat \<Rightarrow> (nat \<times> nat) list" where
  "ring_idx n = concat (map (\<lambda>c. map (\<lambda>s. (c, if c + s \<ge> n then s else c + s)) [1..<n]) [0..<n])"

definition mesh_idx :: "nat \<Rightarrow> (nat \<times> nat) list" where
  "mesh_idx n = filter (\<lambda>(i, j). i \<noteq> j) (List.product [0..<n] [0..<n])"

definition combine_idx :: "nat \<Rightarrow> int \<Rightarrow> (nat \<times> nat) list" where
  "combine_idx n minC =
     (if n = 1 then [] else if int n < minC - 1 then ring_idx n else mesh_idx n)"

lemma connect_all_map: "connect_all g (map h is) =
    mfold (\<lambda>i g. map_option snd (addConnection g (fst (h i)) (snd (h i)))) is g"
  by (simp add: connect_all_def mfold_map case_prod_unfold)

abbreviation at_idx :: "nat list \<Rightarrow> nat \<times> nat \<Rightarrow> nat \<times> nat" where
  "at_idx grp \<equiv> \<lambda>(i, j). (grp ! i, grp ! j)"

lemma ring_loop:
  assumes "length grp = n" and "int n < minC - 1"
  shows "mfold (\<lambda>count g.
       let target = (if int n < minC then int n else minC) in
       mfold (\<lambda>sub g. do {
           uno \<leftarrow> arr_get grp count;
           dos \<leftarrow> arr_get grp (if int (count + sub) \<ge> int n then 0 + sub else count + sub);
           map_option snd (addConnection g uno dos)
         }) [1..<nat target] g) [0..<n] g
     = connect_all g (map (at_idx grp) (ring_idx n))"
proof -
  have "connect_all g (map (at_idx grp) (ring_idx n)) =
    mfold (\<lambda>c. mfold (\<lambda>s g. map_option snd
       (addConnection g (grp ! c) (grp ! (if c + s \<ge> n then s else c + s)))) [1..<n]) [0..<n] g"
    by (simp add: connect_all_map ring_idx_def mfold_concat mfold_map case_prod_unfold)
  also have "\<dots> = mfold (\<lambda>count g.
       let target = (if int n < minC then int n else minC) in
       mfold (\<lambda>sub g. do {
           uno \<leftarrow> arr_get grp count;
           dos \<leftarrow> arr_get grp (if int (count + sub) \<ge> int n then 0 + sub else count + sub);
           map_option snd (addConnection g uno dos)
         }) [1..<nat target] g) [0..<n] g"
    using assms by (intro mfold_cong) (auto simp: Let_def intro!: mfold_cong)
  finally show ?thesis by simp
qed

lemma mesh_loop:
  assumes "length grp = n"
  shows "mfold (\<lambda>count g.
       mfold (\<lambda>subCount g.
           if count = subCount then Some g
           else do {
             uno \<leftarrow> arr_get grp count;
             dos \<leftarrow> arr_get grp subCount;
             map_option snd (addConnection g uno dos)
           }) [0..<n] g) [0..<n] g
     = connect_all g (map (at_idx grp) (mesh_idx n))"
proof -
  have "connect_all g (map (at_idx grp) (mesh_idx n)) =
    mfold (\<lambda>c. mfold (\<lambda>s g. if c \<noteq> s then map_option snd (addConnection g (grp ! c) (grp ! s))
       else Some g) [0..<n]) [0..<n] g"
    by (simp add: connect_all_map mesh_idx_def mfold_filter product_concat_map mfold_concat mfold_map
        case_prod_unfold cong: if_cong)
  also have "\<dots> = mfold (\<lambda>count g.
       mfold (\<lambda>subCount g.
           if count = subCount then Some g
           else do {
             uno \<leftarrow> arr_get grp count;
             dos \<leftarrow> arr_get grp subCount;
             map_option snd (addConnection g uno dos)
           }) [0..<n] g) [0..<n] g"
    using assms by (intro mfold_cong) (auto intro!: mfold_cong)
  finally show ?thesis by simp
qed

lemma combine_eq:
  assumes "grp \<noteq> []"
  shows "combineNodesToGraph g grp minC (int (length grp)) =
    map_option (Pair (last grp)) (connect_all g (map (at_idx grp) (combine_idx (length grp) minC)))"
proof -
  let ?n = "length grp"
  have head: "(if int ?n < 1 then None else arr_get grp (nat (int ?n - 1))) = Some (last grp)"
    using assms by (simp add: last_conv_nth not_less Suc_le_eq nat_diff_distrib)
  consider "?n = 1" | "?n \<noteq> 1" "int ?n < minC - 1" | "?n \<noteq> 1" "\<not> int ?n < minC - 1" by blast
  then have "combineNodesToGraph g grp minC (int ?n) =
     (connect_all g (map (at_idx grp) (combine_idx ?n minC)) \<bind> (\<lambda>g'. Some (last grp, g')))"
  proof cases
    case 1
    with head show ?thesis by (simp add: combineNodesToGraph_def combine_idx_def)
  next
    case 2
    with head show ?thesis
      by (simp only: combineNodesToGraph_def combine_idx_def nat_int of_nat_eq_1_iff if_False if_True
          ring_loop [OF refl 2(2)] bind.bind_lunit simp_thms)
  next
    case 3
    with head show ?thesis
      by (simp only: combineNodesToGraph_def combine_idx_def nat_int of_nat_eq_1_iff if_False
          mesh_loop [OF refl] bind.bind_lunit simp_thms)
  qed
  then show ?thesis by (cases "connect_all g (map (at_idx grp) (combine_idx ?n minC))") auto
qed

lemma ring_idx_range: "p \<in> set (ring_idx n) \<Longrightarrow> fst p < n \<and> snd p < n"
  by (auto simp: ring_idx_def)

lemma ring_idx_pair: "i < j \<Longrightarrow> j < n \<Longrightarrow> (i, j) \<in> set (ring_idx n)"
  by (force simp: ring_idx_def intro: image_eqI [where x = "j - i"])

lemma mesh_idx_pair: "(i, j) \<in> set (mesh_idx n) \<longleftrightarrow> i < n \<and> j < n \<and> i \<noteq> j"
  by (auto simp: mesh_idx_def)

lemma mesh_idx_distinct: "distinct (mesh_idx n)"
  by (simp add: mesh_idx_def distinct_product)

lemma combine_idx_range: "p \<in> set (combine_idx n minC) \<Longrightarrow> fst p < n \<and> snd p < n"
  by (cases p) (auto simp: combine_idx_def mesh_idx_pair dest: ring_idx_range split: if_splits)

lemma combine_idx_pair:
  assumes "i < n" and "j < n" and "i \<noteq> j"
  shows "(i, j) \<in> set (combine_idx n minC) \<or> (j, i) \<in> set (combine_idx n minC)"
  using assms ring_idx_pair [of i j n] ring_idx_pair [of j i n]
  by (cases i j rule: linorder_cases) (auto simp: combine_idx_def mesh_idx_pair)

text \<open>\<open>combineNodesToGraph\<close> on a group of allocated nodes: it returns, and what it connects.\<close>

lemma combine_result:
  assumes ok: "graph_ok g" and "grp \<noteq> []" and dom: "\<forall>a \<in> set grp. gnodes g a \<noteq> None"
  obtains g' where
    "combineNodesToGraph g grp minC (int (length grp)) = Some (last grp, g')"
    "graph_ok g'" "same_nodes g g'"
    "\<And>a b. a \<noteq> b \<Longrightarrow> edges g' a b = edges g a b
       + count_list (map (at_idx grp) (combine_idx (length grp) minC)) (a, b)
       + count_list (map (at_idx grp) (combine_idx (length grp) minC)) (b, a)"
proof -
  let ?ps = "map (at_idx grp) (combine_idx (length grp) minC)"
  have "\<forall>(u, d) \<in> set ?ps. gnodes g u \<noteq> None \<and> gnodes g d \<noteq> None"
    using dom by (auto dest!: combine_idx_range)
  from connect_all_edges [OF ok this] that show ?thesis
    by (auto simp: combine_eq [OF assms(2)])
qed

lemma at_idx_inj:
  "distinct grp \<Longrightarrow> inj_on (at_idx grp) {(i, j). i < length grp \<and> j < length grp}"
  by (auto simp: inj_on_def nth_eq_iff_index_eq)

lemma count_mesh:
  assumes "distinct grp" and "a \<noteq> b"
  shows "count_list (map (at_idx grp) (mesh_idx (length grp))) (a, b) =
    (if a \<in> set grp \<and> b \<in> set grp then 1 else 0)"
proof -
  have "distinct (map (at_idx grp) (mesh_idx (length grp)))"
    unfolding distinct_map using mesh_idx_distinct
    by (auto intro!: inj_on_subset [OF at_idx_inj [OF assms(1)]] simp: mesh_idx_pair)
  moreover have "(a, b) \<in> set (map (at_idx grp) (mesh_idx (length grp))) \<longleftrightarrow> a \<in> set grp \<and> b \<in> set grp"
  proof
    assume "a \<in> set grp \<and> b \<in> set grp"
    then obtain i j where "i < length grp" "j < length grp" "a = grp ! i" "b = grp ! j"
      by (auto simp: in_set_conv_nth)
    with assms(2) show "(a, b) \<in> set (map (at_idx grp) (mesh_idx (length grp)))"
      by (auto simp: mesh_idx_pair intro!: image_eqI [where x = "(i, j)"])
  qed (auto simp: mesh_idx_pair)
  ultimately show ?thesis by (simp add: count_list_distinct)
qed

lemma combine_pairs_count:
  assumes "a \<in> set grp" and "b \<in> set grp" and "a \<noteq> b"
  shows "0 < count_list (map (at_idx grp) (combine_idx (length grp) minC)) (a, b) +
    count_list (map (at_idx grp) (combine_idx (length grp) minC)) (b, a)"
proof -
  let ?ps = "map (at_idx grp) (combine_idx (length grp) minC)"
  from assms obtain i j where ij: "i < length grp" "j < length grp" "a = grp ! i" "b = grp ! j"
    by (auto simp: in_set_conv_nth)
  with assms(3) have "i \<noteq> j" by auto
  from combine_idx_pair [OF ij(1,2) this, of minC] ij(3,4)
  have "(a, b) \<in> set ?ps \<or> (b, a) \<in> set ?ps"
    by (metis (mono_tags, lifting) case_prod_conv image_eqI set_map)
  then show ?thesis by (auto simp: zero_less_iff_neq_zero simp del: set_map)
qed

lemma mesh_conns:
  assumes ok: "graph_ok g'" and "distinct grp" and a: "a \<in> set grp" and "conns g a = []"
    and e: "\<And>b. a \<noteq> b \<Longrightarrow> edges g' a b = edges g a b
       + count_list (map (at_idx grp) (mesh_idx (length grp))) (a, b)
       + count_list (map (at_idx grp) (mesh_idx (length grp))) (b, a)"
  shows "mset (conns g' a) = mset (remove1 a grp) + mset (remove1 a grp)"
proof -
  from assms(4) have z: "edges g a b = 0" for b by (simp add: edges_def)
  have "count (mset (conns g' a)) b = 2 * count (mset (remove1 a grp)) b" for b
  proof (cases "a = b")
    case True
    then have "count (mset (conns g' a)) b = 0"
      using graph_ok_self [OF ok, of b] by (simp add: edges_def flip: count_list_mset)
    with True assms(2) show ?thesis by (simp only: count_remove1) simp
  next
    case False
    then have "count (mset (conns g' a)) b = edges g' a b"
      by (simp add: edges_def count_list_mset)
    also have "\<dots> = (if b \<in> set grp then 2 else 0)"
      using a False assms(2) by (simp add: e [OF False] z count_mesh)
    finally show ?thesis using False assms(2) by (simp only: count_remove1) simp
  qed
  then show ?thesis by (intro multiset_eqI) simp
qed

lemma numConnections_conns:
  "graph_ok g \<Longrightarrow> gnodes g a = Some n \<Longrightarrow> numConnections n = int (length (conns g a))"
  by (auto simp: graph_ok_def conns_def)

section \<open>Creating the nodes\<close>

text \<open>The nodes a program creates one after the other from an empty store.\<close>

fun create_nodes :: "'d gheap \<Rightarrow> 'd list \<Rightarrow> nat list \<times> 'd gheap" where
  "create_nodes g [] = ([], g)"
| "create_nodes g (d # ds) =
     (let (a, g1) = createNode g d; (as, g2) = create_nodes g1 ds in (a # as, g2))"

definition empty_gheap :: "'d gheap" where
  "empty_gheap = \<lparr>gnodes = Map.empty, gbrk = 0\<rparr>"

text \<open>A store of nodes without connections, one per address below \<open>gbrk\<close>.\<close>

definition fresh_nodes :: "'d gheap \<Rightarrow> 'd list \<Rightarrow> bool" where
  "fresh_nodes g ds \<longleftrightarrow> gbrk g = length ds \<and>
     gnodes g = (\<lambda>a. if a < length ds
       then Some \<lparr>numConnections = 0, node_data = ds ! a, connections = []\<rparr> else None)"

lemma fresh_nodes_create:
  "fresh_nodes g ds \<Longrightarrow> createNode g d = (length ds, snd (createNode g d)) \<and>
     fresh_nodes (snd (createNode g d)) (ds @ [d])"
  by (auto simp: fresh_nodes_def createNode_def fun_eq_iff nth_append)

lemma create_nodes_fresh:
  "fresh_nodes g es \<Longrightarrow>
     \<exists>g'. create_nodes g ds = ([length es..<length es + length ds], g') \<and> fresh_nodes g' (es @ ds)"
proof (induction ds arbitrary: g es)
  case Nil
  then show ?case by simp
next
  case (Cons d ds)
  from fresh_nodes_create [OF Cons.prems, of d] obtain g1 where
    g1: "createNode g d = (length es, g1)" "fresh_nodes g1 (es @ [d])" by (metis)
  from Cons.IH [OF g1(2)] g1(1) show ?case
    by (auto simp: upt_conv_Cons simp del: upt_Suc)
qed

lemma create_nodes_all:
  obtains g where "create_nodes empty_gheap ds = ([0..<length ds], g)" "fresh_nodes g ds"
proof -
  have "fresh_nodes empty_gheap ([] :: 'a list)"
    by (simp add: fresh_nodes_def empty_gheap_def fun_eq_iff)
  from create_nodes_fresh [OF this, of ds] that show ?thesis by auto
qed

lemma fresh_nodes_ok: "fresh_nodes g ds \<Longrightarrow> graph_ok g"
  by (auto simp: fresh_nodes_def graph_ok_def edges_def conns_def split: option.splits if_splits)

lemma fresh_nodes_conns: "fresh_nodes g ds \<Longrightarrow> conns g a = []"
  by (auto simp: fresh_nodes_def conns_def split: option.splits if_splits)

lemma fresh_nodes_dom: "fresh_nodes g ds \<Longrightarrow> gnodes g a \<noteq> None \<longleftrightarrow> a < length ds"
  by (auto simp: fresh_nodes_def)

section \<open>Properties\<close>

definition ex_nodes :: "nat gheap" where
  "ex_nodes = snd (create_nodes empty_gheap [10, 20, 30])"

lemma ex_nodes_fresh: "fresh_nodes ex_nodes [10, 20, 30]"
proof -
  obtain g where "create_nodes empty_gheap [10, 20, 30 :: nat] = ([0..<length [10, 20, 30 :: nat]], g)"
    and g: "fresh_nodes g [10, 20, 30]" by (rule create_nodes_all)
  then have "ex_nodes = g" unfolding ex_nodes_def by (simp only: snd_conv)
  with g show ?thesis by simp
qed

lemma ex_nodes_dom: "gnodes ex_nodes a \<noteq> None \<longleftrightarrow> a < 3"
  using fresh_nodes_dom [OF ex_nodes_fresh, of a] by (simp add: eval_nat_numeral)

text \<open>
  On a store that satisfies the invariant, \<open>combineNodesToGraph\<close> on a non-empty group of its
  nodes returns the last node of the group, keeps the invariant and all nodes with their data, and
  connects every two nodes of the group, whatever \<open>minConnections\<close> is.
\<close>

lemma combine_complete:
  assumes "graph_ok g" and "grp \<noteq> []" and "\<forall>a \<in> set grp. gnodes g a \<noteq> None"
  shows "\<exists>g'. combineNodesToGraph g grp minC (int (length grp)) = Some (last grp, g') \<and>
     graph_ok g' \<and> same_nodes g g' \<and>
     (\<forall>a \<in> set grp. \<forall>b \<in> set grp. a \<noteq> b \<longrightarrow> adj g' a b)"
proof -
  let ?ps = "map (at_idx grp) (combine_idx (length grp) minC)"
  from assms obtain g' where g': "combineNodesToGraph g grp minC (int (length grp)) = Some (last grp, g')"
    "graph_ok g'" "same_nodes g g'" and
    e: "\<And>a b. a \<noteq> b \<Longrightarrow> edges g' a b = edges g a b + count_list ?ps (a, b) + count_list ?ps (b, a)"
    by (rule combine_result) blast
  have "adj g' a b" if "a \<in> set grp" "b \<in> set grp" "a \<noteq> b" for a b
    using e [OF that(3)] combine_pairs_count [OF that, of minC] by (simp add: adj_edges)
  with g' show ?thesis by blast
qed

text \<open>
  The full mesh connects each pair twice: in a group of distinct nodes without connections and
  of at least \<open>minConnections - 1\<close> and not exactly one node, every node ends with \<open>2 * (n - 1)\<close>
  connections, each other node of the group listed exactly two times.
\<close>

lemma combine_mesh_doubles:
  assumes "graph_ok g" and "distinct grp" and "1 < length grp" and "minC - 1 \<le> int (length grp)"
    and "\<forall>a \<in> set grp. gnodes g a \<noteq> None \<and> conns g a = []"
  shows "\<exists>g'. combineNodesToGraph g grp minC (int (length grp)) = Some (last grp, g') \<and>
     (\<forall>a \<in> set grp. numberOfConnections g' a = Some (2 * (int (length grp) - 1)) \<and>
        mset (conns g' a) = mset (remove1 a grp) + mset (remove1 a grp))"
proof -
  have "grp \<noteq> []" using assms(3) by auto
  moreover have idx: "combine_idx (length grp) minC = mesh_idx (length grp)"
    using assms(3,4) by (simp add: combine_idx_def)
  ultimately obtain g' where
    g': "combineNodesToGraph g grp minC (int (length grp)) = Some (last grp, g')"
    "graph_ok g'" "same_nodes g g'" and
    e: "\<And>a b. a \<noteq> b \<Longrightarrow> edges g' a b = edges g a b
       + count_list (map (at_idx grp) (mesh_idx (length grp))) (a, b)
       + count_list (map (at_idx grp) (mesh_idx (length grp))) (b, a)"
    using assms(1,5) combine_result [of g grp minC] by metis
  have "numberOfConnections g' a = Some (2 * (int (length grp) - 1)) \<and>
        mset (conns g' a) = mset (remove1 a grp) + mset (remove1 a grp)" if a: "a \<in> set grp" for a
  proof
    show m: "mset (conns g' a) = mset (remove1 a grp) + mset (remove1 a grp)"
      using assms(5) a by (intro mesh_conns [OF g'(2) assms(2) a _ e]) auto
    from g'(3) assms(5) a obtain n where n: "gnodes g' a = Some n"
      using same_nodes_None [OF g'(3), of a] by auto
    from m have "length (conns g' a) = 2 * length (remove1 a grp)"
      by (metis mult_2 size_mset size_union)
    with a assms(3) show "numberOfConnections g' a = Some (2 * (int (length grp) - 1))"
      by (simp add: numberOfConnections_def n numConnections_conns [OF g'(2) n] length_remove1)
  qed
  with g'(1) show ?thesis by blast
qed

end
