(* ===== verification/CString.thy ===== *)
theory CString
  imports Prelude "HOL-Library.Sublist"
begin

text \<open>
  C strings as the code uses them: a buffer is the list of its bytes, and the string in it ends at
  the first NUL byte. The functions of \<open>string.h\<close> that the program calls write into a buffer of
  fixed size; writing past its end, or reading a string from a buffer without a NUL byte, is a
  fault (\<open>None\<close>). Source strings are given by their characters, without the terminator.

  Two functions of the program itself are here because both programs share them:
  \<open>str_starts_with\<close> of \<open>ac-lib/msg.c\<close> and of \<open>ac-name-server/name_server.c\<close>.
\<close>

type_synonym bytes = "char list"

abbreviation NUL :: char where
  "NUL \<equiv> CHR 0x00"

text \<open>The sizes of the address and port fields, from \<open>netdb.h\<close>.\<close>

definition NI_MAXHOST :: nat where "NI_MAXHOST = 1025"

definition NI_MAXSERV :: nat where "NI_MAXSERV = 32"

section \<open>Strings in buffers\<close>

definition cstr :: "bytes \<Rightarrow> string option" where
  "cstr b = (if NUL \<in> set b then Some (takeWhile (\<lambda>c. c \<noteq> NUL) b) else None)"

definition strncpy :: "bytes \<Rightarrow> string \<Rightarrow> nat \<Rightarrow> bytes option" where
  "strncpy dst s n =
     (if n \<le> length dst then Some (take n s @ replicate (n - length s) NUL @ drop n dst) else None)"

definition strncat :: "bytes \<Rightarrow> string \<Rightarrow> nat \<Rightarrow> bytes option" where
  "strncat dst s n = do {
     d \<leftarrow> cstr dst;
     let w = d @ take n s @ [NUL];
     if length w \<le> length dst then Some (w @ drop (length w) dst) else None
   }"

definition put_byte :: "bytes \<Rightarrow> nat \<Rightarrow> char \<Rightarrow> bytes option" where
  "put_byte b i c = (if i < length b then Some (b[i := c]) else None)"

text \<open>\<open>memset(p, 0, n)\<close> on the first \<open>n\<close> bytes of a block.\<close>

definition zero_bytes :: "bytes \<Rightarrow> nat \<Rightarrow> bytes option" where
  "zero_bytes b n = (if n \<le> length b then Some (replicate n NUL @ drop n b) else None)"

text \<open>Writing consecutive bytes into a block, and reading the first ones.\<close>

definition write_at :: "bytes \<Rightarrow> nat \<Rightarrow> bytes \<Rightarrow> bytes option" where
  "write_at b i w =
     (if i + length w \<le> length b then Some (take i b @ w @ drop (i + length w) b) else None)"

definition read_bytes :: "bytes \<Rightarrow> int \<Rightarrow> bytes option" where
  "read_bytes b n = (if n \<le> int (length b) then Some (take (nat n) b) else None)"

lemma write_at_in: "i + length w \<le> length b \<Longrightarrow> \<exists>b'. write_at b i w = Some b' \<and> length b' = length b \<and>
    take (i + length w) b' = take i b @ w"
  by (simp add: write_at_def)

lemma takeWhile_absent: "d \<notin> set s \<Longrightarrow> takeWhile (\<lambda>c. c \<noteq> d) s = s"
  by (induction s) auto

lemma dropWhile_absent: "d \<notin> set s \<Longrightarrow> dropWhile (\<lambda>c. c \<noteq> d) s = []"
  by (induction s) auto

lemma takeWhile_stop: "d \<notin> set s \<Longrightarrow> takeWhile (\<lambda>c. c \<noteq> d) (s @ d # r) = s"
  by (induction s) auto

lemma dropWhile_stop: "d \<notin> set s \<Longrightarrow> dropWhile (\<lambda>c. c \<noteq> d) (s @ d # r) = d # r"
  by (induction s) auto

lemma cstr_append [simp]: "NUL \<notin> set s \<Longrightarrow> cstr (s @ NUL # r) = Some s"
  by (simp add: cstr_def takeWhile_stop)

lemma cstr_zeros [simp]: "0 < n \<Longrightarrow> cstr (replicate n NUL @ r) = Some []"
  by (cases n) (auto simp: cstr_def)

lemma cstr_split:
  assumes "cstr b = Some s"
  obtains r where "b = s @ NUL # r" and "NUL \<notin> set s"
proof -
  from assms have n: "NUL \<in> set b" and s: "s = takeWhile (\<lambda>c. c \<noteq> NUL) b"
    by (auto simp: cstr_def split: if_splits)
  from n obtain ys zs where b: "b = ys @ NUL # zs" "NUL \<notin> set ys"
    by (metis split_list_first)
  with s have "s = ys" by (simp add: takeWhile_stop)
  with b that show ?thesis by blast
qed

lemma cstr_no_NUL: "cstr b = Some s \<Longrightarrow> NUL \<notin> set s"
  by (erule cstr_split)

lemma cstr_length: "cstr b = Some s \<Longrightarrow> length s < length b"
  by (erule cstr_split) simp

text \<open>Reading a prefix of a block that holds the whole string keeps the string.\<close>

lemma read_bytes_text:
  assumes "cstr b = Some s" and "length s < n" and "n \<le> length b"
  shows "\<exists>d. read_bytes b (int n) = Some d \<and> length d = n \<and> takeWhile (\<lambda>c. c \<noteq> NUL) d = s"
proof -
  from assms(1) obtain r where r: "b = s @ NUL # r" "NUL \<notin> set s" by (rule cstr_split)
  from assms(2) obtain k where k: "n = length s + Suc k" by (auto dest: less_imp_Suc_add)
  have "take n b = s @ NUL # take k r" unfolding r(1) k by simp
  then have "takeWhile (\<lambda>c. c \<noteq> NUL) (take n b) = s" by (simp add: takeWhile_stop [OF r(2)])
  with assms(3) show ?thesis by (simp add: read_bytes_def)
qed

lemma strncat_fits:
  assumes "cstr dst = Some d" and "NUL \<notin> set s" and "length d + length (take n s) < length dst"
  shows "\<exists>b. strncat dst s n = Some b \<and> cstr b = Some (d @ take n s) \<and> length b = length dst"
proof -
  have "NUL \<notin> set (d @ take n s)"
    using cstr_no_NUL [OF assms(1)] assms(2) by (auto dest: in_set_takeD)
  then have "cstr ((d @ take n s) @ NUL # r) = Some (d @ take n s)" for r
    by (rule cstr_append)
  with assms show ?thesis by (auto simp: strncat_def Let_def)
qed

lemma strncat_None_iff:
  "cstr dst = Some d \<Longrightarrow>
     strncat dst s n = None \<longleftrightarrow> length dst \<le> length d + length (take n s)"
  by (auto simp: strncat_def Let_def)

text \<open>Appending a short string: it succeeds exactly when it fits with its terminator.\<close>

lemma strncat_step:
  assumes "cstr m = Some s" and "NUL \<notin> set w" and "length w \<le> n"
  shows "if length s + length w < length m
    then \<exists>m'. strncat m w n = Some m' \<and> cstr m' = Some (s @ w) \<and> length m' = length m
    else strncat m w n = None"
  using assms strncat_fits [of m s w n] strncat_None_iff [of m s w n] by simp

lemma strncpy_fits:
  assumes "NUL \<notin> set s" and "length s < n" and "n \<le> length dst"
  shows "\<exists>b. strncpy dst s n = Some b \<and> cstr b = Some s \<and> length b = length dst"
proof -
  from assms(2) obtain k where k: "n - length s = Suc k" by (metis Suc_diff_Suc)
  with assms show ?thesis by (simp add: strncpy_def)
qed

text \<open>A source string of at least \<open>n\<close> characters is copied without a terminator.\<close>

lemma strncpy_unterminated:
  assumes "NUL \<notin> set s" and "length dst \<le> length s"
  shows "\<exists>b. strncpy dst s (length dst) = Some b \<and> cstr b = None"
  using assms by (auto simp: strncpy_def cstr_def dest: in_set_takeD)

section \<open>Comparing prefixes\<close>

fun strncmp :: "string \<Rightarrow> string \<Rightarrow> nat \<Rightarrow> int" where
  "strncmp a b 0 = 0"
| "strncmp [] [] (Suc n) = 0"
| "strncmp (x # a) [] (Suc n) = of_char x"
| "strncmp [] (y # b) (Suc n) = - of_char y"
| "strncmp (x # a) (y # b) (Suc n) = (if x = y then strncmp a b n else of_char x - of_char y)"

definition str_starts_with :: "string \<Rightarrow> string \<Rightarrow> bool" where
  "str_starts_with a b = (strncmp a b (length b) = 0)"

lemma of_char_NUL: "of_char x = (0 :: int) \<longleftrightarrow> x = NUL"
  using of_char_eq_iff [of x NUL, where 'a = int] by simp

lemma strncmp_prefix: "NUL \<notin> set b \<Longrightarrow> strncmp a b (length b) = 0 \<longleftrightarrow> prefix b a"
  by (induction a b "length b" rule: strncmp.induct) (auto simp: of_char_NUL)

lemma str_starts_with_prefix: "NUL \<notin> set b \<Longrightarrow> str_starts_with a b \<longleftrightarrow> prefix b a"
  by (simp add: str_starts_with_def strncmp_prefix)

section \<open>Tokens\<close>

text \<open>
  One call of \<open>strtok\<close> on the rest of a string: the token, and the rest for the next call.
\<close>

definition strtok :: "char \<Rightarrow> string \<Rightarrow> (string \<times> string) option" where
  "strtok d s =
     (let s' = dropWhile (\<lambda>c. c = d) s in
      if s' = [] then None
      else Some (takeWhile (\<lambda>c. c \<noteq> d) s', drop 1 (dropWhile (\<lambda>c. c \<noteq> d) s')))"

lemma strtok_shorter:
  assumes "strtok d s = Some (t, r)"
  shows "length r < length s"
proof -
  let ?u = "dropWhile (\<lambda>c. c = d) s" and ?v = "\<lambda>u. dropWhile (\<lambda>c. c \<noteq> d) u"
  from assms have "0 < length ?u" and "length r = length (?v ?u) - 1"
    by (auto simp: strtok_def Let_def split: if_splits)
  moreover have "length (?v ?u) \<le> length ?u" and "length ?u \<le> length s"
    by (rule length_dropWhile_le)+
  ultimately show ?thesis by linarith
qed

function tokens :: "char \<Rightarrow> string \<Rightarrow> string list" where
  "tokens d s = (case strtok d s of None \<Rightarrow> [] | Some (t, r) \<Rightarrow> t # tokens d r)"
  by pat_completeness auto
termination
  by (relation "measure (\<lambda>(d, s). length s)") (auto dest: strtok_shorter)

declare tokens.simps [simp del]

lemma strtok_word: "t \<noteq> [] \<Longrightarrow> d \<notin> set t \<Longrightarrow> strtok d t = Some (t, [])"
  by (cases t) (auto simp: strtok_def Let_def takeWhile_absent dropWhile_absent)

lemma strtok_append: "t \<noteq> [] \<Longrightarrow> d \<notin> set t \<Longrightarrow> strtok d (t @ d # r) = Some (t, r)"
  by (cases t) (auto simp: strtok_def Let_def takeWhile_stop dropWhile_stop)

lemma strtok_Nil [simp]: "strtok d [] = None"
  by (simp add: strtok_def)

text \<open>Words joined by a separator, and splitting them again.\<close>

fun join :: "char \<Rightarrow> string list \<Rightarrow> string" where
  "join d [] = []"
| "join d [w] = w"
| "join d (w # v # ws) = w @ d # join d (v # ws)"

lemma tokens_Nil [simp]: "tokens d [] = []"
  by (simp add: tokens.simps)

lemma tokens_join:
  "\<forall>w \<in> set ws. w \<noteq> [] \<and> d \<notin> set w \<Longrightarrow> tokens d (join d ws) = ws"
proof (induction d ws rule: join.induct)
  case (2 d w)
  then show ?case by (simp add: tokens.simps [of d w] strtok_word)
next
  case (3 d w v ws)
  then show ?case by (simp add: tokens.simps [of d "w @ r" for r] strtok_append)
qed simp

lemma set_join: "set (join d ws) \<subseteq> insert d (\<Union> (set ` set ws))"
  by (induction d ws rule: join.induct) auto

end
