(* ===== verification/PeerLine.thy ===== *)
theory PeerLine
  imports CList Graph CString
begin

text \<open>
  The state of the name server and the PEERS messages it sends: \<open>client_peers_static\<close>,
  \<open>client_peers_rand\<close>, \<open>client_send_peers\<close> and \<open>server_send_message\<close> of
  \<open>ac-name-server/name_server.c\<close>.

  The server's state holds the client structs by address, the client list (values are these
  addresses) and the log of \<open>send\<close> calls. Opaque fields of the struct (the socket address and the
  thread handle) are left out. What the environment decides is in the record \<open>env\<close>: the blocks
  \<open>malloc\<close> returns for character buffers (content and real size) and for list elements, what
  the local message buffer holds before it is written (\<open>env_stack\<close>), the values of \<open>rand\<close> and the results of \<open>send\<close>.

  \<open>client_send_peers_result\<close> gives the outcome on every branch: the text that is sent, and when
  the fixed-size buffers overflow.
\<close>

section \<open>State\<close>

record nclient =
  cl_fd :: int
  cl_address :: bytes
  cl_port :: bytes

record server =
  srv_clients :: "nat \<rightharpoonup> nclient"
  srv_list :: "nat clist"
  srv_sent :: "(int \<times> string) list"

record env =
  env_mem :: "nat \<Rightarrow> bytes"
  env_stack :: "nat \<Rightarrow> char"
  env_blocks :: "nat \<Rightarrow> nat list_elm"
  env_rand :: "nat \<Rightarrow> nat"
  env_send :: "int \<Rightarrow> string \<Rightarrow> int"

definition SERVER_MAX_MESSAGE :: nat where "SERVER_MAX_MESSAGE = 512"

definition PEER_POOL_SIZE :: int where "PEER_POOL_SIZE = 5"

definition CLIENT_PEER_DEF_PORT :: string where "CLIENT_PEER_DEF_PORT = ''4758''"

section \<open>The PEERS message\<close>

text \<open>Only a result of 0 of \<open>send\<close> counts as an error; \<open>send\<close> reports errors as -1.\<close>

definition server_send_message :: "env \<Rightarrow> server \<Rightarrow> int \<Rightarrow> string \<Rightarrow> int \<times> server" where
  "server_send_message E s fd msg =
     (if env_send E fd msg = 0 then 1 else 0, s\<lparr>srv_sent := srv_sent s @ [(fd, msg)]\<rparr>)"

text \<open>One entry and the space behind it, appended by four calls of \<open>strncat\<close>.\<close>

definition cat_peer :: "bytes \<Rightarrow> nclient \<Rightarrow> nat \<Rightarrow> bytes option" where
  "cat_peer msg cl n = do {
     a \<leftarrow> cstr (cl_address cl);
     m1 \<leftarrow> strncat msg a n;
     m2 \<leftarrow> strncat m1 '':'' n;
     p \<leftarrow> cstr (cl_port cl);
     m3 \<leftarrow> strncat m2 p n;
     strncat m3 '' '' n
   }"

definition trim_last :: "bytes \<Rightarrow> bytes option" where
  "trim_last msg = do {
     s \<leftarrow> cstr msg;
     if length s > 0 then put_byte msg (length s - 1) NUL else Some msg
   }"

definition client_peers_rand :: "env \<Rightarrow> server \<Rightarrow> nat \<Rightarrow> nat gheap \<Rightarrow> nat \<Rightarrow> bytes option" where
  "client_peers_rand E s max_msg_size g graph = do {
     msg \<leftarrow> zero_bytes (env_mem E max_msg_size) max_msg_size;
     n \<leftarrow> gnodes g graph;
     msg \<leftarrow> mfold (\<lambda>i msg. do {
         a \<leftarrow> arr_get (connections n) i;
         nd \<leftarrow> gnodes g a;
         cl \<leftarrow> srv_clients s (node_data nd);
         cat_peer msg cl max_msg_size
       }) [0..<nat (numConnections n)] msg;
     trim_last msg
   }"

definition client_peers_static :: "env \<Rightarrow> server \<Rightarrow> nclient \<Rightarrow> nat \<Rightarrow> bytes option option" where
  "client_peers_static E s client_o max_msg_size = do {
     msg \<leftarrow> zero_bytes (env_mem E max_msg_size) max_msg_size;
     let total_peers = list_size (srv_list s);
     if total_peers = 1 then Some None
     else do {
       msg \<leftarrow> mfold (\<lambda>i msg. do {
           item \<leftarrow> list_item_at (srv_list s) (int i);
           c \<leftarrow> item;
           cl \<leftarrow> srv_clients s c;
           if cl_fd cl = cl_fd client_o then Some msg else cat_peer msg cl max_msg_size
         }) [0..<nat total_peers] msg;
       msg \<leftarrow> trim_last msg;
       Some (Some msg)
     }
   }"

text \<open>The message buffer is a local array of \<open>SERVER_MAX_MESSAGE\<close> bytes.\<close>

definition client_send_peers :: "env \<Rightarrow> server \<Rightarrow> nat \<Rightarrow> nat gheap \<Rightarrow> nat \<Rightarrow> server option" where
  "client_send_peers E s c g graph = do {
     client_o \<leftarrow> srv_clients s c;
     msg0 \<leftarrow> put_byte (map (env_stack E) [0..<SERVER_MAX_MESSAGE]) 0 NUL;
     msg1 \<leftarrow> strncat msg0 ''PEERS '' SERVER_MAX_MESSAGE;
     let msg_size = SERVER_MAX_MESSAGE - 2 - 6;
     let total_peers = list_size (srv_list s);
     to_cat \<leftarrow> (if PEER_POOL_SIZE > total_peers
       then client_peers_static E s client_o msg_size
       else map_option Some (client_peers_rand E s msg_size g graph));
     case to_cat of
       None \<Rightarrow> Some s
     | Some b \<Rightarrow> do {
         t \<leftarrow> cstr b;
         msg2 \<leftarrow> strncat msg1 t SERVER_MAX_MESSAGE;
         m \<leftarrow> cstr msg2;
         Some (snd (server_send_message E s (cl_fd client_o) m))
       }
   }"

section \<open>The text of a PEERS message\<close>

definition peer_entry :: "nclient \<Rightarrow> string option" where
  "peer_entry cl = do {
     a \<leftarrow> cstr (cl_address cl);
     p \<leftarrow> cstr (cl_port cl);
     Some (a @ '':'' @ p)
   }"

definition entry :: "server \<Rightarrow> nat \<Rightarrow> string" where
  "entry s c = the (srv_clients s c \<bind> peer_entry)"

definition valid_client :: "server \<Rightarrow> nat \<Rightarrow> bool" where
  "valid_client s c \<longleftrightarrow> (srv_clients s c \<bind> peer_entry) \<noteq> None"

definition line_len :: "string list \<Rightarrow> nat" where
  "line_len es = (\<Sum>e\<leftarrow>es. length e + 1)"

lemma line_len_simps [simp]:
  "line_len [] = 0" "line_len (e # es) = length e + 1 + line_len es"
  "line_len (es @ fs) = line_len es + line_len fs"
  by (simp_all add: line_len_def)

lemma valid_clientE:
  assumes "valid_client s c"
  obtains cl where "srv_clients s c = Some cl" and "peer_entry cl = Some (entry s c)"
  using assms by (auto simp: valid_client_def entry_def bind_eq_Some_conv)

lemma entry_no_NUL: "peer_entry cl = Some e \<Longrightarrow> NUL \<notin> set e"
  by (auto simp: peer_entry_def bind_eq_Some_conv dest: cstr_no_NUL)

lemma cat_peer_step:
  assumes "cstr m = Some s" and e: "peer_entry cl = Some e" and "length e \<le> n"
  shows "if length s + length e + 1 < length m
    then \<exists>m'. cat_peer m cl n = Some m' \<and> cstr m' = Some (s @ e @ '' '') \<and> length m' = length m
    else cat_peer m cl n = None"
proof -
  from e obtain a p where a: "cstr (cl_address cl) = Some a" and p: "cstr (cl_port cl) = Some p"
    and ap: "e = a @ '':'' @ p"
    by (auto simp: peer_entry_def bind_eq_Some_conv)
  note nul = cstr_no_NUL [OF a] cstr_no_NUL [OF p]
  have n: "length a \<le> n" "length p \<le> n" "1 \<le> n" using assms(3) ap by auto
  show ?thesis
  proof (cases "length s + length a < length m")
    case a1: True
    with strncat_step [OF assms(1) nul(1) n(1)] obtain m1 where
      m1: "strncat m a n = Some m1" "cstr m1 = Some (s @ a)" "length m1 = length m" by auto
    show ?thesis
    proof (cases "length s + length a + 1 < length m")
      case a2: True
      with strncat_step [OF m1(2), of "'':''" n] n m1 obtain m2 where
        m2: "strncat m1 '':'' n = Some m2" "cstr m2 = Some (s @ a @ '':'')" "length m2 = length m"
        by auto
      show ?thesis
      proof (cases "length s + length a + 1 + length p < length m")
        case a3: True
        with strncat_step [OF m2(2) nul(2) n(2)] m2 obtain m3 where
          m3: "strncat m2 p n = Some m3" "cstr m3 = Some (s @ e)" "length m3 = length m"
          by (auto simp: ap)
        with strncat_step [OF m3(2), of "'' ''" n] n m1 m2 a p show ?thesis
          by (auto simp: cat_peer_def ap split: if_splits)
      next
        case False
        with strncat_step [OF m2(2) nul(2) n(2)] m1 m2 a p show ?thesis
          by (auto simp: cat_peer_def ap)
      qed
    next
      case False
      with strncat_step [OF m1(2), of "'':''" n] n m1 a p show ?thesis
        by (auto simp: cat_peer_def ap)
    qed
  next
    case False
    with strncat_step [OF assms(1) nul(1) n(1)] a show ?thesis
      by (auto simp: cat_peer_def ap)
  qed
qed

definition spaced :: "string list \<Rightarrow> string" where
  "spaced es = concat (map (\<lambda>e. e @ '' '') es)"

lemma spaced_simps [simp]: "spaced [] = []" "spaced (e # es) = e @ '' '' @ spaced es"
  by (simp_all add: spaced_def)

lemma length_spaced [simp]: "length (spaced es) = line_len es"
  by (induction es) auto

lemma cat_peers:
  assumes "cstr m = Some s" and "list_all2 (\<lambda>cl e. peer_entry cl = Some e \<and> length e \<le> n) cls es"
    and "length s < length m"
  shows "if length s + line_len es < length m
    then \<exists>m'. mfold (\<lambda>cl m. cat_peer m cl n) cls m = Some m' \<and>
              cstr m' = Some (s @ spaced es) \<and> length m' = length m
    else mfold (\<lambda>cl m. cat_peer m cl n) cls m = None"
  using assms(2,1,3)
proof (induction arbitrary: m s rule: list_all2_induct)
  case Nil
  then show ?case by simp
next
  case (Cons cl cls e es)
  show ?case
  proof (cases "length s + length e + 1 < length m")
    case True
    with Cons.hyps cat_peer_step [OF Cons.prems(1), of cl e n] obtain m' where
      m': "cat_peer m cl n = Some m'" "cstr m' = Some (s @ e @ '' '')" "length m' = length m"
      by auto
    from Cons.IH [OF m'(2)] m' True show ?thesis by (auto simp: algebra_simps split: if_splits)
  next
    case False
    with Cons.hyps cat_peer_step [OF Cons.prems(1), of cl e n] show ?thesis by auto
  qed
qed

lemma spaced_join: "es \<noteq> [] \<Longrightarrow> spaced es = join (CHR '' '') es @ '' ''"
  by (induction "CHR '' ''" es rule: join.induct) auto

lemma trim_last_join:
  assumes "cstr m = Some (spaced es)"
  shows "\<exists>m'. trim_last m = Some m' \<and> cstr m' = Some (join (CHR '' '') es) \<and> length m' = length m"
proof (cases "es = []")
  case True
  with assms show ?thesis by (auto simp: trim_last_def)
next
  case False
  let ?j = "join (CHR '' '') es"
  from assms obtain r where m: "m = (?j @ '' '') @ NUL # r" and nul: "NUL \<notin> set ?j"
    by (rule cstr_split) (simp add: spaced_join [OF False])
  have "trim_last m = Some (?j @ NUL # NUL # r)"
    using assms spaced_join [OF False]
    by (simp add: trim_last_def put_byte_def m list_update_append)
  with nul show ?thesis by (auto simp: m)
qed

definition mem_ok :: "env \<Rightarrow> bool" where
  "mem_ok E \<longleftrightarrow> (\<forall>n. n \<le> length (env_mem E n)) \<and> zeroed (env_blocks E)"

text \<open>The client that a node of the graph stands for.\<close>

definition client_of :: "nat gheap \<Rightarrow> nat \<Rightarrow> nat" where
  "client_of g a = node_data (the (gnodes g a))"

lemma zero_bytes_buffer:
  "0 < n \<Longrightarrow> n \<le> length b \<Longrightarrow>
     \<exists>m. zero_bytes b n = Some m \<and> cstr m = Some [] \<and> length m = length b"
  by (simp add: zero_bytes_def)

lemma mfold_graph_clients:
  assumes "\<forall>a \<in> set as. gnodes g a \<noteq> None \<and> valid_client s (client_of g a)"
  shows "mfold (\<lambda>a m. do {
       nd \<leftarrow> gnodes g a;
       cl \<leftarrow> srv_clients s (node_data nd);
       cat_peer m cl n
     }) as m = mfold (\<lambda>cl m. cat_peer m cl n) (map (\<lambda>a. the (srv_clients s (client_of g a))) as) m"
  unfolding mfold_map using assms
  by (intro mfold_cong) (auto simp: client_of_def elim!: valid_clientE)

lemma entries_rel:
  assumes "\<forall>c \<in> set cs. valid_client s c \<and> length (entry s c) \<le> n"
  shows "list_all2 (\<lambda>cl e. peer_entry cl = Some e \<and> length e \<le> n)
    (map (\<lambda>c. the (srv_clients s c)) cs) (map (entry s) cs)"
  using assms by (auto simp: list_all2_conv_all_nth elim!: valid_clientE)
    (metis nth_mem option.sel valid_clientE)+

lemma cat_trim:
  assumes m: "cstr m = Some []" and "0 < length m"
    and rel: "list_all2 (\<lambda>cl e. peer_entry cl = Some e \<and> length e \<le> n) cls es"
  shows "if line_len es < length m
    then \<exists>b. (mfold (\<lambda>cl m. cat_peer m cl n) cls m \<bind> trim_last) = Some b \<and>
             cstr b = Some (join (CHR '' '') es)
    else (mfold (\<lambda>cl m. cat_peer m cl n) cls m \<bind> trim_last) = None"
proof (cases "line_len es < length m")
  case True
  with cat_peers [OF m rel] assms(2) obtain m' where
    "mfold (\<lambda>cl m. cat_peer m cl n) cls m = Some m'" "cstr m' = Some (spaced es)"
    by auto
  with trim_last_join [of m' es] True show ?thesis by auto
next
  case False
  with cat_peers [OF m rel] assms(2) show ?thesis by simp
qed

lemma client_peers_rand_result:
  assumes n: "gnodes g t = Some n" "numConnections n = int (length (connections n))"
    and valid: "\<forall>a \<in> set (connections n). gnodes g a \<noteq> None \<and> valid_client s (client_of g a)
      \<and> length (entry s (client_of g a)) \<le> k"
    and mem: "0 < k" "k \<le> length (env_mem E k)"
    and es: "es = map (\<lambda>a. entry s (client_of g a)) (connections n)"
  shows "if line_len es < length (env_mem E k)
    then \<exists>b. client_peers_rand E s k g t = Some b \<and> cstr b = Some (join (CHR '' '') es)
    else client_peers_rand E s k g t = None"
proof -
  obtain m where m: "zero_bytes (env_mem E k) k = Some m" "cstr m = Some []"
    "length m = length (env_mem E k)"
    using zero_bytes_buffer [OF mem] by blast
  let ?cs = "map (client_of g) (connections n)"
  let ?cls = "map (\<lambda>c. the (srv_clients s c)) ?cs"
  have es': "es = map (entry s) ?cs" by (simp add: es comp_def)
  have loop: "client_peers_rand E s k g t =
      (mfold (\<lambda>cl m. cat_peer m cl k) ?cls m \<bind> trim_last)"
    using valid by (simp add: client_peers_rand_def m n mfold_index mfold_graph_clients comp_def)
  have rel: "list_all2 (\<lambda>cl e. peer_entry cl = Some e \<and> length e \<le> k) ?cls es"
    unfolding es' using valid by (intro entries_rel) auto
  have "0 < length m" using mem m(3) by linarith
  from cat_trim [OF m(2) this rel] show ?thesis unfolding loop m(3) .
qed

text \<open>The clients in the list, in order, and those on another socket than \<open>fd\<close>.\<close>

definition others :: "server \<Rightarrow> int \<Rightarrow> nat list \<Rightarrow> nat list" where
  "others s fd cs = filter (\<lambda>c. cl_fd (the (srv_clients s c)) \<noteq> fd) cs"

lemma static_loop:
  assumes rep: "lrep (srv_list s) xs" and cs: "cs = map fst xs" and valid: "\<forall>c \<in> set cs. valid_client s c"
  shows "mfold (\<lambda>i msg. do {
      item \<leftarrow> list_item_at (srv_list s) (int i);
      c \<leftarrow> item;
      cl \<leftarrow> srv_clients s c;
      if cl_fd cl = cl_fd cl0 then Some msg else cat_peer msg cl k
    }) [0..<length cs] m =
    mfold (\<lambda>cl m. cat_peer m cl k) (map (\<lambda>c. the (srv_clients s c)) (others s (cl_fd cl0) cs)) m"
proof -
  let ?body = "\<lambda>c m. if cl_fd (the (srv_clients s c)) \<noteq> cl_fd cl0
      then cat_peer m (the (srv_clients s c)) k else Some m"
  have "mfold (\<lambda>i msg. do {
           item \<leftarrow> list_item_at (srv_list s) (int i);
           c \<leftarrow> item;
           cl \<leftarrow> srv_clients s c;
           if cl_fd cl = cl_fd cl0 then Some msg else cat_peer msg cl k
         }) [0..<length cs] m = mfold (\<lambda>i. ?body (cs ! i)) [0..<length cs] m"
  proof (rule mfold_cong)
    fix i m
    assume "i \<in> set [0..<length cs]"
    then have i: "i < length cs" by simp
    with valid obtain cl where "srv_clients s (cs ! i) = Some cl"
      by (meson nth_mem valid_clientE)
    with i show "do {
           item \<leftarrow> list_item_at (srv_list s) (int i);
           c \<leftarrow> item;
           cl \<leftarrow> srv_clients s c;
           if cl_fd cl = cl_fd cl0 then Some m else cat_peer m cl k
         } = ?body (cs ! i) m"
      by (simp add: lst.item_at [OF rep] cs)
  qed
  also have "\<dots> = mfold ?body (map ((!) cs) [0..<length cs]) m"
    by (simp only: mfold_map)
  also have "\<dots> = mfold (\<lambda>cl m. cat_peer m cl k) (map (\<lambda>c. the (srv_clients s c)) (others s (cl_fd cl0) cs)) m"
    by (simp add: map_nth mfold_map others_def mfold_filter)
  finally show ?thesis .
qed

lemma client_peers_static_result:
  assumes rep: "lrep (srv_list s) xs" and cs: "cs = map fst xs"
    and valid: "\<forall>c \<in> set cs. valid_client s c \<and> length (entry s c) \<le> k"
    and mem: "0 < k" "k \<le> length (env_mem E k)"
    and es: "es = map (entry s) (others s (cl_fd cl0) cs)"
  shows "if length cs = 1 then client_peers_static E s cl0 k = Some None
    else if line_len es < length (env_mem E k)
    then \<exists>b. client_peers_static E s cl0 k = Some (Some b) \<and> cstr b = Some (join (CHR '' '') es)
    else client_peers_static E s cl0 k = None"
proof -
  obtain m where m: "zero_bytes (env_mem E k) k = Some m" "cstr m = Some []"
    "length m = length (env_mem E k)"
    using zero_bytes_buffer [OF mem] by blast
  let ?cls = "map (\<lambda>c. the (srv_clients s c)) (others s (cl_fd cl0) cs)"
  have size: "list_size (srv_list s) = int (length cs)"
    using lst.len [OF rep] cs by simp
  have loop: "length cs \<noteq> 1 \<Longrightarrow> client_peers_static E s cl0 k =
      map_option Some (mfold (\<lambda>cl m. cat_peer m cl k) ?cls m \<bind> trim_last)"
    using static_loop [OF rep cs, of cl0 k m] valid
    by (cases "mfold (\<lambda>cl m. cat_peer m cl k) ?cls m")
      (auto simp: client_peers_static_def m size Let_def map_option_case split: option.splits)
  have rel: "list_all2 (\<lambda>cl e. peer_entry cl = Some e \<and> length e \<le> k) ?cls es"
    unfolding es using valid by (intro entries_rel) (auto simp: others_def)
  show ?thesis
  proof (cases "length cs = 1")
    case True
    then show ?thesis by (simp add: client_peers_static_def m size)
  next
    case False
    have "0 < length m" using mem m(3) by linarith
    from cat_trim [OF m(2) this rel] False show ?thesis
      unfolding loop [OF False] m(3) by (auto split: if_splits)
  qed
qed

text \<open>Whether a PEERS line fits: the block \<open>malloc\<close> returned, and the local message buffer.\<close>

definition line_fits :: "env \<Rightarrow> string list \<Rightarrow> bool" where
  "line_fits E es \<longleftrightarrow> line_len es < length (env_mem E (SERVER_MAX_MESSAGE - 2 - 6)) \<and>
     6 + length (join (CHR '' '') es) < SERVER_MAX_MESSAGE"

definition send_line :: "server \<Rightarrow> nat \<Rightarrow> string list \<Rightarrow> server" where
  "send_line s c es =
     s\<lparr>srv_sent := srv_sent s @ [(cl_fd (the (srv_clients s c)), ''PEERS '' @ join (CHR '' '') es)]\<rparr>"

text \<open>Whatever the local buffer holds at first.\<close>

lemma message_head:
  obtains m0 m where "put_byte (map f [0..<SERVER_MAX_MESSAGE]) 0 NUL = Some m0"
    and "strncat m0 ''PEERS '' SERVER_MAX_MESSAGE = Some m" and "cstr m = Some ''PEERS ''" and "length m = SERVER_MAX_MESSAGE"
proof -
  have pos: "0 < SERVER_MAX_MESSAGE" by (simp add: SERVER_MAX_MESSAGE_def)
  define m0 where "m0 = (map f [0..<SERVER_MAX_MESSAGE])[0 := NUL]"
  have "put_byte (map f [0..<SERVER_MAX_MESSAGE]) 0 NUL = Some m0" using pos by (simp add: put_byte_def m0_def)
  moreover have len: "length m0 = SERVER_MAX_MESSAGE" by (simp add: m0_def)
  have "cstr m0 = Some []" using cstr_append [of "[]" "tl m0"] pos by (simp add: m0_def upt_conv_Cons)
  from strncat_step [OF this, of "''PEERS ''" SERVER_MAX_MESSAGE] len obtain m where
    "strncat m0 ''PEERS '' SERVER_MAX_MESSAGE = Some m" "cstr m = Some ''PEERS ''" "length m = SERVER_MAX_MESSAGE"
    by (auto simp: SERVER_MAX_MESSAGE_def)
  ultimately show ?thesis by (rule that)
qed

lemma message_tail:
  assumes "srv_clients s c = Some cl" and "cstr m1 = Some ''PEERS ''"
    and "length m1 = SERVER_MAX_MESSAGE" and "NUL \<notin> set j"
  shows "strncat m1 j SERVER_MAX_MESSAGE \<bind>
      (\<lambda>msg2. cstr msg2 \<bind> (\<lambda>m. Some (snd (server_send_message E s (cl_fd cl) m)))) =
    (if 6 + length j < SERVER_MAX_MESSAGE
     then Some (s\<lparr>srv_sent := srv_sent s @ [(cl_fd cl, ''PEERS '' @ j)]\<rparr>) else None)"
proof (cases "6 + length j < SERVER_MAX_MESSAGE")
  case True
  with strncat_step [OF assms(2,4), of SERVER_MAX_MESSAGE] assms show ?thesis
    by (auto simp: server_send_message_def)
next
  case False
  have "length m1 \<le> length ''PEERS '' + length (take SERVER_MAX_MESSAGE j)"
    using False assms(3) by (auto simp: SERVER_MAX_MESSAGE_def)
  then have "strncat m1 j SERVER_MAX_MESSAGE = None"
    by (simp only: strncat_None_iff [OF assms(2)])
  with False show ?thesis by simp
qed

text \<open>
  What a client is sent: nothing when it is alone, its peers otherwise; a fault when the line
  does not fit. \<open>as\<close> is what the graph lists for the client.
\<close>

lemma client_send_peers_result:
  assumes rep: "lrep (srv_list s) xs" and cs: "cs = map fst xs"
    and c: "valid_client s c"
    and valid: "\<forall>c \<in> set cs. valid_client s c \<and> length (entry s c) \<le> SERVER_MAX_MESSAGE - 2 - 6"
    and mem: "mem_ok E"
    and g: "gnodes g t = Some n" "numConnections n = int (length (connections n))"
      "\<forall>a \<in> set (connections n). gnodes g a \<noteq> None \<and> client_of g a \<in> set cs"
    and es: "es = map (entry s) (if length cs < 5 then others s (cl_fd (the (srv_clients s c))) cs
      else map (client_of g) (connections n))"
  shows "client_send_peers E s c g t =
    (if length cs = 1 then Some s else if line_fits E es then Some (send_line s c es) else None)"
proof -
  let ?k = "SERVER_MAX_MESSAGE - 2 - 6"
  from c obtain cl where cl: "srv_clients s c = Some cl" by (rule valid_clientE)
  obtain m0 m1 where m0: "put_byte (map (env_stack E) [0..<SERVER_MAX_MESSAGE]) 0 NUL = Some m0"
    and m1: "strncat m0 ''PEERS '' SERVER_MAX_MESSAGE = Some m1" "cstr m1 = Some ''PEERS ''" "length m1 = SERVER_MAX_MESSAGE"
    by (rule message_head)
  have size: "list_size (srv_list s) = int (length cs)"
    using lst.len [OF rep] cs by simp
  have k: "0 < ?k" "?k \<le> length (env_mem E ?k)"
    using mem by (auto simp: SERVER_MAX_MESSAGE_def mem_ok_def)
  show ?thesis
  proof (cases "length cs < 5")
    case True
    then have "es = map (entry s) (others s (cl_fd cl) cs)" by (simp add: es cl)
    from client_peers_static_result [OF rep cs valid k this] True show ?thesis
      by (auto simp: client_send_peers_def cl m0 m1 size PEER_POOL_SIZE_def line_fits_def send_line_def
          message_tail [OF cl m1(2,3) cstr_no_NUL] split: if_splits)
  next
    case False
    then have e: "es = map (\<lambda>a. entry s (client_of g a)) (connections n)" by (simp add: es comp_def)
    have "\<forall>a \<in> set (connections n). gnodes g a \<noteq> None \<and> valid_client s (client_of g a) \<and>
        length (entry s (client_of g a)) \<le> ?k"
      using g(3) valid by blast
    from client_peers_rand_result [OF g(1,2) this k e] False show ?thesis
      by (auto simp: client_send_peers_def cl m0 m1 size PEER_POOL_SIZE_def line_fits_def send_line_def
          message_tail [OF cl m1(2,3) cstr_no_NUL] split: if_splits)
  qed
qed

end
