(* ===== verification/PeerGraph.thy ===== *)
theory PeerGraph
  imports PeerLine
begin

text \<open>
  How the name server assigns peers (\<open>manage_graph\<close> of \<open>ac-name-server/name_server.c\<close>): one graph
  node per connected client, a shuffle of the nodes, \<open>combineNodesToGraph\<close>, and for each client in
  the list a breadth-first search for its node, whose neighbours are then sent to it.

  The lemmas show that the shuffle is a permutation that moves every element, that the search
  returns a node of the wanted client whenever one is reachable, and what \<open>manage_graph\<close> sends.
\<close>

section \<open>The graph of peers\<close>

text \<open>The array of nodes, one per list element; \<open>here\<close> walks the list.\<close>

fun make_nodes :: "nat gheap \<Rightarrow> (nat \<rightharpoonup> nat list_elm) \<Rightarrow> ptr \<Rightarrow> nat \<Rightarrow> (nat list \<times> nat gheap) option"
where
  "make_nodes g h here 0 = Some ([], g)"
| "make_nodes g h here (Suc n) =
     (case deref h here of
        None \<Rightarrow> None
      | Some e \<Rightarrow>
          (let (a, g1) = createNode g (elm_val e) in
           map_option (\<lambda>(as, g2). (a # as, g2)) (make_nodes g1 h (elm_next e) n)))"

definition exchange :: "nat \<Rightarrow> nat \<Rightarrow> 'a list \<Rightarrow> 'a list" where
  "exchange num counter arr =
     (let temp = arr ! num in (arr[num := arr ! counter])[counter := temp])"

text \<open>The loop \<open>for (counter = size - 1; counter > 0; counter--)\<close>, from the given counter.\<close>

fun shuffle_from :: "(nat \<Rightarrow> nat) \<Rightarrow> nat \<Rightarrow> 'a list \<Rightarrow> 'a list" where
  "shuffle_from rnd 0 xs = xs"
| "shuffle_from rnd (Suc c) xs =
     shuffle_from (\<lambda>k. rnd (Suc k)) c (exchange (rnd 0 mod Suc c) (Suc c) xs)"

definition shuffle :: "(nat \<Rightarrow> nat) \<Rightarrow> 'a list \<Rightarrow> 'a list" where
  "shuffle rnd xs = shuffle_from rnd (length xs - 1) xs"

text \<open>The edges of a dequeued node: unseen neighbours go to the queue and to the seen set.\<close>

definition bfs_edge :: "nat \<Rightarrow> nat clist \<times> nat clist \<Rightarrow> (nat clist \<times> nat clist) option" where
  "bfs_edge x qs = (case qs of (queue, sight) \<Rightarrow> do {
     seen \<leftarrow> list_contains sight x;
     if seen \<noteq> 0 then Some (queue, sight)
     else do {
       (r, queue') \<leftarrow> list_add queue x;
       (r', sight') \<leftarrow> list_add sight x;
       Some (queue', sight')
     }
   })"

partial_function (option) bfs ::
  "nat gheap \<Rightarrow> nat \<Rightarrow> nat clist \<Rightarrow> nat clist \<Rightarrow> nat option \<Rightarrow> nat option" where
  "bfs g v queue sight target =
     (if lst_size queue > 0
      then do {
        item \<leftarrow> list_item_at queue 0;
        t \<leftarrow> item;
        (r, queue1) \<leftarrow> list_remove queue t;
        n \<leftarrow> gnodes g t;
        if node_data n = v then Some t
        else do {
          (queue2, sight2) \<leftarrow> mfold (\<lambda>j qs. do {
              x \<leftarrow> arr_get (connections n) j;
              bfs_edge x qs
            }) [0..<nat (numConnections n)] (queue1, sight);
          bfs g v queue2 sight2 (Some t)
        }
      }
      else target)"

definition find_target :: "env \<Rightarrow> nat gheap \<Rightarrow> nat \<Rightarrow> nat \<Rightarrow> nat option" where
  "find_target E g graph v = do {
     (r, queue) \<leftarrow> list_add (list_create (env_blocks E)) graph;
     (r', sight) \<leftarrow> list_add (list_create (env_blocks E)) graph;
     bfs g v queue sight None
   }"

partial_function (option) send_all ::
  "env \<Rightarrow> nat gheap \<Rightarrow> nat \<Rightarrow> ptr \<Rightarrow> server \<Rightarrow> server option" where
  "send_all E g graph here s =
     (case here of
        Null \<Rightarrow> Some s
      | Ref a \<Rightarrow> do {
          e \<leftarrow> elms (srv_list s) a;
          target \<leftarrow> find_target E g graph (elm_val e);
          s' \<leftarrow> client_send_peers E s (elm_val e) g target;
          e' \<leftarrow> elms (srv_list s') a;
          send_all E g graph (elm_next e') s'
        })"

definition manage_graph :: "env \<Rightarrow> server \<Rightarrow> server option" where
  "manage_graph E s = do {
     let l = srv_list s;
     (nodes, g) \<leftarrow> make_nodes empty_gheap (elms l) (lst_head l) (nat (list_size l));
     let randArray = shuffle (env_rand E) nodes;
     (graph, g') \<leftarrow> combineNodesToGraph g randArray 4 (lst_size l);
     send_all E g' graph (lst_head l) s
   }"

section \<open>The shuffle\<close>

lemma exchange_length [simp]: "length (exchange num counter arr) = length arr"
  by (simp add: exchange_def)

lemma exchange_nth:
  assumes "num < length arr" and "counter < length arr"
  shows "exchange num counter arr ! k =
    (if k = num then arr ! counter else if k = counter then arr ! num else arr ! k)"
  using assms by (auto simp: exchange_def nth_list_update)

lemma exchange_mset:
  assumes "num < length arr" and "counter < length arr"
  shows "mset (exchange num counter arr) = mset arr"
  using mset_swap [OF assms(2,1)] by (simp add: exchange_def Let_def list_update_swap)

lemma shuffle_from_mset: "c < length xs \<Longrightarrow> mset (shuffle_from rnd c xs) = mset xs"
proof (induction rnd c xs rule: shuffle_from.induct)
  case (2 rnd c xs)
  then have "rnd 0 mod Suc c < length xs"
    by (meson less_trans mod_less_divisor zero_less_Suc Suc_lessD)
  with 2 show ?case by (simp add: exchange_mset)
qed simp

lemma shuffle_mset: "mset (shuffle rnd xs) = mset xs"
  by (cases xs) (simp_all add: shuffle_def shuffle_from_mset)

lemma length_shuffle [simp]: "length (shuffle rnd xs) = length xs"
  using shuffle_mset [of rnd xs] by (metis size_mset)

text \<open>Positions above the counter are final.\<close>

lemma shuffle_from_above:
  "c < length xs \<Longrightarrow> c < k \<Longrightarrow> shuffle_from rnd c xs ! k = xs ! k"
proof (induction rnd c xs rule: shuffle_from.induct)
  case (2 rnd c xs)
  have "rnd 0 mod Suc c < Suc c" by simp
  with "2.prems" "2.IH" show ?case by (auto simp: exchange_nth)
qed simp

text \<open>
  While the counter is at \<open>c\<close>, each position up to \<open>c\<close> holds its own element or one from above
  \<open>c\<close>; so the element that position \<open>c\<close> finally gets is not its own.
\<close>

lemma shuffle_from_deranges:
  assumes "0 < c" and "c < length xs" and "distinct ys" and "length ys = length xs"
    and "\<And>p. p \<le> c \<Longrightarrow> \<exists>q. (q = p \<or> c < q) \<and> q < length ys \<and> xs ! p = ys ! q"
    and "k \<le> c"
  shows "shuffle_from rnd c xs ! k \<noteq> ys ! k"
  using assms
proof (induction c arbitrary: rnd xs k)
  case 0
  then show ?case by simp
next
  case (Suc c)
  let ?i = "rnd 0 mod Suc c" and ?xs = "exchange (rnd 0 mod Suc c) (Suc c) xs"
  have i: "?i \<le> c" by (simp add: less_Suc_eq_le [symmetric])
  with Suc.prems(2) have "?i < length xs" by linarith
  with Suc.prems(2) have nth: "?xs ! p = (if p = ?i then xs ! Suc c else if p = Suc c then xs ! ?i else xs ! p)"
    for p by (intro exchange_nth) auto
  have own: "\<exists>q. (q = p \<or> c < q) \<and> (p = ?i \<longrightarrow> c < q) \<and> q < length ys \<and> ?xs ! p = ys ! q"
    if "p \<le> c" for p
  proof (cases "p = ?i")
    case True
    from Suc.prems(5) [of "Suc c"] obtain q where
      "q = Suc c \<or> Suc c < q" "q < length ys" "xs ! Suc c = ys ! q" by blast
    with True show ?thesis by (intro exI [of _ q]) (auto simp: nth)
  next
    case False
    from Suc.prems(5) [of p] that obtain q where
      "q = p \<or> Suc c < q" "q < length ys" "xs ! p = ys ! q" by auto
    with False that show ?thesis by (intro exI [of _ q]) (auto simp: nth)
  qed
  have eq: "shuffle_from rnd (Suc c) xs = shuffle_from (\<lambda>k. rnd (Suc k)) c ?xs" by simp
  consider "k = Suc c" | "k \<le> c" "0 < c" | "k = 0" "c = 0" using Suc.prems(6) by fastforce
  then show ?case
  proof cases
    case 1
    with Suc.prems(2) have "shuffle_from rnd (Suc c) xs ! k = xs ! ?i"
      using i by (simp add: shuffle_from_above nth)
    moreover from Suc.prems(5) [of ?i] i obtain q where
      q: "q = ?i \<or> Suc c < q" "q < length ys" "xs ! ?i = ys ! q" by auto
    moreover from q(1) i have "q \<noteq> Suc c" by linarith
    ultimately show ?thesis
      using 1 Suc.prems(2-4) by (simp add: nth_eq_iff_index_eq)
  next
    case 2
    show ?thesis unfolding eq
      by (rule Suc.IH) (use 2 Suc.prems own in auto)
  next
    case 3
    from own [of 0] 3 obtain q where "0 < q" "q < length ys" "?xs ! 0 = ys ! q" by auto
    with 3 Suc.prems(2-4) nth_eq_iff_index_eq [of ys q 0] show ?thesis by (cases xs) auto
  qed
qed

lemma shuffle_deranged:
  assumes "distinct xs" and "1 < length xs" and "k < length xs"
  shows "shuffle rnd xs ! k \<noteq> xs ! k"
  unfolding shuffle_def
  by (rule shuffle_from_deranges) (use assms in \<open>auto intro: exI [where x = p for p]\<close>)

section \<open>The breadth-first search\<close>

definition reach :: "'d gheap \<Rightarrow> nat \<Rightarrow> nat \<Rightarrow> bool" where
  "reach g = (adj g)\<^sup>*\<^sup>*"

lemma reach_closed:
  assumes "reach g a b" and "a \<in> S" and "\<And>x. x \<in> S \<Longrightarrow> set (conns g x) \<subseteq> S"
  shows "b \<in> S"
  using assms(1) unfolding reach_def
  by (induction rule: rtranclp_induct) (use assms(2,3) in \<open>auto simp: adj_def\<close>)

lemma bfs_edges:
  "lrep q qx \<Longrightarrow> lrep st sx \<Longrightarrow>
   \<exists>q' st' new. mfold bfs_edge es (q, st) = Some (q', st') \<and>
     lrep q' (qx @ new) \<and> lrep st' (sx @ new) \<and>
     fst ` set new = set es - fst ` set sx \<and> distinct (map fst new)"
proof (induction es arbitrary: q st qx sx)
  case Nil
  then show ?case by (auto intro!: exI [where x = "[]"])
next
  case (Cons e es)
  show ?case
  proof (cases "e \<in> fst ` set sx")
    case True
    with Cons.prems have "bfs_edge e (q, st) = Some (q, st)"
      by (simp add: bfs_edge_def lst.contains)
    with Cons.IH [OF Cons.prems] True show ?thesis by auto
  next
    case False
    from lst.add [OF Cons.prems(1), of e] lst.add [OF Cons.prems(2), of e] obtain q1 st1 where
      1: "list_add q e = Some (1, q1)" "lrep q1 (qx @ [(e, True)])"
         "list_add st e = Some (1, st1)" "lrep st1 (sx @ [(e, True)])" by blast
    with Cons.prems False have "bfs_edge e (q, st) = Some (q1, st1)"
      by (simp add: bfs_edge_def lst.contains)
    moreover from Cons.IH [OF 1(2,4)] obtain q' st' new where
      "mfold bfs_edge es (q1, st1) = Some (q', st')" "lrep q' (qx @ (e, True) # new)"
      "lrep st' (sx @ (e, True) # new)" "fst ` set new = set es - insert e (fst ` set sx)"
      "distinct (map fst new)" by auto
    ultimately show ?thesis
      using False by (intro exI [of _ q'] exI [of _ st'] exI [of _ "(e, True) # new"]) auto
  qed
qed

definition bfs_inv :: "nat gheap \<Rightarrow> nat \<Rightarrow> nat \<Rightarrow> nat list \<Rightarrow> nat set \<Rightarrow> bool" where
  "bfs_inv g v root Q S \<longleftrightarrow> root \<in> S \<and> set Q \<subseteq> S \<and> distinct Q \<and> (\<forall>a \<in> S. gnodes g a \<noteq> None) \<and>
     (\<forall>a \<in> S - set Q. client_of g a \<noteq> v \<and> set (conns g a) \<subseteq> S)"

lemma graph_ok_finite: "graph_ok g \<Longrightarrow> finite {a. gnodes g a \<noteq> None}"
  by (rule finite_subset [of _ "{..<gbrk g}"]) (auto simp: graph_ok_def)

lemma graph_ok_node:
  assumes "graph_ok g" and "gnodes g a \<noteq> None"
  obtains n where "gnodes g a = Some n" and "connections n = conns g a"
    and "numConnections n = int (length (connections n))" and "node_data n = client_of g a"
    and "\<forall>b \<in> set (conns g a). gnodes g b \<noteq> None"
  using assms by (auto simp: graph_ok_def conns_def client_of_def)

lemma bfs_inv_queue:
  assumes "bfs_inv g v root Q S" and "reach g root x" and "client_of g x = v"
  shows "Q \<noteq> []"
proof
  assume "Q = []"
  with assms(1) have "root \<in> S" "\<forall>a \<in> S. client_of g a \<noteq> v \<and> set (conns g a) \<subseteq> S"
    by (auto simp: bfs_inv_def)
  with reach_closed [OF assms(2), of S] assms(3) show False by blast
qed

lemma bfs_inv_step:
  assumes "bfs_inv g v root (t # Q) S" and "client_of g t \<noteq> v" and "set N = set (conns g t) - S" and "distinct N"
    and "\<forall>b \<in> set (conns g t). gnodes g b \<noteq> None"
  shows "bfs_inv g v root (Q @ N) (S \<union> set N)"
proof -
  note inv = assms(1) [unfolded bfs_inv_def]
  have "client_of g a \<noteq> v \<and> set (conns g a) \<subseteq> S \<union> set N" if "a \<in> S \<union> set N - set (Q @ N)" for a
  proof -
    from that have "a = t \<or> a \<in> S - set (t # Q)" by auto
    with inv assms(2,3) show ?thesis by blast
  qed
  with inv assms(3-5) show ?thesis unfolding bfs_inv_def by auto
qed

lemma bfs_fewer:
  assumes "finite A" and "set N \<subseteq> A - S" and "distinct N"
  shows "card (A - (S \<union> set N)) + length N = card (A - S)"
proof -
  have fin: "finite (A - S)" using assms(1) by simp
  have "A - (S \<union> set N) = A - S - set N" by blast
  moreover have "card (A - S - set N) = card (A - S) - length N"
    using card_Diff_subset [OF _ assms(2)] assms(3) by (simp add: distinct_card)
  moreover have "length N \<le> card (A - S)" using card_mono [OF fin assms(2)] assms(3) by (simp add: distinct_card)
  ultimately show ?thesis by simp
qed

lemma bfs_finds:
  assumes ok: "graph_ok g" and target: "reach g root x" "client_of g x = v"
  shows "lrep queue qx \<Longrightarrow> lrep sight sx \<Longrightarrow> bfs_inv g v root (map fst qx) (fst ` set sx) \<Longrightarrow>
    card ({a. gnodes g a \<noteq> None} - fst ` set sx) + length qx = k \<Longrightarrow>
    \<exists>t. bfs g v queue sight tgt = Some t \<and> gnodes g t \<noteq> None \<and> client_of g t = v"
proof (induction k arbitrary: queue qx sight sx tgt)
  case 0
  then have "qx = []" by simp
  with bfs_inv_queue [OF 0(3) target] show ?case by simp
next
  case (Suc k)
  note inv = Suc.prems(3) [unfolded bfs_inv_def]
  let ?N = "{a. gnodes g a \<noteq> None}" and ?S = "fst ` set sx"
  show ?case
  proof (cases qx)
    case Nil
    with bfs_inv_queue [OF Suc.prems(3) target] show ?thesis by simp
  next
    case (Cons p qs)
    obtain t f where p: "p = (t, f)" by (cases p)
    from lst.dequeue [of queue t f qs] Suc.prems(1) Cons p obtain q1 where
      q1: "list_item_at queue 0 = Some (Some t)" "list_remove queue t = Some (Some t, q1)" "lrep q1 qs"
      by auto
    have size: "0 < lst_size queue"
      using lst.len [OF Suc.prems(1)] Cons by (simp add: list_size_def)
    from inv Cons p have t: "t \<in> ?S" "gnodes g t \<noteq> None" by auto
    from ok t(2) obtain n where n: "gnodes g t = Some n" "connections n = conns g t"
      "numConnections n = int (length (connections n))" "node_data n = client_of g t"
      "\<forall>b \<in> set (conns g t). gnodes g b \<noteq> None" by (rule graph_ok_node)
    show ?thesis
    proof (cases "client_of g t = v")
      case True
      then show ?thesis using size q1 n by (subst bfs.simps) simp
    next
      case False
      from bfs_edges [OF q1(3) Suc.prems(2), of "conns g t"] obtain q2 s2 new where
        2: "mfold bfs_edge (conns g t) (q1, sight) = Some (q2, s2)" "lrep q2 (qs @ new)"
           "lrep s2 (sx @ new)" and new: "fst ` set new = set (conns g t) - ?S" "distinct (map fst new)"
        by blast
      have step: "bfs g v queue sight tgt = bfs g v q2 s2 (Some t)"
        using size q1 n 2 False by (subst bfs.simps) (simp add: mfold_index)
      have S': "fst ` set (sx @ new) = ?S \<union> set (map fst new)" by auto
      have "set (map fst new) \<subseteq> ?N - ?S" using new(1) n(5) by auto
      from bfs_fewer [OF graph_ok_finite [OF ok] this new(2)]
      have card: "card (?N - fst ` set (sx @ new)) + length (qs @ new) = k"
        unfolding S' using Suc.prems(4) Cons by simp
      have "bfs_inv g v root (map fst (qs @ new)) (fst ` set (sx @ new))"
        unfolding S' map_append using Suc.prems(3) Cons p new n(5) False by (intro bfs_inv_step [where t = t]) auto
      from Suc.IH [OF 2(2,3) this card] step show ?thesis by simp
    qed
  qed
qed

lemma find_target_finds:
  assumes "mem_ok E" and ok: "graph_ok g" and root: "gnodes g root \<noteq> None"
    and target: "reach g root x" "client_of g x = v"
  shows "\<exists>t. find_target E g root v = Some t \<and> gnodes g t \<noteq> None \<and> client_of g t = v"
proof -
  from assms(1) have "lrep (list_create (env_blocks E)) []"
    by (intro lst.create) (simp add: mem_ok_def)
  from lst.add [OF this, of root] obtain q where
    q: "list_add (list_create (env_blocks E)) root = Some (1, q)" "lrep q [(root, True)]" by auto
  have "bfs_inv g v root (map fst [(root, True)]) (fst ` set [(root, True)])"
    using root by (auto simp: bfs_inv_def)
  from bfs_finds [OF ok target q(2,2) this refl] q(1) show ?thesis
    by (auto simp: find_target_def)
qed

section \<open>The graph of the connected clients\<close>

lemma make_nodes_seg:
  "lseg h k q p as xs q' p' \<Longrightarrow> make_nodes g h p (length xs) = Some (create_nodes g (map fst xs))"
proof (induction h k q p as xs q' p' arbitrary: g rule: lseg.induct)
  case (2 h k q p a as v f xs q' p')
  then obtain e where e: "p = Ref a" "h a = Some e" "elm_val e = v"
    "lseg h k (Ref a) (elm_next e) as xs q' p'" by auto
  obtain b g1 where "createNode g v = (b, g1)" by (cases "createNode g v")
  with e "2.IH" [OF e(4), of g1] show ?case by (auto split: prod.splits)
qed auto

definition server_ok :: "server \<Rightarrow> nat list \<Rightarrow> bool" where
  "server_ok s cs \<longleftrightarrow> (\<exists>xs. lrep (srv_list s) xs \<and> map fst xs = cs) \<and> distinct cs \<and>
     (\<forall>c \<in> set cs. valid_client s c \<and> length (entry s c) \<le> SERVER_MAX_MESSAGE - 2 - 6)"

text \<open>The store and the head after \<open>combineNodesToGraph\<close> on the shuffled nodes of \<open>cs\<close>.\<close>

definition client_graph :: "nat list \<Rightarrow> nat list \<Rightarrow> nat \<Rightarrow> nat gheap \<Rightarrow> bool" where
  "client_graph cs grp graph g \<longleftrightarrow> distinct grp \<and> set grp = {..<length cs} \<and> graph = last grp \<and>
     graph_ok g \<and> (\<forall>a. gnodes g a \<noteq> None \<longleftrightarrow> a < length cs) \<and>
     (\<forall>a < length cs. client_of g a = cs ! a) \<and>
     (\<forall>a < length cs. \<forall>b < length cs. a \<noteq> b \<longrightarrow> adj g a b) \<and>
     (5 \<le> length cs \<longrightarrow> (\<forall>a < length cs. mset (conns g a) = mset (remove1 a grp) + mset (remove1 a grp)))"

lemma fresh_nodes_client: "fresh_nodes g cs \<Longrightarrow> a < length cs \<Longrightarrow> client_of g a = cs ! a"
  by (simp add: fresh_nodes_def client_of_def)

lemma same_nodes_client: "same_nodes g g' \<Longrightarrow> gnodes g a \<noteq> None \<Longrightarrow> client_of g' a = client_of g a"
  using same_nodes_data [of g g' a] same_nodes_None [of g g' a] by (auto simp: client_of_def)

lemma combine_graph:
  assumes fresh: "fresh_nodes g cs" and "cs \<noteq> []" and grp: "mset grp = mset [0..<length cs]"
  shows "\<exists>g'. combineNodesToGraph g grp 4 (int (length cs)) = Some (last grp, g') \<and>
    client_graph cs grp (last grp) g'"
proof -
  have d: "distinct grp" using grp by (metis distinct_upt mset_eq_imp_distinct_iff)
  have s: "set grp = {..<length cs}" using mset_eq_setD [OF grp] by (simp add: atLeast0LessThan)
  have len: "length grp = length cs" using mset_eq_length [OF grp] by simp
  have dom: "\<forall>a \<in> set grp. gnodes g a \<noteq> None"
    using s fresh_nodes_dom [OF fresh] by blast
  from assms(2) len have ne: "grp \<noteq> []" by auto
  let ?ps = "map (at_idx grp) (combine_idx (length grp) 4)"
  obtain g' where g': "combineNodesToGraph g grp 4 (int (length grp)) = Some (last grp, g')"
    "graph_ok g'" "same_nodes g g'" and
    e: "\<And>a b. a \<noteq> b \<Longrightarrow> edges g' a b = edges g a b + count_list ?ps (a, b) + count_list ?ps (b, a)"
    by (rule combine_result [OF fresh_nodes_ok [OF fresh] ne dom]) blast
  have "client_graph cs grp (last grp) g'"
    unfolding client_graph_def
  proof (intro conjI allI impI)
    fix a
    show "(gnodes g' a \<noteq> None) = (a < length cs)"
      using same_nodes_None [OF g'(3), of a] fresh_nodes_dom [OF fresh, of a] by simp
    assume a: "a < length cs"
    show "client_of g' a = cs ! a"
      using a same_nodes_client [OF g'(3), of a] fresh_nodes_dom [OF fresh, of a]
        fresh_nodes_client [OF fresh, of a] by metis
    fix b
    assume "b < length cs" "a \<noteq> b"
    then show "adj g' a b"
      using a s combine_pairs_count [of a grp b 4] by (simp add: adj_edges e)
  next
    fix a
    assume "5 \<le> length cs" "a < length cs"
    then show "mset (conns g' a) = mset (remove1 a grp) + mset (remove1 a grp)"
      using s d e fresh_nodes_conns [OF fresh] g'(2) len
      by (intro mesh_conns [where g = g]) (auto simp: combine_idx_def)
  qed (use d s g' in auto)
  with g'(1) len show ?thesis by auto
qed

lemma client_graph_target:
  assumes cg: "client_graph cs grp graph g" and mem: "mem_ok E" and dist: "distinct cs" and "i < length cs"
  shows "find_target E g graph (cs ! i) = Some i"
proof -
  have "cs \<noteq> []" using assms(4) by auto
  with cg have "grp \<noteq> []" by (auto simp: client_graph_def)
  with cg have root: "graph < length cs" using last_in_set [of grp] by (auto simp: client_graph_def)
  have "reach g graph i"
  proof (cases "graph = i")
    case True
    then show ?thesis by (simp add: reach_def)
  next
    case False
    with cg root assms(4) have "adj g graph i" by (auto simp: client_graph_def)
    then show ?thesis by (simp add: reach_def)
  qed
  moreover have "graph_ok g" "gnodes g graph \<noteq> None" "client_of g i = cs ! i"
    using cg root assms(4) by (auto simp: client_graph_def)
  ultimately obtain t where t: "find_target E g graph (cs ! i) = Some t" "gnodes g t \<noteq> None"
    "client_of g t = cs ! i"
    using find_target_finds [OF mem] by blast
  with cg have "t < length cs" "cs ! t = cs ! i" by (auto simp: client_graph_def)
  with t(1) dist assms(4) show ?thesis by (simp add: nth_eq_iff_index_eq)
qed

text \<open>The clients the graph lists for the client at position \<open>i\<close>: every other client twice.\<close>

lemma client_graph_peers:
  assumes cg: "client_graph cs grp graph g" and dist: "distinct cs" and i: "i < length cs"
  shows "set (map (client_of g) (conns g i)) \<subseteq> set cs"
    and "5 \<le> length cs \<Longrightarrow> mset (map (client_of g) (conns g i)) =
      mset (remove1 (cs ! i) cs) + mset (remove1 (cs ! i) cs)"
proof -
  have "graph_ok g" "gnodes g i \<noteq> None" using cg i by (auto simp: client_graph_def)
  then obtain n where "\<forall>b \<in> set (conns g i). gnodes g b \<noteq> None" by (rule graph_ok_node)
  with cg have b: "b < length cs \<and> client_of g b = cs ! b" if "b \<in> set (conns g i)" for b
    using that by (auto simp: client_graph_def)
  then show "set (map (client_of g) (conns g i)) \<subseteq> set cs" by auto
  assume "5 \<le> length cs"
  with cg i have m: "mset (conns g i) = mset (remove1 i grp) + mset (remove1 i grp)"
    by (auto simp: client_graph_def)
  have "mset (map (client_of g) (conns g i)) = image_mset ((!) cs) (mset (conns g i))"
    using b by (auto intro: image_mset_cong)
  also have "\<dots> = image_mset ((!) cs) (mset grp - {#i#}) + image_mset ((!) cs) (mset grp - {#i#})"
    by (simp add: m)
  also have "mset grp = mset [0..<length cs]"
  proof -
    have "set grp = set [0..<length cs]" "distinct grp"
      using cg by (simp_all add: client_graph_def atLeast0LessThan)
    then show ?thesis using set_eq_iff_mset_eq_distinct [of grp "[0..<length cs]"] by simp
  qed
  also have "image_mset ((!) cs) (mset [0..<length cs] - {#i#}) = mset cs - {#cs ! i#}"
  proof -
    have "image_mset ((!) cs) (mset [0..<length cs] - {#i#}) =
        image_mset ((!) cs) (mset [0..<length cs]) - image_mset ((!) cs) {#i#}"
      using i by (intro image_mset_Diff) (simp add: mset_subset_eq_single)
    also have "\<dots> = mset (map ((!) cs) [0..<length cs]) - {#cs ! i#}" by simp
    finally show ?thesis by (simp only: map_nth)
  qed
  finally show "mset (map (client_of g) (conns g i)) =
      mset (remove1 (cs ! i) cs) + mset (remove1 (cs ! i) cs)" by simp
qed

section \<open>The messages of a call\<close>

definition send_lines :: "server \<Rightarrow> nat list \<Rightarrow> (nat \<Rightarrow> string list) \<Rightarrow> server" where
  "send_lines s cs ln = s\<lparr>srv_sent := srv_sent s @
     map (\<lambda>c. (cl_fd (the (srv_clients s c)), ''PEERS '' @ join (CHR '' '') (ln c))) cs\<rparr>"

lemma send_lines_Nil [simp]: "send_lines s [] ln = s"
  by (simp add: send_lines_def)

lemma send_lines_Cons [simp]: "send_lines s (c # cs) ln = send_lines (send_line s c (ln c)) cs ln"
  by (simp add: send_lines_def send_line_def)

lemma send_line_same [simp]:
  "srv_list (send_line s c es) = srv_list s" "srv_clients (send_line s c es) = srv_clients s"
  by (simp_all add: send_line_def)

lemma entry_cong: "srv_clients s' = srv_clients s \<Longrightarrow> entry s' = entry s"
  by (simp add: entry_def fun_eq_iff)

lemma send_all_seg:
  assumes "lseg (elms l) k q p as xs q' Null" and "srv_list s = l" and "srv_clients s = cl"
    and step: "\<And>c s'. c \<in> fst ` set xs \<Longrightarrow> srv_list s' = l \<Longrightarrow> srv_clients s' = cl \<Longrightarrow>
      \<exists>t. find_target E g graph c = Some t \<and>
        client_send_peers E s' c g t =
          (if quiet then Some s' else if line_fits E (ln c) then Some (send_line s' c (ln c)) else None)"
  shows "send_all E g graph p s =
    (if quiet then Some s
     else if \<forall>c \<in> fst ` set xs. line_fits E (ln c) then Some (send_lines s (map fst xs) ln) else None)"
  using assms
proof (induction "elms l" k q p as xs q' "Null" arbitrary: s rule: lseg.induct)
  case (1 k q p q')
  then show ?case by (simp add: send_all.simps)
next
  case (2 k q p a as v f xs q')
  then obtain e where e: "p = Ref a" "elms l a = Some e" "elm_val e = v"
    "lseg (elms l) k (Ref a) (elm_next e) as xs q' Null" by auto
  have v: "v \<in> fst ` set ((v, f) # xs)" by simp
  from "2.prems"(4) [OF v "2.prems"(2,3)] obtain t where t: "find_target E g graph v = Some t"
    "client_send_peers E s v g t = (if quiet then Some s
       else if line_fits E (ln v) then Some (send_line s v (ln v)) else None)" by blast
  have IH: "send_all E g graph (elm_next e) s' = (if quiet then Some s'
     else if \<forall>c \<in> fst ` set xs. line_fits E (ln c) then Some (send_lines s' (map fst xs) ln) else None)"
    if "srv_list s' = l" "srv_clients s' = cl" for s'
    by (rule "2.hyps" [OF e(4) that]) (use "2.prems"(4) in auto)
  show ?case
    using IH [of s] IH [of "send_line s v (ln v)"] "2.prems"(2,3) e t
    by (subst send_all.simps) simp
qed auto

lemma server_okE:
  assumes "server_ok s cs"
  obtains xs as t where "lrep (srv_list s) xs" and "map fst xs = cs" and "distinct cs"
    and "lseg (elms (srv_list s)) (brk (srv_list s)) Null (lst_head (srv_list s)) as xs t Null"
    and "lst_size (srv_list s) = int (length cs)"
    and "\<forall>c \<in> set cs. valid_client s c \<and> length (entry s c) \<le> SERVER_MAX_MESSAGE - 2 - 6"
proof -
  from assms obtain xs where xs: "lrep (srv_list s) xs" "map fst xs = cs" and rest: "distinct cs"
    "\<forall>c \<in> set cs. valid_client s c \<and> length (entry s c) \<le> SERVER_MAX_MESSAGE - 2 - 6"
    by (auto simp: server_ok_def)
  from xs(1) obtain as t where
    "lseg (elms (srv_list s)) (brk (srv_list s)) Null (lst_head (srv_list s)) as xs t Null"
    "lst_size (srv_list s) = int (length xs)" by (rule lrepE)
  with xs rest show ?thesis by (intro that [of xs as t]) auto
qed

text \<open>The peers that a client with node \<open>i\<close> is sent, and the line with them.\<close>

definition peers_listed :: "server \<Rightarrow> nat list \<Rightarrow> nat gheap \<Rightarrow> nat \<Rightarrow> nat \<Rightarrow> nat list" where
  "peers_listed s cs g c i = (if length cs < 5 then others s (cl_fd (the (srv_clients s c))) cs
     else map (client_of g) (conns g i))"

lemma client_line:
  assumes rep: "lrep (srv_list s) xs" and cs: "map fst xs = cs" and dist: "distinct cs"
    and valid: "\<forall>c \<in> set cs. valid_client s c \<and> length (entry s c) \<le> SERVER_MAX_MESSAGE - 2 - 6"
    and mem: "mem_ok E" and cg: "client_graph cs grp root g" and i: "i < length cs" "cs ! i = c"
    and s': "srv_list s' = srv_list s" "srv_clients s' = srv_clients s"
  shows "\<exists>t. find_target E g root c = Some t \<and> client_send_peers E s' c g t =
    (if length cs = 1 then Some s' else if line_fits E (map (entry s) (peers_listed s cs g c i))
     then Some (send_line s' c (map (entry s) (peers_listed s cs g c i))) else None)"
proof -
  have c: "c \<in> set cs" using i by auto
  have "graph_ok g" "gnodes g i \<noteq> None" using cg i by (auto simp: client_graph_def)
  then obtain n where n: "gnodes g i = Some n" "connections n = conns g i"
    "numConnections n = int (length (connections n))"
    "\<forall>b \<in> set (conns g i). gnodes g b \<noteq> None" by (rule graph_ok_node)
  have s'_eq: "entry s' = entry s" "valid_client s' = valid_client s" "others s' = others s"
    by (simp_all add: entry_def valid_client_def others_def s'(2) fun_eq_iff)
  from client_graph_target [OF cg mem dist, of i] i have "find_target E g root c = Some i" by simp
  moreover have "client_send_peers E s' c g i =
    (if length cs = 1 then Some s' else if line_fits E (map (entry s') (peers_listed s cs g c i))
     then Some (send_line s' c (map (entry s') (peers_listed s cs g c i))) else None)"
    by (rule client_send_peers_result [of _ xs])
      (use rep cs c valid mem n s' client_graph_peers(1) [OF cg dist, of i] i in
        \<open>auto simp: s'_eq peers_listed_def\<close>)
  ultimately show ?thesis by (simp add: s'_eq)
qed

text \<open>
  \<open>manage_graph\<close> sends each client, in list order, the line \<open>ln c\<close>: all clients on other sockets
  when fewer than five are connected, and otherwise what the graph lists, every other client twice.
\<close>

lemma manage_graph_lines:
  assumes ok: "server_ok s cs" and mem: "mem_ok E" and "cs \<noteq> []"
  obtains ps where
    "length cs < 5 \<longrightarrow> (\<forall>c \<in> set cs. ps c = others s (cl_fd (the (srv_clients s c))) cs)"
    "5 \<le> length cs \<longrightarrow> (\<forall>c \<in> set cs. mset (ps c) = mset (remove1 c cs) + mset (remove1 c cs))"
    "manage_graph E s =
      (if length cs = 1 then Some s
       else if \<forall>c \<in> set cs. line_fits E (map (entry s) (ps c))
       then Some (send_lines s cs (\<lambda>c. map (entry s) (ps c))) else None)"
proof -
  let ?l = "srv_list s" and ?n = "length cs"
  from ok obtain xs as t where rep: "lrep ?l xs" and cs: "map fst xs = cs" and dist: "distinct cs"
    and seg: "lseg (elms ?l) (brk ?l) Null (lst_head ?l) as xs t Null"
    and size: "lst_size ?l = int ?n"
    and valid: "\<forall>c \<in> set cs. valid_client s c \<and> length (entry s c) \<le> SERVER_MAX_MESSAGE - 2 - 6"
    by (rule server_okE)
  have fs: "fst ` set xs = set cs" unfolding cs [symmetric] set_map ..
  obtain g0 where g0: "create_nodes empty_gheap cs = ([0..<?n], g0)" "fresh_nodes g0 cs"
    by (rule create_nodes_all)
  let ?grp = "shuffle (env_rand E) [0..<?n]"
  from combine_graph [OF g0(2) assms(3) shuffle_mset] obtain g where
    g: "combineNodesToGraph g0 ?grp 4 (int ?n) = Some (last ?grp, g)" and
    cg: "client_graph cs ?grp (last ?grp) g" by blast
  have nodes: "make_nodes empty_gheap (elms ?l) (lst_head ?l) ?n = Some ([0..<?n], g0)"
    using make_nodes_seg [OF seg, of empty_gheap] g0(1) cs by auto
  have "\<forall>c \<in> set cs. \<exists>i < ?n. cs ! i = c" by (simp add: in_set_conv_nth)
  then obtain idx where idx: "\<forall>c \<in> set cs. idx c < ?n \<and> cs ! idx c = c" by metis
  define ps where "ps = (\<lambda>c. peers_listed s cs g c (idx c))"
  have "\<exists>t. find_target E g (last ?grp) c = Some t \<and> client_send_peers E s' c g t =
      (if ?n = 1 then Some s' else if line_fits E (map (entry s) (ps c))
       then Some (send_line s' c (map (entry s) (ps c))) else None)"
    if c: "c \<in> fst ` set xs" and s': "srv_list s' = ?l" "srv_clients s' = srv_clients s" for c s'
    using client_line [OF rep cs dist valid mem cg _ _ s', of "idx c" c] idx c fs unfolding ps_def by blast
  note step = this
  have "send_all E g (last ?grp) (lst_head ?l) s =
      (if ?n = 1 then Some s
       else if \<forall>c \<in> fst ` set xs. line_fits E (map (entry s) (ps c))
       then Some (send_lines s (map fst xs) (\<lambda>c. map (entry s) (ps c))) else None)"
    by (rule send_all_seg [OF seg refl refl]) (rule step)
  then have "manage_graph E s =
      (if ?n = 1 then Some s
       else if \<forall>c \<in> set cs. line_fits E (map (entry s) (ps c))
       then Some (send_lines s cs (\<lambda>c. map (entry s) (ps c))) else None)"
    by (simp add: manage_graph_def list_size_def size nodes g cs fs)
  moreover have "mset (ps c) = mset (remove1 c cs) + mset (remove1 c cs)"
    if "c \<in> set cs" "5 \<le> ?n" for c
    using client_graph_peers(2) [OF cg dist] idx that by (simp add: ps_def peers_listed_def)
  ultimately show ?thesis by (intro that [of ps]) (auto simp: ps_def peers_listed_def)
qed

section \<open>The size of a line\<close>

lemma line_len_mset: "mset es = mset fs \<Longrightarrow> line_len es = line_len fs"
  by (metis line_len_def mset_map sum_mset_sum_list)

lemma length_join: "length (join (CHR '' '') es) = line_len es - 1"
proof (cases "es = []")
  case False
  then have "length (spaced es) = length (join (CHR '' '') es) + 1" by (simp add: spaced_join)
  then show ?thesis by simp
qed simp

lemma line_fits_iff: "line_fits E es \<longleftrightarrow>
    line_len es < length (env_mem E (SERVER_MAX_MESSAGE - 2 - 6)) \<and> line_len es - 1 < 506"
  by (auto simp: line_fits_def length_join SERVER_MAX_MESSAGE_def)

lemma line_len_upper: "\<forall>e \<in> set es. length e \<le> k \<Longrightarrow> line_len es \<le> length es * (k + 1)"
  by (induction es) auto

lemma line_len_lower: "\<forall>e \<in> set es. k \<le> length e \<Longrightarrow> length es * (k + 1) \<le> line_len es"
  by (induction es) auto

lemma others_length: "length (others s fd cs) \<le> length cs"
  by (simp add: others_def)

lemma peers_size:
  assumes "c \<in> set cs" and "mset ps = mset (remove1 c cs) + mset (remove1 c cs)"
  shows "length ps = 2 * (length cs - 1)" and "set ps \<subseteq> set cs"
proof -
  from assms(2) have "length ps = 2 * length (remove1 c cs)"
    by (metis mult_2 size_mset size_union)
  with assms(1) show "length ps = 2 * (length cs - 1)" by (simp add: length_remove1)
  from assms(2) have "set_mset (mset ps) = set (remove1 c cs)"
    by (metis Un_absorb set_mset_mset set_mset_union)
  then show "set ps \<subseteq> set cs" using set_remove1_subset [of c cs] by auto
qed

lemma manage_graph_small:
  assumes "server_ok s cs" and "mem_ok E" and "cs \<noteq> []" and "length cs \<le> 12"
    and "\<forall>c \<in> set cs. length (entry s c) \<le> 21"
  shows "\<exists>s'. manage_graph E s = Some s' \<and> srv_list s' = srv_list s \<and> srv_clients s' = srv_clients s \<and>
    (2 \<le> length cs \<longrightarrow>
      map fst (srv_sent s') = map fst (srv_sent s) @ map (\<lambda>c. cl_fd (the (srv_clients s c))) cs)"
proof -
  obtain ps where
    few: "length cs < 5 \<longrightarrow> (\<forall>c \<in> set cs. ps c = others s (cl_fd (the (srv_clients s c))) cs)" and
    many: "5 \<le> length cs \<longrightarrow> (\<forall>c \<in> set cs. mset (ps c) = mset (remove1 c cs) + mset (remove1 c cs))" and
    m: "manage_graph E s = (if length cs = 1 then Some s
       else if \<forall>c \<in> set cs. line_fits E (map (entry s) (ps c))
       then Some (send_lines s cs (\<lambda>c. map (entry s) (ps c))) else None)"
    by (rule manage_graph_lines [OF assms(1-3)])
  have "line_fits E (map (entry s) (ps c))" if c: "c \<in> set cs" for c
  proof -
    have "length (ps c) \<le> 22 \<and> set (ps c) \<subseteq> set cs"
    proof (cases "length cs < 5")
      case True
      with few c have "ps c = others s (cl_fd (the (srv_clients s c))) cs" by blast
      moreover from True have "length (others s (cl_fd (the (srv_clients s c))) cs) \<le> 22"
        using others_length [of s "cl_fd (the (srv_clients s c))" cs] by linarith
      ultimately show ?thesis by (auto simp: others_def)
    next
      case False
      with peers_size [OF c, of "ps c"] many c assms(4) show ?thesis by simp
    qed
    then have len: "length (ps c) \<le> 22" and sub: "set (ps c) \<subseteq> set cs" by blast+
    from sub assms(5) have "\<forall>e \<in> set (map (entry s) (ps c)). length e \<le> 21" by auto
    from line_len_upper [OF this] len have "line_len (map (entry s) (ps c)) \<le> 484" by simp
    moreover have "504 \<le> length (env_mem E 504)" using assms(2) by (simp add: mem_ok_def)
    ultimately show ?thesis by (simp add: line_fits_iff SERVER_MAX_MESSAGE_def)
  qed
  with m show ?thesis by (simp add: send_lines_def comp_def)
qed

section \<open>Properties\<close>

definition ex_env :: env where
  "ex_env = \<lparr>env_mem = (\<lambda>n. replicate n NUL), env_stack = (\<lambda>i. CHR ''x''), env_blocks = ex_blocks, env_rand = id,
     env_send = (\<lambda>fd m. int (length m))\<rparr>"

definition ex_client :: "nat \<Rightarrow> nclient" where
  "ex_client c = \<lparr>cl_fd = int c + 3, cl_address = ''255.255.255.255'' @ [NUL],
     cl_port = ''65535'' @ replicate 27 NUL\<rparr>"

definition ex_server :: "nat \<Rightarrow> server" where
  "ex_server n = \<lparr>srv_clients = (\<lambda>c. if c < n then Some (ex_client c) else None),
     srv_list = the (mfold (\<lambda>v l. map_option snd (list_add l v)) [0..<n] (list_create ex_blocks)),
     srv_sent = []\<rparr>"

lemma ex_env_ok: "mem_ok ex_env"
  by (simp add: mem_ok_def ex_env_def zeroed_ex_blocks)

lemma ex_client_entry: "peer_entry (ex_client c) = Some ''255.255.255.255:65535''"
  by (simp add: peer_entry_def ex_client_def cstr_def)

lemma ex_server_entry: "c < n \<Longrightarrow> entry (ex_server n) c = ''255.255.255.255:65535''"
  by (simp add: entry_def ex_server_def ex_client_entry)

lemma ex_server_fd: "c < n \<Longrightarrow> cl_fd (the (srv_clients (ex_server n) c)) = int c + 3"
  by (simp add: ex_server_def ex_client_def)

lemma ex_server_sent: "srv_sent (ex_server n) = []"
  by (simp add: ex_server_def)

lemma ex_server_ok: "server_ok (ex_server n) [0..<n]"
proof -
  obtain l where l: "mfold (\<lambda>v l. map_option snd (list_add l v)) [0..<n] (list_create ex_blocks) = Some l"
    "lrep l (map (\<lambda>v. (v, True)) [0..<n])" by (rule lst.build [OF zeroed_ex_blocks])
  then have "lrep (srv_list (ex_server n)) (map (\<lambda>v. (v, True)) [0..<n])"
    by (simp add: ex_server_def)
  moreover have "map fst (map (\<lambda>v. (v, True)) [0..<n]) = [0..<n]"
    by (simp add: comp_def)
  ultimately show ?thesis
    by (auto simp: server_ok_def valid_client_def ex_server_entry SERVER_MAX_MESSAGE_def)
      (auto simp: ex_server_def ex_client_entry)
qed

text \<open>
  The shuffle of the node array is a permutation, for every sequence of \<open>rand\<close> values, and in
  an array of at least two distinct nodes it leaves no node at its place. (So it is not the
  Fisher-Yates shuffle that the comment names, which can produce every permutation.)
\<close>

lemma shuffle_permutes:
  assumes "distinct xs" and "1 < length xs"
  shows "mset (shuffle rnd xs) = mset xs \<and> (\<forall>k < length xs. shuffle rnd xs ! k \<noteq> xs ! k)"
  using shuffle_mset shuffle_deranged [OF assms] by blast

text \<open>
  C20: in every well-formed graph in which a node of the wanted client can be reached from the head,
  the breadth-first search of \<open>manage_graph\<close> ends and returns an existing node of that client.
\<close>

theorem search_finds_client:
  assumes "mem_ok E" and "graph_ok g" and "gnodes g root \<noteq> None"
    and "reach g root x" and "client_of g x = v"
  shows "\<exists>t. find_target E g root v = Some t \<and> gnodes g t \<noteq> None \<and> client_of g t = v"
  by (rule find_target_finds [OF assms])

theorem search_finds_client_witness:
  "\<exists>t. find_target ex_env (snd (createNode empty_gheap 7)) 0 7 = Some t \<and>
     client_of (snd (createNode empty_gheap 7)) t = 7"
proof -
  have "fresh_nodes (snd (createNode empty_gheap 7)) [7]"
    by (auto simp: fresh_nodes_def createNode_def empty_gheap_def fun_eq_iff)
  from search_finds_client [OF ex_env_ok fresh_nodes_ok [OF this], of 0 0 7] show ?thesis
    by (auto simp: reach_def client_of_def createNode_def empty_gheap_def)
qed

text \<open>
  With two to four connected clients \<open>manage_graph\<close> sends every client, in list order, the
  message \<open>PEERS\<close> with the address and port of each client on another socket, and changes nothing
  else, provided the lines fit into the buffers.
\<close>

lemma manage_graph_few:
  assumes "server_ok s cs" and "mem_ok E" and "2 \<le> length cs" and "length cs < 5"
    and "\<forall>c \<in> set cs. line_fits E (map (entry s) (others s (cl_fd (the (srv_clients s c))) cs))"
  shows "manage_graph E s = Some (s\<lparr>srv_sent := srv_sent s @ map (\<lambda>c.
      let fd = cl_fd (the (srv_clients s c)) in
      (fd, ''PEERS '' @ join (CHR '' '') (map (entry s) (others s fd cs)))) cs\<rparr>)"
proof -
  from assms(3) have "cs \<noteq> []" by auto
  obtain ps where
    few: "length cs < 5 \<longrightarrow> (\<forall>c \<in> set cs. ps c = others s (cl_fd (the (srv_clients s c))) cs)" and
    many: "5 \<le> length cs \<longrightarrow> (\<forall>c \<in> set cs. mset (ps c) = mset (remove1 c cs) + mset (remove1 c cs))" and
    m: "manage_graph E s = (if length cs = 1 then Some s
       else if \<forall>c \<in> set cs. line_fits E (map (entry s) (ps c))
       then Some (send_lines s cs (\<lambda>c. map (entry s) (ps c))) else None)"
    by (rule manage_graph_lines [OF assms(1,2) \<open>cs \<noteq> []\<close>])
  from few assms(4) have "\<forall>c \<in> set cs. ps c = others s (cl_fd (the (srv_clients s c))) cs" by blast
  with m assms(3,5) show ?thesis by (simp add: send_lines_def Let_def)
qed

text \<open>
  C7: with five or more connected clients \<open>manage_graph\<close> sends every client, in list order, one
  \<open>PEERS\<close> message that names every other client exactly twice and itself never, in the order of the
  shuffled mesh; it has no defined result (a buffer overflows) exactly when some line does not fit.
\<close>

theorem manage_graph_mesh:
  assumes "server_ok s cs" and "mem_ok E" and "5 \<le> length cs"
  shows "\<exists>ps. (\<forall>c \<in> set cs. mset (ps c) = mset (remove1 c cs) + mset (remove1 c cs)) \<and>
    manage_graph E s = (if \<forall>c \<in> set cs. line_fits E (map (entry s) (ps c))
      then Some (s\<lparr>srv_sent := srv_sent s @ map (\<lambda>c. (cl_fd (the (srv_clients s c)),
        ''PEERS '' @ join (CHR '' '') (map (entry s) (ps c)))) cs\<rparr>)
      else None)"
proof -
  from assms(3) have "cs \<noteq> []" by auto
  obtain ps where
    few: "length cs < 5 \<longrightarrow> (\<forall>c \<in> set cs. ps c = others s (cl_fd (the (srv_clients s c))) cs)" and
    many: "5 \<le> length cs \<longrightarrow> (\<forall>c \<in> set cs. mset (ps c) = mset (remove1 c cs) + mset (remove1 c cs))" and
    m: "manage_graph E s = (if length cs = 1 then Some s
       else if \<forall>c \<in> set cs. line_fits E (map (entry s) (ps c))
       then Some (send_lines s cs (\<lambda>c. map (entry s) (ps c))) else None)"
    by (rule manage_graph_lines [OF assms(1,2) \<open>cs \<noteq> []\<close>])
  from many m assms(3) show ?thesis by (intro exI [of _ ps]) (simp add: send_lines_def)
qed

theorem manage_graph_mesh_witness:
  "\<exists>ps. mset (ps 2) = {#0, 1, 3, 4, 0, 1, 3, 4#} \<and>
    manage_graph ex_env (ex_server 5) = (if \<forall>c \<in> set [0..<5]. line_fits ex_env (map (entry (ex_server 5)) (ps c))
      then Some ((ex_server 5)\<lparr>srv_sent := map (\<lambda>c. (cl_fd (the (srv_clients (ex_server 5) c)),
        ''PEERS '' @ join (CHR '' '') (map (entry (ex_server 5)) (ps c)))) [0..<5]\<rparr>)
      else None)"
proof -
  have u: "set [0..<5] = {0, 1, 2, 3, 4 :: nat}" "remove1 2 [0..<5] = [0, 1, 3, 4 :: nat]"
    by (simp_all add: upt_rec eval_nat_numeral)
  obtain ps where ps: "\<forall>c \<in> set [0..<5]. mset (ps c) = mset (remove1 c [0..<5]) + mset (remove1 c [0..<5])"
    and m: "manage_graph ex_env (ex_server 5) = (if \<forall>c \<in> set [0..<5]. line_fits ex_env (map (entry (ex_server 5)) (ps c))
      then Some ((ex_server 5)\<lparr>srv_sent := srv_sent (ex_server 5) @ map (\<lambda>c. (cl_fd (the (srv_clients (ex_server 5) c)),
        ''PEERS '' @ join (CHR '' '') (map (entry (ex_server 5)) (ps c)))) [0..<5]\<rparr>)
      else None)"
    using manage_graph_mesh [OF ex_server_ok [of 5] ex_env_ok] by auto
  have "2 \<in> set [0..<5]" unfolding u by simp
  with ps have "mset (ps 2) = mset (remove1 2 [0..<5]) + mset (remove1 2 [0..<5])" by blast
  then have "mset (ps 2) = {#0, 1, 3, 4, 0, 1, 3, 4#}" unfolding u by simp
  with m show ?thesis by (intro exI [of _ ps]) (simp only: ex_server_sent append_Nil)
qed

text \<open>
  C31: with two to twelve clients, whose \<open>address:port\<close> texts have at most 21 characters (the
  longest for IPv4), and with fresh list blocks whose \<open>next\<close> is NULL (\<open>mem_ok\<close>), \<open>manage_graph\<close> returns
  and no buffer overflows, whatever the sizes and contents of the other blocks; every client gets one
  message, in list order.
\<close>

theorem manage_graph_twelve:
  assumes "server_ok s cs" and "mem_ok E" and "2 \<le> length cs" and "length cs \<le> 12"
    and "\<forall>c \<in> set cs. length (entry s c) \<le> 21"
  shows "\<exists>s'. manage_graph E s = Some s' \<and> srv_list s' = srv_list s \<and> srv_clients s' = srv_clients s \<and>
    map fst (srv_sent s') = map fst (srv_sent s) @ map (\<lambda>c. cl_fd (the (srv_clients s c))) cs"
proof -
  from assms(3) have "cs \<noteq> []" by auto
  from manage_graph_small [OF assms(1,2) this assms(4,5)] assms(3) show ?thesis by blast
qed

theorem manage_graph_twelve_witness:
  "\<exists>s'. manage_graph ex_env (ex_server 12) = Some s' \<and> length (srv_sent s') = 12"
proof -
  have "\<forall>c \<in> set [0..<12]. length (entry (ex_server 12) c) \<le> 21"
    by (simp add: ex_server_entry)
  from manage_graph_twelve [OF ex_server_ok [of 12] ex_env_ok _ _ this] obtain s' where
    s': "manage_graph ex_env (ex_server 12) = Some s'" and
    m: "map fst (srv_sent s') = map (\<lambda>c. cl_fd (the (srv_clients (ex_server 12) c))) [0..<12]"
    by (auto simp: ex_server_sent)
  from arg_cong [OF m, of length] s' show ?thesis by (intro exI [of _ s']) simp
qed

text \<open>
  C32: the thirteenth client can crash the server: with thirteen or more clients whose texts have at
  least 21 characters, \<open>manage_graph\<close> has no defined result, with any allocator, because the line of
  each client is longer than the 512 bytes of the local message buffer.
\<close>

theorem manage_graph_overflow:
  assumes "server_ok s cs" and "mem_ok E" and "13 \<le> length cs"
    and "\<forall>c \<in> set cs. 21 \<le> length (entry s c)"
  shows "manage_graph E s = None"
proof -
  from assms(3) have "cs \<noteq> []" by auto
  obtain ps where
    few: "length cs < 5 \<longrightarrow> (\<forall>c \<in> set cs. ps c = others s (cl_fd (the (srv_clients s c))) cs)" and
    many: "5 \<le> length cs \<longrightarrow> (\<forall>c \<in> set cs. mset (ps c) = mset (remove1 c cs) + mset (remove1 c cs))" and
    m: "manage_graph E s = (if length cs = 1 then Some s
       else if \<forall>c \<in> set cs. line_fits E (map (entry s) (ps c))
       then Some (send_lines s cs (\<lambda>c. map (entry s) (ps c))) else None)"
    by (rule manage_graph_lines [OF assms(1,2) \<open>cs \<noteq> []\<close>])
  from \<open>cs \<noteq> []\<close> obtain c where c: "c \<in> set cs" by (cases cs) auto
  have "5 \<le> length cs" using assms(3) by simp
  with many c have "mset (ps c) = mset (remove1 c cs) + mset (remove1 c cs)" by blast
  from peers_size [OF c this] have "\<forall>e \<in> set (map (entry s) (ps c)). 21 \<le> length e" and "24 \<le> length (ps c)"
    using assms(3,4) by auto
  from line_len_lower [OF this(1)] this(2) have "528 \<le> line_len (map (entry s) (ps c))" by simp
  then have "\<not> line_fits E (map (entry s) (ps c))" unfolding line_fits_iff by linarith
  with m c assms(3) show ?thesis by auto
qed

theorem manage_graph_overflow_witness: "manage_graph ex_env (ex_server 13) = None"
proof (rule manage_graph_overflow [OF ex_server_ok [of 13] ex_env_ok])
  show "\<forall>c \<in> set [0..<13]. 21 \<le> length (entry (ex_server 13) c)"
    by (simp add: ex_server_entry)
qed simp

end
