(* ===== verification/Sockets.thy ===== *)
theory Sockets
  imports CString
begin

text \<open>
  Opening sockets: \<open>init_server\<close> of \<open>ac-client-server/client_server.c\<close> and of
  \<open>ac-name-server/name_server.c\<close>, and \<open>connect_to_host\<close> of the former.

  The socket interface is a parameter, a record \<open>net\<close> of the results of the system calls. An address
  record of \<open>getaddrinfo\<close> is a number, its result list is given in order; \<open>None\<close> is an error. The
  descriptors that the code closes are collected in a list.
\<close>

section \<open>The code\<close>

text \<open>The results of \<open>recv\<close>: -1, or the bytes received; 0 ends the loop.\<close>

datatype received = Failed | Received bytes

record net =
  n_getaddrinfo :: "string option \<Rightarrow> string \<Rightarrow> nat list option"
  n_socket :: "nat \<Rightarrow> int"
  n_setsockopt :: "int \<Rightarrow> int"
  n_bind :: "int \<Rightarrow> nat \<Rightarrow> int"
  n_connect :: "int \<Rightarrow> nat \<Rightarrow> int"

text \<open>Only the first address is tried. The socket of a failed \<open>connect\<close> is not closed.\<close>

definition connect_to_host :: "net \<Rightarrow> string \<Rightarrow> string \<Rightarrow> int option" where
  "connect_to_host N address port =
     (case n_getaddrinfo N (Some address) port of
        None \<Rightarrow> Some (-1)
      | Some [] \<Rightarrow> None
      | Some (host_info # _) \<Rightarrow>
          (let socket_fd = n_socket N host_info in
           if socket_fd = -1 then Some (-1)
           else if n_connect N socket_fd host_info = -1 then Some (-1)
           else Some socket_fd))"

text \<open>The loop of the client's \<open>init_server\<close>: the socket, and the closed ones.\<close>

fun peer_bind_loop :: "net \<Rightarrow> nat list \<Rightarrow> int \<Rightarrow> int list \<Rightarrow> int \<times> int list" where
  "peer_bind_loop N [] socket_fd closed = (socket_fd, closed)"
| "peer_bind_loop N (a # as) _ closed =
     (let socket_fd = n_socket N a in
      if socket_fd = -1 then peer_bind_loop N as socket_fd closed
      else if n_setsockopt N socket_fd = -1
      then peer_bind_loop N as (-1) (closed @ [socket_fd])
      else if n_bind N socket_fd a = -1
      then peer_bind_loop N as (-1) (closed @ [socket_fd])
      else (socket_fd, closed))"

definition peer_init_server :: "net \<Rightarrow> string \<Rightarrow> int \<times> int list" where
  "peer_init_server N port =
     (case n_getaddrinfo N None port of
        None \<Rightarrow> (-1, [])
      | Some as \<Rightarrow> peer_bind_loop N as (-1) [])"

text \<open>
  The loop of the name server's \<open>init_server\<close>. A failed \<open>socket\<close> is noticed only by \<open>setsockopt\<close>,
  whose failure returns from the function, and a failed \<open>bind\<close> leaves the closed descriptor in the
  variable. The variable is uninitialised at the start (\<open>None\<close>).
\<close>

fun server_bind_loop :: "net \<Rightarrow> nat list \<Rightarrow> int option \<Rightarrow> int list \<Rightarrow> int option \<times> int list" where
  "server_bind_loop N [] socket_fd closed = (socket_fd, closed)"
| "server_bind_loop N (a # as) _ closed =
     (let socket_fd = n_socket N a in
      if n_setsockopt N socket_fd = -1 then (Some (-1), closed)
      else if n_bind N socket_fd a = -1
      then server_bind_loop N as (Some socket_fd) (closed @ [socket_fd])
      else (Some socket_fd, closed))"

definition server_init_server :: "net \<Rightarrow> string \<Rightarrow> int option \<times> int list" where
  "server_init_server N port =
     (case n_getaddrinfo N None port of
        None \<Rightarrow> (Some (-1), [])
      | Some as \<Rightarrow> server_bind_loop N as None [])"

section \<open>Specification\<close>

text \<open>An address the server can be bound to.\<close>

definition bindable :: "net \<Rightarrow> nat \<Rightarrow> bool" where
  "bindable N a \<longleftrightarrow> n_socket N a \<noteq> -1 \<and> n_setsockopt N (n_socket N a) \<noteq> -1 \<and>
     n_bind N (n_socket N a) a \<noteq> -1"

definition opened :: "net \<Rightarrow> nat list \<Rightarrow> int list" where
  "opened N as = filter (\<lambda>fd. fd \<noteq> -1) (map (n_socket N) as)"

lemma peer_bind_loop_result:
  "peer_bind_loop N as fd closed =
     (case find (bindable N) as of
        Some a \<Rightarrow> n_socket N a
      | None \<Rightarrow> if as = [] then fd else -1,
      closed @ opened N (takeWhile (\<lambda>a. \<not> bindable N a) as))"
proof (induction N as fd closed rule: peer_bind_loop.induct)
  case (2 N a as fd closed)
  consider "n_socket N a = -1" | "n_socket N a \<noteq> -1" "\<not> bindable N a" | "bindable N a"
    by (auto simp: bindable_def)
  then show ?case
    by cases (use "2.IH" in \<open>auto simp: bindable_def opened_def Let_def split: option.splits\<close>)
qed (simp add: opened_def)

lemma server_bind_loop_all_fail:
  "as \<noteq> [] \<Longrightarrow> \<forall>a \<in> set as. n_setsockopt N (n_socket N a) \<noteq> -1 \<and> n_bind N (n_socket N a) a = -1 \<Longrightarrow>
     server_bind_loop N as fd closed = (Some (n_socket N (last as)), closed @ map (n_socket N) as)"
  by (induction N as fd closed rule: server_bind_loop.induct) (auto simp: Let_def)

lemma server_bind_loop_ok:
  "\<forall>a \<in> set as. n_socket N a \<noteq> -1 \<and> n_setsockopt N (n_socket N a) \<noteq> -1 \<Longrightarrow>
   find (bindable N) as = Some b \<Longrightarrow>
     server_bind_loop N as fd closed =
       (Some (n_socket N b), closed @ opened N (takeWhile (\<lambda>a. \<not> bindable N a) as))"
proof (induction N as fd closed rule: server_bind_loop.induct)
  case (2 N a as fd closed)
  then show ?case by (cases "bindable N a") (auto simp: bindable_def opened_def Let_def)
qed simp

section \<open>Properties\<close>

text \<open>
  The client's \<open>init_server\<close> returns a socket bound to the first address that allows it, or -1
  when there is none, and every other socket it has opened is closed again.
\<close>

lemma peer_init_server_result:
  "peer_init_server N port =
     (case n_getaddrinfo N None port of
        None \<Rightarrow> (-1, [])
      | Some as \<Rightarrow>
          (case find (bindable N) as of Some a \<Rightarrow> n_socket N a | None \<Rightarrow> -1,
           opened N (takeWhile (\<lambda>a. \<not> bindable N a) as)))"
  by (auto simp: peer_init_server_def peer_bind_loop_result split: option.splits)

text \<open>
  The name server's \<open>init_server\<close> agrees with the client's one when the sockets can be created
  and configured and some address can be bound; but when every \<open>bind\<close> fails it returns the
  descriptor it has closed last, where the documentation and the client's version say -1.
\<close>

lemma server_init_server_result:
  assumes "n_getaddrinfo N None port = Some as" and "as \<noteq> []"
    and "\<forall>a \<in> set as. n_socket N a \<noteq> -1 \<and> n_setsockopt N (n_socket N a) \<noteq> -1"
  shows "if find (bindable N) as = None
    then fst (peer_init_server N port) = -1 \<and> (\<exists>fd closed.
      server_init_server N port = (Some fd, closed) \<and> fd \<noteq> -1 \<and> fd \<in> set closed)
    else server_init_server N port =
      (Some (fst (peer_init_server N port)), snd (peer_init_server N port))"
proof (cases "find (bindable N) as")
  case None
  then have "\<forall>a \<in> set as. \<not> bindable N a" by (auto simp: find_None_iff)
  with assms(3) have "\<forall>a \<in> set as. n_setsockopt N (n_socket N a) \<noteq> -1 \<and> n_bind N (n_socket N a) a = -1"
    by (auto simp: bindable_def)
  from server_bind_loop_all_fail [OF assms(2) this] None assms show ?thesis
    by (simp add: server_init_server_def peer_init_server_def peer_bind_loop_result)
next
  case (Some b)
  from server_bind_loop_ok [OF assms(3) Some] Some assms(1) show ?thesis
    by (simp add: server_init_server_def peer_init_server_def peer_bind_loop_result)
qed

definition ex_net :: "int \<Rightarrow> net" where
  "ex_net b = \<lparr>n_getaddrinfo = (\<lambda>_ _. Some [0, 1]), n_socket = (\<lambda>a. int a + 3), n_setsockopt = (\<lambda>_. 0),
     n_bind = (\<lambda>fd a. if a = 0 then -1 else b), n_connect = (\<lambda>_ _. 0)\<rparr>"

end
