(* ===== verification/Machine.thy ===== *)
theory Machine
  imports Prelude
begin

text \<open>
  What the step relations of the server, the client and the threads share: the states that are
  reachable by steps that end in a state (a step that ends in \<open>None\<close> is a fault or an exit), the
  runs with the events of their steps, and the interface of an invariant.
\<close>

section \<open>Reachable states and runs\<close>

inductive reach :: "('w \<Rightarrow> 'w option \<Rightarrow> bool) \<Rightarrow> 'w \<Rightarrow> 'w \<Rightarrow> bool" for stp w0 where
  init: "reach stp w0 w0"
| step: "reach stp w0 w \<Longrightarrow> stp w (Some w') \<Longrightarrow> reach stp w0 w'"

inductive run :: "('w \<Rightarrow> 'e \<Rightarrow> 'w option \<Rightarrow> bool) \<Rightarrow> 'w \<Rightarrow> 'e list \<Rightarrow> 'w \<Rightarrow> bool" for stp w0 where
  init: "run stp w0 [] w0"
| step: "run stp w0 es w \<Longrightarrow> stp w e (Some w') \<Longrightarrow> run stp w0 (es @ [e]) w'"

lemma reach_trans: "reach stp w1 w2 \<Longrightarrow> reach stp w0 w1 \<Longrightarrow> reach stp w0 w2"
  by (induction rule: reach.induct) (auto intro: reach.step)

lemma run_append: "run stp w1 fs w2 \<Longrightarrow> run stp w0 es w1 \<Longrightarrow> run stp w0 (es @ fs) w2"
proof (induction rule: run.induct)
  case init
  then show ?case by simp
next
  case (step fs w e w')
  from run.step [OF step.IH [OF step.prems] step.hyps(2)] show ?case by simp
qed

lemma run_mono:
  assumes "\<And>w e r. stp w e r \<Longrightarrow> stp' w e r" and "run stp w0 es w"
  shows "run stp' w0 es w"
  using assms(2) by (induction rule: run.induct) (blast intro: run.intros assms(1))+

section \<open>Invariants\<close>

text \<open>
  The interface of a property of the run so far and the state, which every step preserves, and of a
  property of the state alone; with what follows for whole runs.
\<close>

locale traced =
  fixes stp :: "'w \<Rightarrow> 'e \<Rightarrow> 'w option \<Rightarrow> bool"
    and inv :: "'e list \<Rightarrow> 'w \<Rightarrow> bool"
  assumes step_keeps: "stp w e (Some w') \<Longrightarrow> inv es w \<Longrightarrow> inv (es @ [e]) w'"
begin

lemma run_keeps: "run stp w0 es w \<Longrightarrow> inv [] w0 \<Longrightarrow> inv es w"
  by (induction rule: run.induct) (blast intro: step_keeps)+

end

locale kept =
  fixes stp :: "'w \<Rightarrow> 'e \<Rightarrow> 'w option \<Rightarrow> bool"
    and inv :: "'w \<Rightarrow> bool"
  assumes keeps: "stp w e (Some w') \<Longrightarrow> inv w \<Longrightarrow> inv w'"
begin

lemma reach_keeps: "reach (\<lambda>w r. \<exists>e. stp w e r) w0 w \<Longrightarrow> inv w0 \<Longrightarrow> inv w"
  by (induction rule: reach.induct) (blast intro: keeps)+

end

sublocale kept \<subseteq> traced stp "\<lambda>_. inv"
  by unfold_locales (rule keeps)

end
