(* ===== verification/ServerLoop.thy ===== *)
theory ServerLoop
  imports PeerGraph Sockets Machine
begin

text \<open>
  The threads of the name server: \<open>listen_for_clients\<close> and \<open>client_handle\<close> of
  \<open>ac-name-server/name_server.c\<close>, as operations on the server's state and as a step relation.

  A step is a piece of a thread's code that holds the list's mutex, or that touches only the
  thread's own client struct: an iteration of the receive loop is the step that reads the message
  and sets the port, and the step of \<open>manage_graph\<close>. Threads run in any order. What the environment decides (the socket of
  an accepted client, the content of fresh memory, the address text, what \<open>recv\<close> returns, the
  environment of \<open>manage_graph\<close>) is arbitrary in each step, within what the system calls document.
  The copy into the own port field is one step: a concurrent reader that sees half of it is the
  subject of \<open>TornPort\<close>.
\<close>

section \<open>The operations\<close>

text \<open>
  \<open>accept\<close> returned \<open>fd\<close>; the new struct is at a fresh address and holds \<open>blk\<close>. The inner \<open>None\<close>
  is \<open>exit(1)\<close>.
\<close>

definition server_accept :: "server \<Rightarrow> nat \<Rightarrow> int \<Rightarrow> nclient \<Rightarrow> server option" where
  "server_accept s c fd blk =
     (if fd = -1 then None
      else Some (s\<lparr>srv_clients := (srv_clients s)(c \<mapsto> blk\<lparr>cl_fd := fd\<rparr>)\<rparr>))"

text \<open>
  The start of \<open>client_handle\<close>: \<open>addr\<close> is the address field after \<open>getnameinfo\<close>, whose error is
  only printed. Both fields are printed as strings.
\<close>

definition client_start :: "server \<Rightarrow> nat \<Rightarrow> bytes \<Rightarrow> server option" where
  "client_start s c addr = do {
     cl \<leftarrow> srv_clients s c;
     port \<leftarrow> strncpy (cl_port cl) CLIENT_PEER_DEF_PORT NI_MAXSERV;
     a \<leftarrow> cstr addr;
     p \<leftarrow> cstr port;
     Some (s\<lparr>srv_clients := (srv_clients s)(c \<mapsto> cl\<lparr>cl_address := addr, cl_port := port\<rparr>)\<rparr>)
   }"

definition client_list_add :: "server \<Rightarrow> nat \<Rightarrow> server option" where
  "client_list_add s c = do {
     (r, l) \<leftarrow> list_add (srv_list s) c;
     Some (s\<lparr>srv_list := l\<rparr>)
   }"

text \<open>\<open>manage_graph(); memset(buffer, 0, ...)\<close> at the end of an iteration.\<close>

definition finish_msg :: "env \<Rightarrow> server \<Rightarrow> bytes \<Rightarrow> (server \<times> bytes) option" where
  "finish_msg E s buffer = do {
     s \<leftarrow> manage_graph E s;
     buffer \<leftarrow> zero_bytes buffer (SERVER_MAX_MESSAGE + 1);
     Some (s, buffer)
   }"

text \<open>The new port of a PORTUPD message; address and port are then printed.\<close>

definition client_set_port :: "server \<Rightarrow> nat \<Rightarrow> string \<Rightarrow> server option" where
  "client_set_port s c tok = do {
     cl \<leftarrow> srv_clients s c;
     port \<leftarrow> strncpy (cl_port cl) tok NI_MAXSERV;
     a \<leftarrow> cstr (cl_address cl);
     p \<leftarrow> cstr port;
     Some (s\<lparr>srv_clients := (srv_clients s)(c \<mapsto> cl\<lparr>cl_port := port\<rparr>)\<rparr>)
   }"

text \<open>
  The iteration for a message up to \<open>manage_graph\<close>; the flag tells whether it gets there. On an error
  the code stores to \<open>buffer[-1]\<close>. An invalid PORTUPD leaves the iteration by \<open>continue\<close>; the NUL
  bytes that \<open>strtok\<close> has then put into the buffer are left out, as the next message overwrites the
  buffer and terminates it.
\<close>

definition client_take :: "server \<Rightarrow> nat \<Rightarrow> bytes \<Rightarrow> received \<Rightarrow> (server \<times> bytes \<times> bool) option" where
  "client_take s c buffer r =
     (case r of
        Failed \<Rightarrow> None
      | Received d \<Rightarrow> do {
          buffer \<leftarrow> write_at buffer 0 d;
          buffer \<leftarrow> put_byte buffer (length d) NUL;
          txt \<leftarrow> cstr buffer;
          if str_starts_with txt ''PEERREQ'' then Some (s, buffer, True)
          else if str_starts_with txt ''PORTUPD'' then
            (case strtok (CHR '' '') txt of
               None \<Rightarrow> Some (s, buffer, False)
             | Some (t, rest) \<Rightarrow>
                 (case strtok (CHR '' '') rest of
                    None \<Rightarrow> Some (s, buffer, False)
                  | Some (tok, _) \<Rightarrow> do {
                      s \<leftarrow> client_set_port s c tok;
                      Some (s, buffer, True)
                    }))
          else Some (s, buffer, True)
        })"

text \<open>The whole iteration, with no other thread in between.\<close>

definition client_msg :: "env \<Rightarrow> server \<Rightarrow> nat \<Rightarrow> bytes \<Rightarrow> received \<Rightarrow> (server \<times> bytes) option" where
  "client_msg E s c buffer r = do {
     (s, buffer, on) \<leftarrow> client_take s c buffer r;
     if on then finish_msg E s buffer else Some (s, buffer)
   }"

definition client_leave :: "server \<Rightarrow> nat \<Rightarrow> server option" where
  "client_leave s c = do {
     (v, l) \<leftarrow> list_remove (srv_list s) c;
     Some (s\<lparr>srv_list := l\<rparr>)
   }"

text \<open>The address is printed, the socket closed and the struct freed.\<close>

definition client_free :: "server \<Rightarrow> nat \<Rightarrow> server option" where
  "client_free s c = do {
     cl \<leftarrow> srv_clients s c;
     a \<leftarrow> cstr (cl_address cl);
     Some (s\<lparr>srv_clients := (srv_clients s)(c := None)\<rparr>)
   }"

section \<open>The threads\<close>

text \<open>
  \<open>Listed\<close> is the receive loop at \<open>recv\<close>, \<open>Told\<close> the same loop before \<open>manage_graph\<close>.
\<close>

datatype pc = Unborn | Accepted | Started | Listed | Told | Left | Ended

record world =
  w_srv :: server
  w_pc :: "nat \<Rightarrow> pc"

definition advance_pc :: "world \<Rightarrow> nat \<Rightarrow> pc \<Rightarrow> server option \<Rightarrow> world option" where
  "advance_pc w c p = map_option (\<lambda>s. w\<lparr>w_srv := s, w_pc := (w_pc w)(c := p)\<rparr>)"

lemma Some_advance_pc:
  "Some w' = advance_pc w c p r \<longleftrightarrow> (\<exists>s. r = Some s \<and> w' = w\<lparr>w_srv := s, w_pc := (w_pc w)(c := p)\<rparr>)"
  by (cases r) (auto simp: advance_pc_def)

definition client_takes :: "world \<Rightarrow> nat \<Rightarrow> bytes \<Rightarrow> received \<Rightarrow> world option" where
  "client_takes w c buffer r = map_option
     (\<lambda>(s, _, on). w\<lparr>w_srv := s, w_pc := (w_pc w)(c := if on then Told else Listed)\<rparr>)
     (client_take (w_srv w) c buffer r)"

definition client_finishes :: "env \<Rightarrow> world \<Rightarrow> nat \<Rightarrow> bytes \<Rightarrow> world option" where
  "client_finishes E w c buffer = advance_pc w c Listed (map_option fst (finish_msg E (w_srv w) buffer))"

text \<open>A step leads to a new world, or to \<open>None\<close>: an invalid memory access, or \<open>exit(1)\<close>.\<close>

inductive srv_step :: "world \<Rightarrow> world option \<Rightarrow> bool" where
  accept: "w_pc w c = Unborn \<Longrightarrow> length (cl_port blk) = NI_MAXSERV \<Longrightarrow>
    srv_step w (advance_pc w c Accepted (server_accept (w_srv w) c fd blk))"
| start: "w_pc w c = Accepted \<Longrightarrow>
    srv_step w (advance_pc w c Started (client_start (w_srv w) c addr))"
| enlist: "w_pc w c = Started \<Longrightarrow>
    srv_step w (advance_pc w c Listed (client_list_add (w_srv w) c))"
| message: "w_pc w c = Listed \<Longrightarrow> length buffer = SERVER_MAX_MESSAGE + 1 \<Longrightarrow>
    r = Failed \<or> (\<exists>d. r = Received d \<and> d \<noteq> [] \<and> length d \<le> SERVER_MAX_MESSAGE) \<Longrightarrow>
    srv_step w (client_takes w c buffer r)"
| redistribute: "w_pc w c = Told \<Longrightarrow> mem_ok E \<Longrightarrow> length buffer = SERVER_MAX_MESSAGE + 1 \<Longrightarrow>
    srv_step w (client_finishes E w c buffer)"
| leave: "w_pc w c = Listed \<Longrightarrow>
    srv_step w (advance_pc w c Left (client_leave (w_srv w) c))"
| free: "w_pc w c = Left \<Longrightarrow>
    srv_step w (advance_pc w c Ended (client_free (w_srv w) c))"

inductive_cases srv_stepE: "srv_step w w'"

definition init_world :: "(nat \<Rightarrow> nat list_elm) \<Rightarrow> world" where
  "init_world m = \<lparr>w_srv = \<lparr>srv_clients = Map.empty, srv_list = list_create m, srv_sent = []\<rparr>,
     w_pc = (\<lambda>_. Unborn)\<rparr>"

abbreviation reachable :: "(nat \<Rightarrow> nat list_elm) \<Rightarrow> world \<Rightarrow> bool" where
  "reachable m \<equiv> reach srv_step (init_world m)"

lemmas srv_reach = reach.step [where stp = srv_step]

abbreviation in_loop :: "pc \<Rightarrow> bool" where
  "in_loop p \<equiv> p = Listed \<or> p = Told"

lemma Some_client_takes:
  "Some w' = client_takes w c buffer r \<longleftrightarrow> (\<exists>s b on. client_take (w_srv w) c buffer r = Some (s, b, on) \<and>
     w' = w\<lparr>w_srv := s, w_pc := (w_pc w)(c := if on then Told else Listed)\<rparr>)"
proof (cases "client_take (w_srv w) c buffer r")
  case None
  then show ?thesis by (simp add: client_takes_def)
next
  case (Some p)
  obtain s b on where "p = (s, b, on)" by (cases p)
  with Some show ?thesis by (simp add: client_takes_def)
qed

lemma Some_client_finishes:
  "Some w' = client_finishes E w c buffer \<longleftrightarrow> (\<exists>s b. finish_msg E (w_srv w) buffer = Some (s, b) \<and>
     w' = w\<lparr>w_srv := s, w_pc := (w_pc w)(c := Listed)\<rparr>)"
  by (auto simp: client_finishes_def Some_advance_pc)

section \<open>What the operations keep\<close>

lemma client_send_peers_same:
  "client_send_peers E s c g t = Some s' \<Longrightarrow> srv_list s' = srv_list s \<and> srv_clients s' = srv_clients s"
  by (auto simp: client_send_peers_def server_send_message_def Let_def bind_eq_Some_conv
      split: option.splits if_splits)

lemma send_all_same:
  assumes "send_all E g t p s = Some s'"
  shows "srv_list s' = srv_list s \<and> srv_clients s' = srv_clients s"
proof (rule send_all.raw_induct [where P = "\<lambda>E g t p s s'. srv_list s' = srv_list s \<and> srv_clients s' = srv_clients s",
      OF _ assms])
  fix f :: "env \<Rightarrow> nat gheap \<Rightarrow> nat \<Rightarrow> ptr \<Rightarrow> server \<Rightarrow> server option" and E g graph here s s'
  assume IH: "\<And>E g t p s s'. f E g t p s = Some s' \<Longrightarrow>
      srv_list s' = srv_list s \<and> srv_clients s' = srv_clients s"
    and "(case here of
        Null \<Rightarrow> Some s
      | Ref a \<Rightarrow> do {
          e \<leftarrow> elms (srv_list s) a;
          target \<leftarrow> find_target E g graph (elm_val e);
          s' \<leftarrow> client_send_peers E s (elm_val e) g target;
          e' \<leftarrow> elms (srv_list s') a;
          f E g graph (elm_next e') s'
        }) = Some s'"
  then show "srv_list s' = srv_list s \<and> srv_clients s' = srv_clients s"
    by (fastforce simp: bind_eq_Some_conv split: ptr.splits dest: client_send_peers_same)
qed

lemma manage_graph_same:
  "manage_graph E s = Some s' \<Longrightarrow> srv_list s' = srv_list s \<and> srv_clients s' = srv_clients s"
  by (auto simp: manage_graph_def Let_def bind_eq_Some_conv split: prod.splits dest: send_all_same)

text \<open>
  The invariant: the list represents some \<open>xs\<close> and its values are the clients whose threads are
  inside the receive loop, each once; the structs that exist are those of the threads between
  \<open>accept\<close> and \<open>free\<close>, and both strings of a started client are terminated.
\<close>

definition srv_inv :: "world \<Rightarrow> (nat \<times> bool) list \<Rightarrow> bool" where
  "srv_inv w xs \<longleftrightarrow> lrep (srv_list (w_srv w)) xs \<and> distinct (map fst xs) \<and>
     (\<forall>c. c \<in> fst ` set xs \<longleftrightarrow> in_loop (w_pc w c)) \<and>
     (\<forall>c. srv_clients (w_srv w) c = None \<longleftrightarrow> w_pc w c \<in> {Unborn, Ended}) \<and>
     (\<forall>c cl. srv_clients (w_srv w) c = Some cl \<longrightarrow> length (cl_port cl) = NI_MAXSERV) \<and>
     (\<forall>c cl. srv_clients (w_srv w) c = Some cl \<longrightarrow> w_pc w c \<noteq> Accepted \<longrightarrow> peer_entry cl \<noteq> None)"

lemma strncpy_length: "strncpy dst s n = Some b \<Longrightarrow> length b = length dst"
  by (auto simp: strncpy_def split: if_splits)

lemma srv_invE:
  assumes "srv_inv w xs"
  shows "lrep (srv_list (w_srv w)) xs" and "distinct (map fst xs)"
    and "c \<in> set (map fst xs) \<longleftrightarrow> in_loop (w_pc w c)"
    and "srv_clients (w_srv w) c = None \<longleftrightarrow> w_pc w c = Unborn \<or> w_pc w c = Ended"
    and "srv_clients (w_srv w) c = Some cl \<Longrightarrow> length (cl_port cl) = NI_MAXSERV"
    and "srv_clients (w_srv w) c = Some cl \<Longrightarrow> w_pc w c \<noteq> Accepted \<Longrightarrow> peer_entry cl \<noteq> None"
  using assms by (auto simp: srv_inv_def)

text \<open>Steps that only change the thread's own struct.\<close>

lemma srv_inv_own:
  assumes inv: "srv_inv w xs" and "in_loop (w_pc w c) \<longleftrightarrow> in_loop p"
    and s: "srv_list s' = srv_list (w_srv w)" "srv_clients s' = (srv_clients (w_srv w))(c := cl')"
    and cl: "cl' = None \<longleftrightarrow> p = Unborn \<or> p = Ended"
    and ok: "\<And>cl. cl' = Some cl \<Longrightarrow> length (cl_port cl) = NI_MAXSERV \<and> (p \<noteq> Accepted \<longrightarrow> peer_entry cl \<noteq> None)"
  shows "srv_inv (w\<lparr>w_srv := s', w_pc := (w_pc w)(c := p)\<rparr>) xs"
  using assms(1,2) cl ok unfolding srv_inv_def by (simp add: s)

lemma client_set_port_keeps:
  assumes "client_set_port s c tok = Some s'"
  shows "srv_list s' = srv_list s \<and> (\<exists>cl cl'. srv_clients s c = Some cl \<and>
    srv_clients s' = (srv_clients s)(c \<mapsto> cl') \<and> length (cl_port cl') = length (cl_port cl) \<and>
    peer_entry cl' \<noteq> None)"
proof -
  from assms obtain cl port a p where cl: "srv_clients s c = Some cl"
    "strncpy (cl_port cl) tok NI_MAXSERV = Some port" "cstr (cl_address cl) = Some a" "cstr port = Some p"
    and s': "s' = s\<lparr>srv_clients := (srv_clients s)(c \<mapsto> cl\<lparr>cl_port := port\<rparr>)\<rparr>"
    by (auto simp: client_set_port_def bind_eq_Some_conv)
  show ?thesis
    unfolding s' using cl strncpy_length [OF cl(2)]
    by (intro conjI exI [of _ cl] exI [of _ "cl\<lparr>cl_port := port\<rparr>"]) (simp_all add: peer_entry_def)
qed

lemma finish_msg_keeps:
  "finish_msg E s buffer = Some (s', b) \<Longrightarrow> srv_list s' = srv_list s \<and> srv_clients s' = srv_clients s"
  by (auto simp: finish_msg_def bind_eq_Some_conv dest: manage_graph_same)

lemma client_take_keeps:
  assumes "client_take s c buffer r = Some (s', b, on)"
  shows "srv_list s' = srv_list s \<and> (srv_clients s' = srv_clients s \<or>
    (\<exists>cl cl'. srv_clients s c = Some cl \<and> srv_clients s' = (srv_clients s)(c \<mapsto> cl') \<and>
       length (cl_port cl') = length (cl_port cl) \<and> peer_entry cl' \<noteq> None))"
proof -
  from assms consider "s' = s" | tok where "client_set_port s c tok = Some s'"
    by (auto simp: client_take_def bind_eq_Some_conv
        split: received.splits if_splits option.splits prod.splits)
  then show ?thesis
    by cases (auto dest!: client_set_port_keeps)
qed

lemma client_take_inv:
  assumes inv: "srv_inv w xs" and pc: "w_pc w c = Listed" and p: "in_loop p"
    and s': "client_take (w_srv w) c buffer r = Some (s', b, on)"
  shows "srv_inv (w\<lparr>w_srv := s', w_pc := (w_pc w)(c := p)\<rparr>) xs"
proof -
  from client_take_keeps [OF s'] have l: "srv_list s' = srv_list (w_srv w)" by blast
  from srv_invE(4) [OF inv, of c] pc obtain cl where cl: "srv_clients (w_srv w) c = Some cl" by auto
  have "\<exists>cl'. srv_clients s' = (srv_clients (w_srv w))(c := Some cl') \<and> length (cl_port cl') = NI_MAXSERV \<and>
      peer_entry cl' \<noteq> None"
  proof (cases "srv_clients s' = srv_clients (w_srv w)")
    case True
    with cl srv_invE(5,6) [OF inv cl] pc show ?thesis
      by (intro exI [of _ cl]) (auto simp: fun_upd_idem)
  next
    case False
    with client_take_keeps [OF s'] cl srv_invE(5) [OF inv cl] show ?thesis by auto
  qed
  then obtain cl' where "srv_clients s' = (srv_clients (w_srv w))(c := Some cl')"
    "length (cl_port cl') = NI_MAXSERV" "peer_entry cl' \<noteq> None" by blast
  with pc p l show ?thesis by (intro srv_inv_own [OF inv]) auto
qed

lemma finish_msg_inv:
  assumes inv: "srv_inv w xs" and pc: "w_pc w c = Told" and s': "finish_msg E (w_srv w) buffer = Some (s', b)"
  shows "srv_inv (w\<lparr>w_srv := s', w_pc := (w_pc w)(c := Listed)\<rparr>) xs"
proof -
  from srv_invE(4) [OF inv, of c] pc obtain cl where cl: "srv_clients (w_srv w) c = Some cl" by auto
  with finish_msg_keeps [OF s'] pc srv_invE(5,6) [OF inv cl] show ?thesis
    by (intro srv_inv_own [OF inv, where cl' = "Some cl"]) (auto simp: fun_upd_idem)
qed

lemma client_list_add_inv:
  assumes inv: "srv_inv w xs" and pc: "w_pc w c = Started" and s': "client_list_add (w_srv w) c = Some s'"
  shows "srv_inv (w\<lparr>w_srv := s', w_pc := (w_pc w)(c := Listed)\<rparr>) (xs @ [(c, True)])"
proof -
  from lst.add [OF srv_invE(1) [OF inv], of c] obtain l where
    "list_add (srv_list (w_srv w)) c = Some (1, l)" and l: "lrep l (xs @ [(c, True)])" by blast
  with s' have s'': "s' = w_srv w\<lparr>srv_list := l\<rparr>" by (simp add: client_list_add_def)
  have "c \<notin> fst ` set xs" using srv_invE(3) [OF inv, of c] pc by simp
  with inv l pc show ?thesis unfolding srv_inv_def s'' by auto
qed

lemma client_leave_inv:
  assumes inv: "srv_inv w xs" and pc: "w_pc w c = Listed" and s': "client_leave (w_srv w) c = Some s'"
  shows "\<exists>ys. srv_inv (w\<lparr>w_srv := s', w_pc := (w_pc w)(c := Left)\<rparr>) ys"
proof -
  from s' obtain v l where rm: "list_remove (srv_list (w_srv w)) c = Some (v, l)"
    and s'': "s' = w_srv w\<lparr>srv_list := l\<rparr>"
    by (auto simp: client_leave_def bind_eq_Some_conv)
  from lst.remove_values [OF srv_invE(1) [OF inv] rm] obtain ys where
    ys: "lrep l ys" "map fst ys = remove1 c (map fst xs)" by blast
  have "distinct (map fst ys)" unfolding ys(2) using srv_invE(2) [OF inv] by simp
  moreover have "d \<in> set (map fst ys) \<longleftrightarrow> in_loop (w_pc w d) \<and> d \<noteq> c" for d
    unfolding ys(2) using srv_invE(2,3) [OF inv] by simp
  ultimately have "srv_inv (w\<lparr>w_srv := s', w_pc := (w_pc w)(c := Left)\<rparr>) ys"
    using inv ys(1) pc unfolding srv_inv_def s'' by auto
  then show ?thesis ..
qed

lemma init_inv: "zeroed m \<Longrightarrow> srv_inv (init_world m) []"
  using lst.create by (simp add: srv_inv_def init_world_def)

lemma step_inv:
  assumes "srv_step w (Some w')" and inv: "srv_inv w xs"
  shows "\<exists>ys. srv_inv w' ys"
  using assms(1)
proof (cases rule: srv_step.cases)
  case (accept c blk fd)
  then have "w' = w\<lparr>w_srv := (w_srv w)\<lparr>srv_clients := (srv_clients (w_srv w))(c := Some (blk\<lparr>cl_fd := fd\<rparr>))\<rparr>,
      w_pc := (w_pc w)(c := Accepted)\<rparr>"
    by (auto simp: Some_advance_pc server_accept_def split: if_splits)
  with accept show ?thesis by (auto intro!: exI [of _ xs] srv_inv_own [OF inv])
next
  case (start c addr)
  then obtain cl port a p where cl: "srv_clients (w_srv w) c = Some cl"
    "strncpy (cl_port cl) CLIENT_PEER_DEF_PORT NI_MAXSERV = Some port" "cstr addr = Some a" "cstr port = Some p"
    and w': "w' = w\<lparr>w_srv := (w_srv w)\<lparr>srv_clients := (srv_clients (w_srv w))(c := Some (cl\<lparr>cl_address := addr, cl_port := port\<rparr>))\<rparr>,
      w_pc := (w_pc w)(c := Started)\<rparr>"
    by (auto simp: Some_advance_pc client_start_def bind_eq_Some_conv)
  have "length port = NI_MAXSERV" using strncpy_length [OF cl(2)] srv_invE(5) [OF inv cl(1)] by simp
  with start cl show ?thesis unfolding w'
    by (intro exI [of _ xs] srv_inv_own [OF inv]) (auto simp: peer_entry_def)
next
  case (enlist c)
  then show ?thesis using client_list_add_inv [OF inv] by (fastforce simp: Some_advance_pc)
next
  case (message c buffer r)
  then obtain s b on where "client_take (w_srv w) c buffer r = Some (s, b, on)"
    and w': "w' = w\<lparr>w_srv := s, w_pc := (w_pc w)(c := if on then Told else Listed)\<rparr>"
    by (auto simp: Some_client_takes)
  with client_take_inv [OF inv message(2)] show ?thesis unfolding w' by (intro exI [of _ xs]) simp
next
  case (redistribute c E buffer)
  then obtain s b where "finish_msg E (w_srv w) buffer = Some (s, b)"
    and w': "w' = w\<lparr>w_srv := s, w_pc := (w_pc w)(c := Listed)\<rparr>"
    by (auto simp: Some_client_finishes)
  with finish_msg_inv [OF inv redistribute(2)] show ?thesis unfolding w' by (intro exI [of _ xs]) simp
next
  case (leave c)
  then show ?thesis using client_leave_inv [OF inv] by (auto simp: Some_advance_pc)
next
  case (free c)
  then obtain cl where "srv_clients (w_srv w) c = Some cl" and
    w': "w' = w\<lparr>w_srv := (w_srv w)\<lparr>srv_clients := (srv_clients (w_srv w))(c := None)\<rparr>,
      w_pc := (w_pc w)(c := Ended)\<rparr>"
    by (auto simp: Some_advance_pc client_free_def bind_eq_Some_conv)
  with free show ?thesis unfolding w' by (intro exI [of _ xs] srv_inv_own [OF inv]) auto
qed

interpretation srv: kept "\<lambda>w (_ :: unit). srv_step w" "\<lambda>w. \<exists>xs. srv_inv w xs"
  by unfold_locales (auto dest: step_inv)

lemma reachable_inv: "reachable m w \<Longrightarrow> zeroed m \<Longrightarrow> \<exists>xs. srv_inv w xs"
  using srv.reach_keeps [of "init_world m" w] init_inv [of m] by auto

section \<open>Messages\<close>

text \<open>The text a message is read as: its bytes up to the first NUL.\<close>

definition msg_text :: "bytes \<Rightarrow> string" where
  "msg_text d = takeWhile (\<lambda>c. c \<noteq> NUL) d"

lemma received_text:
  assumes "length d < length buffer"
  shows "\<exists>b. (write_at buffer 0 d \<bind> (\<lambda>b. put_byte b (length d) NUL)) = Some b \<and>
    cstr b = Some (msg_text d) \<and> length b = length buffer"
proof -
  from assms have "drop (length d) buffer \<noteq> []" by simp
  then obtain x r where r: "drop (length d) buffer = x # r" by (meson neq_Nil_conv)
  have len: "length (d @ NUL # r) = length buffer" using arg_cong [OF r, of length] assms by simp
  have "write_at buffer 0 d = Some (d @ x # r)" using assms by (simp add: write_at_def r)
  moreover have "put_byte (d @ x # r) (length d) NUL = Some (d @ NUL # r)"
    by (simp add: put_byte_def)
  moreover have "cstr (d @ NUL # r) = Some (msg_text d)"
  proof (cases "NUL \<in> set d")
    case True
    then obtain u v where "d = u @ NUL # v" "NUL \<notin> set u" by (metis split_list_first)
    then show ?thesis by (simp add: msg_text_def takeWhile_stop)
  qed (simp add: msg_text_def takeWhile_absent)
  ultimately show ?thesis using len by (intro exI [of _ "d @ NUL # r"]) simp
qed

lemma client_take_text:
  assumes "length d \<le> SERVER_MAX_MESSAGE" and "length buffer = SERVER_MAX_MESSAGE + 1"
  shows "\<exists>b. length b = SERVER_MAX_MESSAGE + 1 \<and> client_take s c buffer (Received d) =
    (if str_starts_with (msg_text d) ''PORTUPD'' then
       (case tokens (CHR '' '') (msg_text d) of
          _ # tok # _ \<Rightarrow> map_option (\<lambda>s. (s, b, True)) (client_set_port s c tok)
        | _ \<Rightarrow> Some (s, b, False))
     else Some (s, b, True))"
proof -
  have "length d < length buffer" using assms by simp
  from received_text [OF this] obtain b where
    wb: "(write_at buffer 0 d \<bind> (\<lambda>b. put_byte b (length d) NUL)) = Some b"
    and b: "cstr b = Some (msg_text d)" "length b = length buffer" by blast
  from wb obtain a where a: "write_at buffer 0 d = Some a" "put_byte a (length d) NUL = Some b"
    by (cases "write_at buffer 0 d") simp_all
  let ?T = "msg_text d"
  have excl: "str_starts_with ?T ''PEERREQ'' \<Longrightarrow> \<not> str_starts_with ?T ''PORTUPD''"
    by (auto simp: str_starts_with_prefix prefix_def)
  have toks: "(case strtok (CHR '' '') ?T of None \<Rightarrow> x
      | Some (t, rest) \<Rightarrow> (case strtok (CHR '' '') rest of None \<Rightarrow> x | Some (tok, _) \<Rightarrow> f tok)) =
    (case tokens (CHR '' '') ?T of _ # tok # _ \<Rightarrow> f tok | _ \<Rightarrow> x)" for x and f :: "string \<Rightarrow> 'b"
  proof (cases "strtok (CHR '' '') ?T")
    case (Some p)
    obtain t rest where "p = (t, rest)" by (cases p)
    with Some show ?thesis
      by (cases "strtok (CHR '' '') rest") (auto simp: tokens.simps [of _ ?T] tokens.simps [of _ rest])
  qed (simp add: tokens.simps [of _ ?T])
  have some: "f \<bind> (\<lambda>s. Some (s, b, True)) = map_option (\<lambda>s. (s, b, True)) f" for f :: "server option"
    by (cases f) simp_all
  have "client_take s c buffer (Received d) =
    (if str_starts_with ?T ''PORTUPD'' then
       (case tokens (CHR '' '') ?T of
          _ # tok # _ \<Rightarrow> map_option (\<lambda>s. (s, b, True)) (client_set_port s c tok)
        | _ \<Rightarrow> Some (s, b, False))
     else Some (s, b, True))"
    using excl unfolding client_take_def received.case a b(1) bind.bind_lunit toks some by auto
  with b(2) assms(2) show ?thesis by (intro exI [of _ b]) simp
qed

lemma client_msg_text:
  assumes "length d \<le> SERVER_MAX_MESSAGE" and "length buffer = SERVER_MAX_MESSAGE + 1"
  shows "\<exists>b. length b = SERVER_MAX_MESSAGE + 1 \<and> client_msg E s c buffer (Received d) =
    (if str_starts_with (msg_text d) ''PORTUPD'' then
       (case tokens (CHR '' '') (msg_text d) of
          _ # tok # _ \<Rightarrow> client_set_port s c tok \<bind> (\<lambda>s. finish_msg E s b)
        | _ \<Rightarrow> Some (s, b))
     else finish_msg E s b)"
proof -
  have thn: "map_option (\<lambda>s. (s, b, True)) f \<bind> (\<lambda>(s, b, on). if on then finish_msg E s b else Some (s, b)) =
      f \<bind> (\<lambda>s. finish_msg E s b)" for f b by (cases f) simp_all
  from client_take_text [OF assms, of s c] obtain b where
    "length b = SERVER_MAX_MESSAGE + 1" "client_take s c buffer (Received d) =
    (if str_starts_with (msg_text d) ''PORTUPD'' then
       (case tokens (CHR '' '') (msg_text d) of
          _ # tok # _ \<Rightarrow> map_option (\<lambda>s. (s, b, True)) (client_set_port s c tok)
        | _ \<Rightarrow> Some (s, b, False))
     else Some (s, b, True))" by blast
  then show ?thesis
    by (intro exI [of _ b]) (simp add: client_msg_def thn split: list.split)
qed

text \<open>A client whose address and port have the length of an IPv4 address and a port number.\<close>

definition small_client :: "nclient \<Rightarrow> bool" where
  "small_client cl \<longleftrightarrow> (\<exists>a p. cstr (cl_address cl) = Some a \<and> cstr (cl_port cl) = Some p \<and>
     length a \<le> 15 \<and> length p \<le> 5)"

definition small_server :: "server \<Rightarrow> nat list \<Rightarrow> bool" where
  "small_server s cs \<longleftrightarrow> (\<forall>c \<in> set cs. \<exists>cl. srv_clients s c = Some cl \<and> small_client cl)"

lemma small_entry:
  assumes "srv_clients s c = Some cl" and "small_client cl"
  shows "valid_client s c \<and> length (entry s c) \<le> 21"
  using assms by (auto simp: small_client_def valid_client_def entry_def peer_entry_def)

lemma small_server_returns:
  assumes "lrep (srv_list s) xs" and "distinct (map fst xs)" and "small_server s (map fst xs)"
    and "xs \<noteq> []" and "length xs \<le> 12" and "mem_ok E" and "length b = SERVER_MAX_MESSAGE + 1"
  shows "\<exists>s' b'. finish_msg E s b = Some (s', b')"
proof -
  have e: "\<forall>c \<in> set (map fst xs). valid_client s c \<and> length (entry s c) \<le> 21"
    using assms(3) small_entry unfolding small_server_def by blast
  then have "server_ok s (map fst xs)"
    using assms(1,2) by (fastforce simp: server_ok_def SERVER_MAX_MESSAGE_def)
  from manage_graph_small [OF this assms(6)] assms(4,5) e obtain s' where "manage_graph E s = Some s'"
    by auto
  with assms(7) show ?thesis by (simp add: finish_msg_def zero_bytes_def)
qed

lemma client_set_port_small:
  assumes "srv_clients s c = Some cl" and "small_client cl" and "length (cl_port cl) = NI_MAXSERV"
    and "NUL \<notin> set tok" and "length tok \<le> 5"
  shows "\<exists>cl'. client_set_port s c tok = Some (s\<lparr>srv_clients := (srv_clients s)(c \<mapsto> cl')\<rparr>) \<and> small_client cl'"
proof -
  from strncpy_fits [OF assms(4), of NI_MAXSERV "cl_port cl"] assms(3,5) obtain p where
    "strncpy (cl_port cl) tok NI_MAXSERV = Some p" "cstr p = Some tok" by (auto simp: NI_MAXSERV_def)
  with assms(1,2,5) show ?thesis
    by (intro exI [of _ "cl\<lparr>cl_port := p\<rparr>"]) (auto simp: client_set_port_def small_client_def)
qed

text \<open>A state with at most twelve such clients, and a message that keeps their ports short.\<close>

definition small_world :: "world \<Rightarrow> bool" where
  "small_world w \<longleftrightarrow> (\<exists>xs. srv_inv w xs \<and> length xs \<le> 12 \<and> small_server (w_srv w) (map fst xs))"

definition small_msg :: "bytes \<Rightarrow> bool" where
  "small_msg d \<longleftrightarrow> length d \<le> SERVER_MAX_MESSAGE \<and>
     (length (tokens (CHR '' '') (msg_text d)) < 2 \<or> length (tokens (CHR '' '') (msg_text d) ! 1) \<le> 5)"

lemma tokens_no_NUL: "NUL \<notin> set s \<Longrightarrow> t \<in> set (tokens d s) \<Longrightarrow> NUL \<notin> set t"
proof (induction d s rule: tokens.induct)
  case (1 d s)
  show ?case
  proof (cases "strtok d s")
    case None
    with 1(3) show ?thesis by (simp add: tokens.simps [of _ s])
  next
    case (Some p)
    obtain u r where p: "p = (u, r)" by (cases p)
    have "set u \<subseteq> set s" "set r \<subseteq> set s"
      using Some p by (auto simp: strtok_def Let_def split: if_splits
        dest!: in_set_dropD set_takeWhileD set_dropWhileD)
    moreover from 1(1) [OF Some] p have "t \<in> set (tokens d r) \<Longrightarrow> NUL \<notin> set r \<Longrightarrow> NUL \<notin> set t" by simp
    ultimately show ?thesis using 1(2,3) Some p by (auto simp: tokens.simps [of _ s])
  qed
qed

lemma msg_text_no_NUL: "NUL \<notin> set (msg_text d)"
  by (auto simp: msg_text_def dest: set_takeWhileD)

lemma client_take_small:
  assumes "small_server s cs" and "c \<in> set cs" and "\<And>cl. srv_clients s c = Some cl \<Longrightarrow> length (cl_port cl) = NI_MAXSERV"
    and "small_msg d" and "length buffer = SERVER_MAX_MESSAGE + 1"
  shows "\<exists>s' b on. client_take s c buffer (Received d) = Some (s', b, on) \<and> small_server s' cs"
proof -
  let ?toks = "tokens (CHR '' '') (msg_text d)"
  from assms(4) have d: "length d \<le> SERVER_MAX_MESSAGE" "length ?toks < 2 \<or> length (?toks ! 1) \<le> 5"
    unfolding small_msg_def by blast+
  from client_take_text [OF d(1) assms(5), of s c] obtain b where
    b: "client_take s c buffer (Received d) =
    (if str_starts_with (msg_text d) ''PORTUPD'' then
       (case ?toks of
          _ # tok # _ \<Rightarrow> map_option (\<lambda>s. (s, b, True)) (client_set_port s c tok)
        | _ \<Rightarrow> Some (s, b, False))
     else Some (s, b, True))" by blast
  show ?thesis
  proof (cases "str_starts_with (msg_text d) ''PORTUPD'' \<and> 2 \<le> length ?toks")
    case True
    then obtain t tok r where toks: "?toks = t # tok # r"
      by (cases ?toks rule: remdups_adj.cases) auto
    with d(2) have tok: "length tok \<le> 5" by simp
    have "NUL \<notin> set tok" using tokens_no_NUL [OF msg_text_no_NUL, of tok "CHR '' ''" d] toks by simp
    moreover from assms(1,2) obtain cl where cl: "srv_clients s c = Some cl" "small_client cl"
      unfolding small_server_def by blast
    ultimately obtain cl' where "client_set_port s c tok = Some (s\<lparr>srv_clients := (srv_clients s)(c \<mapsto> cl')\<rparr>)"
      "small_client cl'"
      using client_set_port_small [OF cl assms(3) [OF cl(1)] _ tok] by blast
    with b True toks assms(1) show ?thesis by (auto simp: small_server_def)
  next
    case False
    with b assms(1) show ?thesis by (auto split: list.splits)
  qed
qed

lemma small_world_takes:
  assumes "small_world w" and "w_pc w c = Listed" and "small_msg d" and "length buffer = SERVER_MAX_MESSAGE + 1"
  shows "\<exists>w'. client_takes w c buffer (Received d) = Some w' \<and> small_world w'"
proof -
  from assms(1) obtain xs where xs: "srv_inv w xs" "length xs \<le> 12" "small_server (w_srv w) (map fst xs)"
    unfolding small_world_def by blast
  from srv_invE(3) [OF xs(1), of c] assms(2) have "c \<in> set (map fst xs)" by simp
  from client_take_small [OF xs(3) this srv_invE(5) [OF xs(1), of c] assms(3,4)] obtain s b on where
    s: "client_take (w_srv w) c buffer (Received d) = Some (s, b, on)" "small_server s (map fst xs)" by blast
  have "srv_inv (w\<lparr>w_srv := s, w_pc := (w_pc w)(c := if on then Told else Listed)\<rparr>) xs"
    by (rule client_take_inv [OF xs(1) assms(2) _ s(1)]) simp
  with s xs(2) show ?thesis unfolding small_world_def by (auto simp: client_takes_def)
qed

lemma small_world_finishes:
  assumes "small_world w" and "w_pc w c = Told" and "mem_ok E" and "length buffer = SERVER_MAX_MESSAGE + 1"
  shows "\<exists>w'. client_finishes E w c buffer = Some w' \<and> small_world w'"
proof -
  from assms(1) obtain xs where xs: "srv_inv w xs" "length xs \<le> 12" "small_server (w_srv w) (map fst xs)"
    unfolding small_world_def by blast
  from srv_invE(3) [OF xs(1), of c] assms(2) have "xs \<noteq> []" by auto
  from small_server_returns [OF srv_invE(1,2) [OF xs(1)] xs(3) this xs(2) assms(3,4)] obtain s b where
    s: "finish_msg E (w_srv w) buffer = Some (s, b)" by blast
  from finish_msg_keeps [OF s] xs(3) have "small_server s (map fst xs)" by (simp add: small_server_def)
  with finish_msg_inv [OF xs(1) assms(2) s] s xs(2) show ?thesis
    unfolding small_world_def by (auto simp: client_finishes_def advance_pc_def)
qed

section \<open>A run\<close>

text \<open>A client can always join: accept, start and enlist take it from its birth into the list.\<close>

lemma join_reachable:
  assumes "reachable m w" and inv: "srv_inv w xs" and pc: "w_pc w c = Unborn"
  shows "\<exists>w'. reachable m w' \<and> srv_inv w' (xs @ [(c, True)]) \<and> w_pc w' = (w_pc w)(c := Listed)"
proof -
  define blk where "blk = \<lparr>cl_fd = 0, cl_address = [NUL], cl_port = replicate NI_MAXSERV NUL\<rparr>"
  let ?addr = "''127.0.0.1'' @ [NUL]"
  let ?s1 = "(w_srv w)\<lparr>srv_clients := (srv_clients (w_srv w))(c \<mapsto> blk\<lparr>cl_fd := 7\<rparr>)\<rparr>"
  let ?w1 = "w\<lparr>w_srv := ?s1, w_pc := (w_pc w)(c := Accepted)\<rparr>"
  have "srv_step w (advance_pc w c Accepted (server_accept (w_srv w) c 7 blk))"
    by (rule srv_step.accept [OF pc]) (simp add: blk_def)
  then have 1: "srv_step w (Some ?w1)" by (simp add: advance_pc_def server_accept_def)
  from strncpy_fits [of CLIENT_PEER_DEF_PORT NI_MAXSERV "replicate NI_MAXSERV NUL"] obtain port where
    port: "strncpy (replicate NI_MAXSERV NUL) CLIENT_PEER_DEF_PORT NI_MAXSERV = Some port" "cstr port \<noteq> None"
    by (auto simp: CLIENT_PEER_DEF_PORT_def NI_MAXSERV_def)
  define cl where "cl = blk\<lparr>cl_fd := 7, cl_address := ?addr, cl_port := port\<rparr>"
  let ?s2 = "?s1\<lparr>srv_clients := (srv_clients ?s1)(c \<mapsto> cl)\<rparr>"
  let ?w2 = "?w1\<lparr>w_srv := ?s2, w_pc := (w_pc ?w1)(c := Started)\<rparr>"
  have addr: "cstr ?addr = Some ''127.0.0.1''" by (rule cstr_append) simp
  have "srv_step ?w1 (advance_pc ?w1 c Started (client_start (w_srv ?w1) c ?addr))"
    by (rule srv_step.start) simp
  moreover have "client_start (w_srv ?w1) c ?addr = Some ?s2"
    using port addr by (auto simp: client_start_def blk_def cl_def)
  ultimately have 2: "srv_step ?w1 (Some ?w2)" by (simp add: advance_pc_def)
  from lst.add [OF srv_invE(1) [OF inv], of c] obtain l where
    l: "list_add (srv_list (w_srv w)) c = Some (1, l)" "lrep l (xs @ [(c, True)])" by blast
  let ?w3 = "?w2\<lparr>w_srv := ?s2\<lparr>srv_list := l\<rparr>, w_pc := (w_pc ?w2)(c := Listed)\<rparr>"
  have "srv_step ?w2 (advance_pc ?w2 c Listed (client_list_add (w_srv ?w2) c))"
    by (rule srv_step.enlist) simp
  then have 3: "srv_step ?w2 (Some ?w3)" using l(1) by (simp add: advance_pc_def client_list_add_def)
  have "reachable m ?w3"
    by (rule srv_reach [OF srv_reach [OF srv_reach [OF assms(1) 1] 2] 3])
  moreover have i1: "srv_inv ?w1 xs" by (rule srv_inv_own [OF inv]) (auto simp: pc blk_def)
  have "length port = NI_MAXSERV" using strncpy_length [OF port(1)] by simp
  then have i2: "srv_inv ?w2 xs"
    by (intro srv_inv_own [OF i1]) (use port(2) addr in \<open>auto simp: cl_def peer_entry_def\<close>)
  have "srv_inv ?w3 (xs @ [(c, True)])"
    by (rule client_list_add_inv [OF i2]) (simp_all add: client_list_add_def l(1))
  moreover have "w_pc ?w3 = (w_pc w)(c := Listed)" by simp
  ultimately show ?thesis by blast
qed

lemma three_clients:
  assumes "zeroed m"
  shows "\<exists>w. reachable m w \<and> srv_inv w [(0, True), (1, True), (2, True)] \<and>
    w_pc w 0 = Listed \<and> w_pc w 1 = Listed \<and> w_pc w 2 = Listed"
proof -
  let ?w0 = "init_world m"
  from join_reachable [OF reach.init init_inv [OF assms], of 0] obtain w1 where
    1: "reachable m w1" "srv_inv w1 [(0, True)]" "w_pc w1 = (w_pc ?w0)(0 := Listed)"
    by (auto simp: init_world_def)
  from join_reachable [OF 1(1,2), of 1] 1(3) obtain w2 where
    2: "reachable m w2" "srv_inv w2 [(0, True), (1, True)]" "w_pc w2 = (w_pc w1)(1 := Listed)"
    by (auto simp: init_world_def)
  from join_reachable [OF 2(1,2), of 2] 1(3) 2(3) show ?thesis
    by (auto simp: init_world_def)
qed

section \<open>The PORTUPD message\<close>

lemma portupd_text:
  assumes "srv_clients s c = Some cl" and "length (cl_port cl) = NI_MAXSERV" and "cstr (cl_address cl) \<noteq> None"
    and "tok \<noteq> []" and "CHR '' '' \<notin> set tok" and "NUL \<notin> set tok" and "length buffer = SERVER_MAX_MESSAGE + 1"
    and tx: "msg_text d = ''PORTUPD '' @ tok" and "length d \<le> SERVER_MAX_MESSAGE"
  shows "if length tok < NI_MAXSERV
    then \<exists>port b. cstr port = Some tok \<and> length b = SERVER_MAX_MESSAGE + 1 \<and>
      client_msg E s c buffer (Received d) =
        finish_msg E (s\<lparr>srv_clients := (srv_clients s)(c \<mapsto> cl\<lparr>cl_port := port\<rparr>)\<rparr>) b
    else client_msg E s c buffer (Received d) = None"
proof -
  have "tokens (CHR '' '') (''PORTUPD'' @ CHR '' '' # tok) = [''PORTUPD'', tok]"
    using assms(4,5) tokens_join [of "[''PORTUPD'', tok]" "CHR '' ''"] by simp
  then have toks: "tokens (CHR '' '') (msg_text d) = [''PORTUPD'', tok]" unfolding tx by simp
  from client_msg_text [OF assms(9,7), of E s c] obtain b where
    b: "length b = SERVER_MAX_MESSAGE + 1" "client_msg E s c buffer (Received d) =
      client_set_port s c tok \<bind> (\<lambda>s. finish_msg E s b)"
    unfolding toks unfolding tx by (auto simp: str_starts_with_prefix)
  obtain a where a: "cstr (cl_address cl) = Some a" using assms(3) by blast
  show ?thesis
  proof (cases "length tok < NI_MAXSERV")
    case True
    from strncpy_fits [OF assms(6) this, of "cl_port cl"] assms(2) obtain p where
      "strncpy (cl_port cl) tok NI_MAXSERV = Some p" "cstr p = Some tok" by auto
    with b True assms(1) a show ?thesis
      by (auto simp: client_set_port_def)
  next
    case False
    with strncpy_unterminated [OF assms(6), of "cl_port cl"] assms(2) obtain p where
      "strncpy (cl_port cl) tok NI_MAXSERV = Some p" "cstr p = None" by auto
    with b False assms(1) a show ?thesis by (simp add: client_set_port_def)
  qed
qed

section \<open>Properties\<close>

text \<open>
  C10: in every reachable state of the server, with any interleaving of the threads and any
  behaviour of the network, the client list is well formed and holds exactly the clients whose
  threads are in their receive loop, each once; exactly the clients between accept and free have a
  struct, and the address and port of every started one are terminated strings.
\<close>

theorem reachable_server_inv:
  assumes "zeroed m" and "reachable m w"
  shows "\<exists>xs. lrep (srv_list (w_srv w)) xs \<and> distinct (map fst xs) \<and>
    (\<forall>c. c \<in> set (map fst xs) \<longleftrightarrow> w_pc w c \<in> {Listed, Told}) \<and>
    (\<forall>c. srv_clients (w_srv w) c = None \<longleftrightarrow> w_pc w c \<in> {Unborn, Ended}) \<and>
    (\<forall>c. w_pc w c \<in> {Started, Listed, Told, Left} \<longrightarrow> valid_client (w_srv w) c)"
proof -
  from reachable_inv [OF assms(2,1)] obtain xs where inv: "srv_inv w xs" ..
  note i = srv_invE [OF inv]
  have "valid_client (w_srv w) c" if "w_pc w c \<in> {Started, Listed, Told, Left}" for c
  proof -
    from that i(4) [of c] obtain cl where "srv_clients (w_srv w) c = Some cl" by auto
    with i(6) [OF this] that show ?thesis by (auto simp: valid_client_def)
  qed
  with i(1-4) show ?thesis by (intro exI [of _ xs]) auto
qed

theorem reachable_server_inv_witness:
  "\<exists>w xs. reachable ex_blocks w \<and> lrep (srv_list (w_srv w)) xs \<and> 1 \<in> set (map fst xs)"
proof -
  from three_clients [OF zeroed_ex_blocks] obtain w where w: "reachable ex_blocks w"
    "srv_inv w [(0, True), (1, True), (2, True)]" "w_pc w 1 = Listed" by blast
  with reachable_server_inv [OF zeroed_ex_blocks w(1)] w(1) show ?thesis by blast
qed

text \<open>
  C27: a \<open>PORTUPD\<close> message with a one-word port sets the sender's port to that word and then
  redistributes the peers, if the word has fewer than 32 characters; a longer word leaves the port
  field without a terminator, and printing it reads past the field.
\<close>

theorem portupd_sets_port:
  assumes "srv_clients s c = Some cl" and "length (cl_port cl) = NI_MAXSERV" and "cstr (cl_address cl) \<noteq> None"
    and "tok \<noteq> []" and "CHR '' '' \<notin> set tok" and "NUL \<notin> set tok"
    and "length tok \<le> SERVER_MAX_MESSAGE - 8" and "length buffer = SERVER_MAX_MESSAGE + 1"
  shows "if length tok < NI_MAXSERV
    then \<exists>port b. cstr port = Some tok \<and> length b = SERVER_MAX_MESSAGE + 1 \<and>
      client_msg E s c buffer (Received (''PORTUPD '' @ tok)) =
        finish_msg E (s\<lparr>srv_clients := (srv_clients s)(c \<mapsto> cl\<lparr>cl_port := port\<rparr>)\<rparr>) b
    else client_msg E s c buffer (Received (''PORTUPD '' @ tok)) = None"
proof -
  have "msg_text (''PORTUPD '' @ tok) = ''PORTUPD '' @ tok"
    using assms(6) by (simp add: msg_text_def takeWhile_absent)
  moreover have "length (''PORTUPD '' @ tok) \<le> SERVER_MAX_MESSAGE" using assms(7) by (simp add: SERVER_MAX_MESSAGE_def)
  ultimately show ?thesis by (rule portupd_text [OF assms(1-6,8)])
qed

theorem portupd_sets_port_witness:
  "(\<exists>port b. cstr port = Some ''4758'' \<and>
     client_msg ex_env (ex_server 3) 1 (replicate 513 NUL) (Received ''PORTUPD 4758'') =
       finish_msg ex_env (ex_server 3\<lparr>srv_clients := (srv_clients (ex_server 3))
         (1 \<mapsto> ex_client 1\<lparr>cl_port := port\<rparr>)\<rparr>) b) \<and>
   client_msg ex_env (ex_server 3) 1 (replicate 513 NUL)
     (Received (''PORTUPD '' @ replicate 32 (CHR ''9''))) = None"
proof -
  have cl: "srv_clients (ex_server 3) 1 = Some (ex_client 1)" by (simp add: ex_server_def)
  have ok: "length (cl_port (ex_client 1)) = NI_MAXSERV" "cstr (cl_address (ex_client 1)) \<noteq> None"
    by (simp_all add: ex_client_def NI_MAXSERV_def cstr_def)
  note set_port = portupd_sets_port [OF cl ok, of _ "replicate 513 NUL" ex_env]
  show ?thesis
    using set_port [of "''4758''"] set_port [of "replicate 32 (CHR ''9'')"]
    by (auto simp: NI_MAXSERV_def SERVER_MAX_MESSAGE_def)
qed

text \<open>
  A \<open>PORTUPD\<close> message without a second word is ignored: no client changes and no peers are
  sent; every message that does not start with \<open>PORTUPD\<close>, whatever it says, makes the server
  redistribute the peers of all clients, and changes nothing else.
\<close>

lemma other_messages:
  assumes "length d \<le> SERVER_MAX_MESSAGE" and "length buffer = SERVER_MAX_MESSAGE + 1"
  shows "(prefix ''PORTUPD'' (msg_text d) \<and> length (tokens (CHR '' '') (msg_text d)) < 2 \<longrightarrow>
      map_option fst (client_msg E s c buffer (Received d)) = Some s) \<and>
    (\<not> prefix ''PORTUPD'' (msg_text d) \<longrightarrow>
      map_option fst (client_msg E s c buffer (Received d)) = manage_graph E s)"
proof -
  from client_msg_text [OF assms, of E s c] obtain b where
    b: "length b = SERVER_MAX_MESSAGE + 1" "client_msg E s c buffer (Received d) =
    (if str_starts_with (msg_text d) ''PORTUPD'' then
       (case tokens (CHR '' '') (msg_text d) of
          _ # tok # _ \<Rightarrow> client_set_port s c tok \<bind> (\<lambda>s. finish_msg E s b)
        | _ \<Rightarrow> Some (s, b))
     else finish_msg E s b)" by blast
  have "map_option fst (finish_msg E s b) = manage_graph E s"
    using b(1) by (cases "manage_graph E s") (simp_all add: finish_msg_def zero_bytes_def)
  then show ?thesis
    unfolding b(2) by (auto simp: str_starts_with_prefix split: list.splits)
qed

text \<open>
  C29: the server can be crashed by clients that only connect and disconnect: there is a reachable
  state in which three clients have joined and the second one has left, and then the leaving of
  the third one reads a freed list element.
\<close>

theorem leave_crash_reachable:
  assumes "zeroed m"
  shows "\<exists>w. reachable m w \<and> w_pc w 0 = Listed \<and> w_pc w 1 = Left \<and> w_pc w 2 = Listed \<and>
    client_leave (w_srv w) 2 = None \<and> srv_step w None"
proof -
  from three_clients [OF assms] obtain w where w: "reachable m w"
    "srv_inv w [(0, True), (1, True), (2, True)]"
    and pcs: "w_pc w 0 = Listed" "w_pc w 1 = Listed" "w_pc w 2 = Listed" by blast
  note inv = srv_invE [OF w(2)]
  from lst.remove_successor [of "srv_list (w_srv w)" "[]" 0 True 1 2 True "[]"] inv(1) obtain l where
    l: "list_remove (srv_list (w_srv w)) 1 = Some (Some 1, l)" "list_remove l 2 = None" by auto
  let ?w' = "w\<lparr>w_srv := w_srv w\<lparr>srv_list := l\<rparr>, w_pc := (w_pc w)(1 := Left)\<rparr>"
  have "srv_step w (advance_pc w 1 Left (client_leave (w_srv w) 1))" by (rule srv_step.leave [OF pcs(2)])
  then have "srv_step w (Some ?w')" using l(1) by (simp add: advance_pc_def client_leave_def)
  with w(1) have "reachable m ?w'" by (rule srv_reach)
  moreover have crash: "client_leave (w_srv ?w') 2 = None" using l(2) by (simp add: client_leave_def)
  moreover have "srv_step ?w' (advance_pc ?w' 2 Left (client_leave (w_srv ?w') 2))"
    by (rule srv_step.leave) (simp add: pcs)
  then have "srv_step ?w' None" unfolding crash by (simp add: advance_pc_def)
  ultimately show ?thesis using pcs by (intro exI [of _ ?w']) simp
qed

theorem leave_crash_reachable_witness:
  "\<exists>w. reachable ex_blocks w \<and> client_leave (w_srv w) 2 = None \<and> srv_step w None"
  using leave_crash_reachable [OF zeroed_ex_blocks] by blast

text \<open>
  C17: progress: in every state that satisfies the invariant, with at most twelve clients in the
  list and IPv4-sized addresses and port texts (\<open>small_world\<close>), and with fresh list blocks whose \<open>next\<close> is NULL
  (\<open>mem_ok\<close>): every message that \<open>recv\<close> returns, of at most 512 bytes and whose second word, if it has one, has at
  most five characters (\<open>small_msg\<close>), is taken without a fault, and every redistribution of the peers ends without
  one, in any order of the threads, and each leads to such a state again. Other receives are not covered: a failed
  one writes before the buffer, and a port word of 32 characters or more can fault (\<open>portupd_sets_port\<close>).
\<close>

theorem message_progress:
  assumes "small_world w" and "mem_ok E" and "length buffer = SERVER_MAX_MESSAGE + 1"
  shows "(w_pc w c = Listed \<and> small_msg d \<longrightarrow>
      (\<exists>w'. client_takes w c buffer (Received d) = Some w' \<and> small_world w')) \<and>
    (w_pc w c = Told \<longrightarrow> (\<exists>w'. client_finishes E w c buffer = Some w' \<and> small_world w'))"
  using small_world_takes [OF assms(1)] small_world_finishes [OF assms(1)] assms(2,3) by blast

definition ex_world :: "nat \<Rightarrow> world" where
  "ex_world n = \<lparr>w_srv = ex_server n, w_pc = (\<lambda>c. if c < n then Listed else Unborn)\<rparr>"

lemma ex_world_inv: "\<exists>xs. map fst xs = [0..<n] \<and> srv_inv (ex_world n) xs"
proof -
  from ex_server_ok [of n] obtain xs where xs: "lrep (srv_list (ex_server n)) xs" "map fst xs = [0..<n]"
    unfolding server_ok_def by blast
  have "fst ` set xs = {0..<n}" using arg_cong [OF xs(2), of set] by simp
  then have "srv_inv (ex_world n) xs"
    using xs unfolding srv_inv_def ex_world_def
    by (auto simp: ex_server_def ex_client_entry) (auto simp: ex_client_def NI_MAXSERV_def)
  with xs(2) show ?thesis by blast
qed

lemma ex_world_small:
  assumes "n \<le> 12"
  shows "small_world (ex_world n)"
proof -
  from ex_world_inv [of n] obtain xs where xs: "map fst xs = [0..<n]" "srv_inv (ex_world n) xs" by blast
  have "length xs = n" using arg_cong [OF xs(1), of length] by simp
  moreover have "small_server (w_srv (ex_world n)) (map fst xs)"
    unfolding xs(1) by (simp add: small_server_def small_client_def ex_world_def ex_server_def)
      (simp add: ex_client_def cstr_def)
  ultimately show ?thesis using assms xs(2) unfolding small_world_def by blast
qed

theorem message_progress_witness:
  "\<exists>w' w''. client_takes (ex_world 12) 3 (replicate 513 NUL) (Received ''PEERREQ'') = Some w' \<and> small_world w' \<and>
     w_pc w' 3 = Told \<and> client_finishes ex_env w' 3 (replicate 513 NUL) = Some w'' \<and> small_world w''"
proof -
  let ?b = "replicate 513 NUL"
  have b: "length ?b = SERVER_MAX_MESSAGE + 1" by (simp add: SERVER_MAX_MESSAGE_def)
  have "small_msg ''PEERREQ''"
    by (simp add: small_msg_def SERVER_MAX_MESSAGE_def msg_text_def tokens.simps strtok_def)
  moreover have "w_pc (ex_world 12) 3 = Listed" by (simp add: ex_world_def)
  ultimately obtain w' where w': "client_takes (ex_world 12) 3 ?b (Received ''PEERREQ'') = Some w'" "small_world w'"
    using message_progress [OF ex_world_small ex_env_ok b, of 12 3 "''PEERREQ''"] by auto
  have "client_take (w_srv (ex_world 12)) 3 ?b (Received ''PEERREQ'') \<in>
      {Some (s, b, True) |s b. s = w_srv (ex_world 12)}"
    using client_take_text [of "''PEERREQ''" ?b "w_srv (ex_world 12)" 3] b
    by (auto simp: SERVER_MAX_MESSAGE_def msg_text_def str_starts_with_prefix)
  with w'(1) have "w_pc w' 3 = Told" by (auto simp: client_takes_def)
  with message_progress [OF w'(2) ex_env_ok b, of 3] w' show ?thesis by blast
qed

end
