(* ===== verification/Base64.thy ===== *)
theory Base64
  imports CString "HOL-Library.Word"
begin

unbundle bit_operations_syntax

text \<open>
  The base64 codec of \<open>ac-lib/base64.c\<close>.

  Input characters of the encoder have the C type \<open>char\<close>, which is signed, so the shifts and masks
  work on the signed value (\<open>schar\<close>); the decoder works on \<open>unsigned char\<close> (\<open>uchar\<close>), and a store
  to an \<open>unsigned char\<close> keeps the low eight bits. Reading past the end of an input, or writing past
  the end of an output buffer, is a fault (\<open>None\<close>).

  \<open>b64\<close> is the encoding as a function of the byte list. The lemmas show that the encoder produces
  it, in exactly \<open>Base64encode_len\<close> bytes, that the decoder inverts it, and that the decoder never
  writes more than \<open>Base64decode_len\<close> bytes.
\<close>

section \<open>The code\<close>

definition schar :: "char \<Rightarrow> int" where
  "schar c = sint (of_char c :: 8 word)"

definition uchar :: "char \<Rightarrow> nat" where
  "uchar c = of_char c"

definition pr2six :: "nat list" where
  "pr2six =
    [64, 64, 64, 64, 64, 64, 64, 64, 64, 64, 64, 64, 64, 64, 64, 64,
     64, 64, 64, 64, 64, 64, 64, 64, 64, 64, 64, 64, 64, 64, 64, 64,
     64, 64, 64, 64, 64, 64, 64, 64, 64, 64, 64, 62, 64, 64, 64, 63,
     52, 53, 54, 55, 56, 57, 58, 59, 60, 61, 64, 64, 64, 64, 64, 64,
     64,  0,  1,  2,  3,  4,  5,  6,  7,  8,  9, 10, 11, 12, 13, 14,
     15, 16, 17, 18, 19, 20, 21, 22, 23, 24, 25, 64, 64, 64, 64, 64,
     64, 26, 27, 28, 29, 30, 31, 32, 33, 34, 35, 36, 37, 38, 39, 40,
     41, 42, 43, 44, 45, 46, 47, 48, 49, 50, 51, 64, 64, 64, 64, 64,
     64, 64, 64, 64, 64, 64, 64, 64, 64, 64, 64, 64, 64, 64, 64, 64,
     64, 64, 64, 64, 64, 64, 64, 64, 64, 64, 64, 64, 64, 64, 64, 64,
     64, 64, 64, 64, 64, 64, 64, 64, 64, 64, 64, 64, 64, 64, 64, 64,
     64, 64, 64, 64, 64, 64, 64, 64, 64, 64, 64, 64, 64, 64, 64, 64,
     64, 64, 64, 64, 64, 64, 64, 64, 64, 64, 64, 64, 64, 64, 64, 64,
     64, 64, 64, 64, 64, 64, 64, 64, 64, 64, 64, 64, 64, 64, 64, 64,
     64, 64, 64, 64, 64, 64, 64, 64, 64, 64, 64, 64, 64, 64, 64, 64,
     64, 64, 64, 64, 64, 64, 64, 64, 64, 64, 64, 64, 64, 64, 64, 64]"

definition six :: "char \<Rightarrow> nat" where
  "six c = pr2six ! uchar c"

text \<open>The loop \<open>while (pr2six[*(bufin++)] <= 63)\<close>: how many bytes it passes before the last one.\<close>

fun scan_six :: "bytes \<Rightarrow> nat option" where
  "scan_six [] = None"
| "scan_six (c # cs) = (if six c \<le> 63 then map_option Suc (scan_six cs) else Some 0)"

definition Base64decode_len :: "bytes \<Rightarrow> int option" where
  "Base64decode_len bufcoded = do {
     n \<leftarrow> scan_six bufcoded;
     let nbytesdecoded = ((int n + 3) div 4) * 3;
     Some (nbytesdecoded + 1)
   }"

text \<open>The decoded bytes of one group of four: the code uses the first, two or all of them.\<close>

definition byte_of :: "nat \<Rightarrow> char" where
  "byte_of k = char_of (k AND 0xFF)"

definition dec0 :: "bytes \<Rightarrow> char option" where
  "dec0 b = do {
     x \<leftarrow> arr_get b 0; y \<leftarrow> arr_get b 1;
     Some (byte_of (push_bit 2 (six x) OR drop_bit 4 (six y)))
   }"

definition dec1 :: "bytes \<Rightarrow> char option" where
  "dec1 b = do {
     x \<leftarrow> arr_get b 1; y \<leftarrow> arr_get b 2;
     Some (byte_of (push_bit 4 (six x) OR drop_bit 2 (six y)))
   }"

definition dec2 :: "bytes \<Rightarrow> char option" where
  "dec2 b = do {
     x \<leftarrow> arr_get b 2; y \<leftarrow> arr_get b 3;
     Some (byte_of (push_bit 6 (six x) OR six y))
   }"

text \<open>\<open>*(bufout++) = c\<close>: the output buffer and the position in it.\<close>

definition emit :: "char \<Rightarrow> bytes \<times> nat \<Rightarrow> (bytes \<times> nat) option" where
  "emit c out = (case out of (b, i) \<Rightarrow> map_option (\<lambda>b'. (b', Suc i)) (put_byte b i c))"

function decode_loop :: "bytes \<Rightarrow> nat \<Rightarrow> bytes \<times> nat \<Rightarrow> (bytes \<times> nat) option" where
  "decode_loop bufin nprbytes out =
     (if nprbytes > 4
      then do {
        x \<leftarrow> dec0 bufin; out \<leftarrow> emit x out;
        y \<leftarrow> dec1 bufin; out \<leftarrow> emit y out;
        z \<leftarrow> dec2 bufin; out \<leftarrow> emit z out;
        decode_loop (drop 4 bufin) (nprbytes - 4) out
      }
      else do {
        out \<leftarrow> (if nprbytes > 1 then dec0 bufin \<bind> (\<lambda>x. emit x out) else Some out);
        out \<leftarrow> (if nprbytes > 2 then dec1 bufin \<bind> (\<lambda>x. emit x out) else Some out);
        out \<leftarrow> (if nprbytes > 3 then dec2 bufin \<bind> (\<lambda>x. emit x out) else Some out);
        emit NUL out
      })"
  by pat_completeness auto
termination
  by (relation "measure (\<lambda>(_, n, _). n)") auto

declare decode_loop.simps [simp del]

definition Base64decode :: "bytes \<Rightarrow> bytes \<Rightarrow> (int \<times> bytes) option" where
  "Base64decode bufplain bufcoded = do {
     n \<leftarrow> scan_six bufcoded;
     let nbytesdecoded = ((int n + 3) div 4) * 3;
     (b, i) \<leftarrow> decode_loop bufcoded n (bufplain, 0);
     Some (nbytesdecoded - ((4 - int n) AND 3), b)
   }"

definition basis_64 :: string where
  "basis_64 = ''ABCDEFGHIJKLMNOPQRSTUVWXYZabcdefghijklmnopqrstuvwxyz0123456789+/''"

definition basis_at :: "int \<Rightarrow> char option" where
  "basis_at k = (if k < 0 then None else arr_get basis_64 (nat k))"

definition Base64encode_len :: "int \<Rightarrow> int" where
  "Base64encode_len len = ((len + 2) div 3 * 4) + 1"

text \<open>The indices into \<open>basis_64\<close> for one group of three characters.\<close>

definition enc0 :: "char \<Rightarrow> int" where
  "enc0 a = drop_bit 2 (schar a) AND 0x3F"

definition enc1 :: "char \<Rightarrow> char \<Rightarrow> int" where
  "enc1 a b = push_bit 4 (schar a AND 0x3) OR drop_bit 4 (schar b AND 0xF0)"

definition enc2 :: "char \<Rightarrow> char \<Rightarrow> int" where
  "enc2 b c = push_bit 2 (schar b AND 0xF) OR drop_bit 6 (schar c AND 0xC0)"

definition enc3 :: "char \<Rightarrow> int" where
  "enc3 c = schar c AND 0x3F"

text \<open>The characters written from index \<open>i\<close> of the input on, without the final NUL.\<close>

function encode_from :: "bytes \<Rightarrow> int \<Rightarrow> nat \<Rightarrow> string option" where
  "encode_from s len i =
     (if int i < len - 2
      then do {
        a \<leftarrow> arr_get s i; b \<leftarrow> arr_get s (i + 1); c \<leftarrow> arr_get s (i + 2);
        w \<leftarrow> basis_at (enc0 a); x \<leftarrow> basis_at (enc1 a b);
        y \<leftarrow> basis_at (enc2 b c); z \<leftarrow> basis_at (enc3 c);
        r \<leftarrow> encode_from s len (i + 3);
        Some (w # x # y # z # r)
      }
      else if int i < len
      then do {
        a \<leftarrow> arr_get s i;
        w \<leftarrow> basis_at (enc0 a);
        if int i = len - 1
        then do {
          x \<leftarrow> basis_at (push_bit 4 (schar a AND 0x3));
          Some [w, x, CHR ''='', CHR ''='']
        }
        else do {
          b \<leftarrow> arr_get s (i + 1);
          x \<leftarrow> basis_at (enc1 a b);
          y \<leftarrow> basis_at (push_bit 2 (schar b AND 0xF));
          Some [w, x, y, CHR ''='']
        }
      }
      else Some [])"
  by pat_completeness auto
termination
  by (relation "measure (\<lambda>(_, len, i). nat (len - int i))") auto

declare encode_from.simps [simp del]

text \<open>Consecutive stores from the start of a buffer.\<close>

definition write_all :: "bytes \<Rightarrow> bytes \<Rightarrow> bytes option" where
  "write_all b w = (if length w \<le> length b then Some (w @ drop (length w) b) else None)"

definition Base64encode :: "bytes \<Rightarrow> bytes \<Rightarrow> int \<Rightarrow> (int \<times> bytes) option" where
  "Base64encode encoded s len = do {
     w \<leftarrow> encode_from s len 0;
     b \<leftarrow> write_all encoded (w @ [NUL]);
     Some (int (length w) + 1, b)
   }"

section \<open>The bits of one group\<close>

lemma masks: "(0x3F :: int) = mask 6" "(0x3 :: int) = mask 2" "(0xF :: int) = mask 4"
  "(0xF0 :: int) = push_bit 4 (mask 4)" "(0xC0 :: int) = push_bit 6 (mask 2)"
  by (simp_all add: mask_eq_exp_minus_1 push_bit_eq_mult)

lemma uchar_take: "take_bit 8 (uchar c) = uchar c"
  by (simp add: uchar_def take_bit_eq_mod)

lemma schar_take: "schar c = signed_take_bit 7 (int (uchar c))"
proof -
  have "(of_char c :: 8 word) = of_int (of_char c)" by (rule of_int_of_char [symmetric])
  moreover have "int (uchar c) = of_char c" unfolding uchar_def by (rule of_nat_of_char)
  ultimately show ?thesis by (simp add: schar_def  sint_sbintrunc')
qed

lemma of_byte_of: "(of_char (byte_of k) :: nat) = take_bit 8 k"
proof -
  have "(0xFF :: nat) = mask 8" by (simp add: mask_eq_exp_minus_1)
  then have "k AND 0xFF = take_bit 8 k" by (simp only: take_bit_eq_mask)
  then show ?thesis by (simp add: byte_of_def  take_bit_eq_mod)
qed

lemma byte_ofI: "take_bit 8 (int k) = int (uchar c) \<Longrightarrow> byte_of k = c"
  unfolding uchar_def of_byte_of [symmetric] of_nat_take_bit [symmetric] by simp 

lemma less_8: "n < 8 \<longleftrightarrow> n \<in> {0, 1, 2, 3, 4, 5, 6, 7 :: nat}"
  by auto

lemma bit_schar: "n < 8 \<Longrightarrow> bit (schar c) n = bit (uchar c) n"
  by (auto simp: less_8 schar_take bit_simps min_def)

lemma bit_uchar: "bit (uchar c) n \<Longrightarrow> n < 8"
  using uchar_take [of c] by (metis bit_take_bit_iff)

lemma enc_bits:
  "enc0 a = take_bit 6 (drop_bit 2 (schar a))"
  "enc1 a b = push_bit 4 (take_bit 2 (schar a)) OR take_bit 4 (drop_bit 4 (schar b))"
  "enc2 b c = push_bit 2 (take_bit 4 (schar b)) OR take_bit 2 (drop_bit 6 (schar c))"
  "enc3 c = take_bit 6 (schar c)"
  unfolding enc0_def enc1_def enc2_def enc3_def masks
  by (rule bit_eqI; auto simp: bit_simps)+

lemma enc_range:
  "take_bit 6 (enc0 a) = enc0 a" "take_bit 6 (enc1 a b) = enc1 a b" "take_bit 6 (enc2 b c) = enc2 b c" "take_bit 6 (enc3 c) = enc3 c"
  unfolding enc_bits by (rule bit_eqI; auto simp: bit_simps)+


lemma take_bit_8I: "(\<And>n. n < 8 \<Longrightarrow> bit x n = bit (uchar c) n) \<Longrightarrow> take_bit 8 x = int (uchar c)" for x :: int
  by (rule bit_eqI) (auto simp: bit_simps dest: bit_uchar)

lemma decode_enc:
  "take_bit 8 (push_bit 2 (enc0 a) OR drop_bit 4 (enc1 a b)) = int (uchar a)"
  "take_bit 8 (push_bit 4 (enc1 a b) OR drop_bit 2 (enc2 b c)) = int (uchar b)"
  "take_bit 8 (push_bit 6 (enc2 b c) OR enc3 c) = int (uchar c)"
  unfolding enc_bits by (rule take_bit_8I; auto simp: less_8 bit_simps bit_schar numeral_2_eq_2 [symmetric] numeral_3_eq_3 [symmetric])+


section \<open>The alphabet\<close>

definition is_b64 :: "char \<Rightarrow> bool" where
  "is_b64 c \<longleftrightarrow> six c \<le> 63"

lemma alphabet_list: "map six basis_64 = [0..<64]"
  unfolding six_def basis_64_def uchar_def by (simp add: pr2six_def upt_rec)

lemma alphabet: "i < 64 \<Longrightarrow> six (basis_64 ! i) = i"
proof -
  assume i: "i < 64"
  have "length basis_64 = 64" by (simp add: basis_64_def)
  with i have "six (basis_64 ! i) = map six basis_64 ! i" by simp
  also have "\<dots> = i" using i by (simp only: alphabet_list nth_upt add_0)
  finally show ?thesis .
qed

lemma not_alphabet: "\<not> is_b64 NUL" "\<not> is_b64 (CHR ''='')" "\<not> is_b64 (CHR '' '')"
  unfolding is_b64_def six_def uchar_def by (simp_all add: pr2six_def)

lemma basis_at:
  assumes "take_bit 6 k = k"
  shows "\<exists>w. basis_at k = Some w \<and> is_b64 w \<and> int (six w) = k"
proof -
  have "0 \<le> take_bit 6 k" "take_bit 6 k < 2 ^ 6" by simp (rule take_bit_int_less_exp)
  with assms have k: "0 \<le> k" "k < 64" by simp_all
  then have "nat k < length basis_64" by (simp add: basis_64_def)
  with k alphabet [of "nat k"] show ?thesis by (simp add: basis_at_def is_b64_def)
qed

definition digit64 :: "int \<Rightarrow> char" where
  "digit64 k = basis_64 ! nat k"

lemma digit64:
  assumes "take_bit 6 k = k"
  shows "basis_at k = Some (digit64 k)" "is_b64 (digit64 k)" "int (six (digit64 k)) = k"
  using basis_at [OF assms] by (auto simp: basis_at_def digit64_def arr_get_def split: if_splits)

text \<open>The encoding of a byte list; a missing byte counts as the character 0.\<close>

fun b64 :: "bytes \<Rightarrow> string" where
  "b64 (a # b # c # r) = digit64 (enc0 a) # digit64 (enc1 a b) # digit64 (enc2 b c) # digit64 (enc3 c) # b64 r"
| "b64 [a, b] = [digit64 (enc0 a), digit64 (enc1 a b), digit64 (enc2 b NUL), CHR ''='']"
| "b64 [a] = [digit64 (enc0 a), digit64 (enc1 a NUL), CHR ''='', CHR ''='']"
| "b64 [] = []"

lemma schar_NUL [simp]: "schar NUL = 0"
  by (simp add: schar_def)

lemma enc_last: "push_bit 4 (schar a AND 0x3) = enc1 a NUL" "push_bit 2 (schar b AND 0xF) = enc2 b NUL"
  by (simp_all only: enc1_def enc2_def schar_NUL and_zero_eq zero_and_eq drop_bit_of_0 or.right_neutral)

lemma length_b64: "length (b64 s) = (length s + 2) div 3 * 4"
proof (induction s rule: b64.induct)
  case (1 a b c r)
  have "(length (a # b # c # r) + 2) div 3 = (length r + 2 + 3) div 3" by (simp only: list.size)
  also have "\<dots> = (length r + 2) div 3 + 1" by (rule div_add_self2) simp
  finally show ?case using 1 by simp
qed simp_all

lemma b64_chars: "x \<in> set (b64 s) \<Longrightarrow> is_b64 x \<or> x = CHR ''=''"
  by (induction s rule: b64.induct) (auto simp: digit64 enc_range)

lemma encode_from_b64:
  assumes "len \<le> int (length s)"
  shows "encode_from s len i = Some (b64 (take (nat len - i) (drop i s)))"
  using assms
proof (induction s len i rule: encode_from.induct)
  case (1 s len i)
  consider (more) "int i < len - 2" | (two) "int i = len - 2" | (one) "int i = len - 1" | (none) "len \<le> int i"
    by linarith
  then show ?case
  proof cases
    case more
    then have "drop i s = s ! i # s ! (i + 1) # s ! (i + 2) # drop (i + 3) s"
      using 1(2) by (simp add: Cons_nth_drop_Suc [symmetric] eval_nat_numeral)
    moreover from more have "nat len - i = Suc (Suc (Suc (nat len - (i + 3))))" by linarith
    moreover from more 1(2) have i: "i < length s" "i + 1 < length s" "i + 2 < length s" by linarith+
    moreover have "encode_from s len (i + 3) = Some (b64 (take (nat len - (i + 3)) (drop (i + 3) s)))"
      by (rule "1.IH" [OF more]) (use i more in \<open>simp_all add: digit64 enc_range 1(2)\<close>)
    ultimately show ?thesis
      using more by (subst encode_from.simps) (simp add: digit64 enc_range)
  next
    case two
    then have "drop i s = s ! i # s ! (i + 1) # drop (i + 2) s"
      using 1(2) by (simp add: Cons_nth_drop_Suc [symmetric] eval_nat_numeral)
    moreover from two have "nat len - i = Suc (Suc 0)" by linarith
    moreover from two 1(2) have "i < length s" "i + 1 < length s" by linarith+
    ultimately show ?thesis
      using two by (subst encode_from.simps) (simp add: digit64 enc_range enc_last del: push_bit_and)
  next
    case one
    then have "drop i s = s ! i # drop (i + 1) s"
      using 1(2) by (simp add: Cons_nth_drop_Suc)
    moreover from one have "nat len - i = Suc 0" by linarith
    moreover from one 1(2) have "i < length s" by linarith
    ultimately show ?thesis
      using one by (subst encode_from.simps) (simp add: digit64 enc_range enc_last del: push_bit_and)
  next
    case none
    then show ?thesis by (subst encode_from.simps) simp
  qed
qed

lemma Base64encode_result:
  assumes "0 \<le> len" and "len \<le> int (length s)"
  shows "Base64encode dst s len =
    map_option (\<lambda>b. (Base64encode_len len, b)) (write_all dst (b64 (take (nat len) s) @ [NUL]))"
proof -
  have "int (length (b64 (take (nat len) s))) + 1 = Base64encode_len len"
    using assms by (simp add: length_b64 Base64encode_len_def min_absorb2 zdiv_int ac_simps)
  then show ?thesis
    using assms by (simp add: Base64encode_def encode_from_b64 map_option_case split: option.splits)
qed

section \<open>Decoding\<close>

definition pad :: "string \<Rightarrow> bool" where
  "pad w \<longleftrightarrow> (\<exists>c r. w = c # r \<and> \<not> is_b64 c)"

lemma scan_six_append: "\<forall>x \<in> set w. is_b64 x \<Longrightarrow> pad r \<Longrightarrow> scan_six (w @ r) = Some (length w)"
  by (induction w) (auto simp: pad_def is_b64_def)

lemma scan_six_length: "scan_six b = Some n \<Longrightarrow> n < length b"
  by (induction b arbitrary: n) (auto split: if_splits)

lemma scan_six_cstr: "cstr b = Some s \<Longrightarrow> \<exists>n \<le> length s. scan_six b = Some n"
proof (erule cstr_split)
  show "\<exists>n \<le> length s. scan_six b = Some n" if "b = s @ NUL # r" for r
    unfolding that using not_alphabet(1) by (induction s) (auto simp: is_b64_def)
qed

text \<open>A group of four decodes to the three characters it encodes.\<close>

lemma dec_enc:
  "byte_of (push_bit 2 (six (digit64 (enc0 a))) OR drop_bit 4 (six (digit64 (enc1 a b)))) = a"
  "byte_of (push_bit 4 (six (digit64 (enc1 a b))) OR drop_bit 2 (six (digit64 (enc2 b c)))) = b"
  "byte_of (push_bit 6 (six (digit64 (enc2 b c))) OR six (digit64 (enc3 c))) = c"
  by (rule byte_ofI; simp only: digit64 enc_range decode_enc of_nat_or_eq of_nat_push_bit of_nat_drop_bit)+

text \<open>The bytes the decoder stores before the NUL, for \<open>n\<close> alphabet characters.\<close>

function decoded :: "bytes \<Rightarrow> nat \<Rightarrow> bytes" where
  "decoded b n =
     (let group = [the (dec0 b), the (dec1 b), the (dec2 b)] in
      if n > 4 then group @ decoded (drop 4 b) (n - 4) else take (n - 1) group)"
  by pat_completeness auto
termination
  by (relation "measure snd") auto

declare decoded.simps [simp del]

lemma length_decoded: "length (decoded b n) = 3 * ((n - 1) div 4) + (n - 1) mod 4"
proof (induction b n rule: decoded.induct)
  case (1 b n)
  show ?case
  proof (cases "n > 4")
    case True
    then obtain m where m: "n = m + 5" by (intro that [of "n - 5"]) simp
    have div: "(m + 4) div 4 = m div 4 + 1" by (rule div_add_self2) simp
    have "length (decoded b n) = 3 + length (decoded (drop 4 b) (n - 4))"
      using True by (subst decoded.simps) (simp add: Let_def)
    also have "\<dots> = 3 * ((m + 4) div 4) + (m + 4) mod 4"
      using "1.IH" [OF refl True] m by (simp add: div)
    finally show ?thesis using m by simp
  next
    case False
    then have "n - 1 < 4" by simp
    with False show ?thesis by (subst decoded.simps) (simp add: Let_def min_def)
  qed
qed

lemma dec_in:
  "1 < length b \<Longrightarrow> \<exists>x. dec0 b = Some x" "2 < length b \<Longrightarrow> \<exists>x. dec1 b = Some x"
  "3 < length b \<Longrightarrow> \<exists>x. dec2 b = Some x"
  by (auto simp: dec0_def dec1_def dec2_def arr_get_def)

lemma decode_loop_emits:
  "n \<le> length b \<Longrightarrow> decode_loop b n out = mfold emit (decoded b n @ [NUL]) out"
proof (induction b n out rule: decode_loop.induct)
  case (1 b n out)
  show ?case
  proof (cases "n > 4")
    case True
    with 1(2) obtain x y z where d: "dec0 b = Some x" "dec1 b = Some y" "dec2 b = Some z"
      using dec_in [of b] by auto
    have "decode_loop (drop 4 b) (n - 4) o3 = mfold emit (decoded (drop 4 b) (n - 4) @ [NUL]) o3"
      if "emit x out = Some o1" "emit y o1 = Some o2" "emit z o2 = Some o3" for o1 o2 o3
      using that d 1(2) True by (intro "1.IH" [OF True]) auto
    with d True show ?thesis
      by (subst decode_loop.simps, subst decoded.simps) (simp add: Let_def split: option.split bind_split)
  next
    case False
    then have "n = 0 \<or> n = 1 \<or> n = 2 \<or> n = 3 \<or> n = 4" by linarith
    with 1(2) dec_in [of b] show ?thesis
      by (subst decode_loop.simps, subst decoded.simps)
        (auto simp: Let_def split: option.split bind_split)
  qed
qed

lemma mfold_emit:
  "mfold emit cs (b, i) =
     (if cs = [] \<or> i + length cs \<le> length b
      then Some (take i b @ cs @ drop (i + length cs) b, i + length cs) else None)"
proof (induction cs arbitrary: b i)
  case (Cons c cs)
  show ?case
  proof (cases "i < length b")
    case True
    then have "take (Suc i) (b[i := c]) = take i b @ [c]"
      by (simp add: take_Suc_conv_app_nth take_update_swap list_update_append)
    with True Cons show ?thesis by (auto simp: emit_def put_byte_def)
  qed (simp add: emit_def put_byte_def)
qed simp

lemma and_3: "(4 - int n) AND 3 = (4 - int n) mod 4"
proof -
  have "(3 :: int) = mask 2" by (simp add: mask_eq_exp_minus_1)
  then have "(4 - int n) AND 3 = take_bit 2 (4 - int n)" by (simp only: take_bit_eq_mask)
  then show ?thesis by (simp add: take_bit_eq_mod)
qed

lemma decoded_size: "(int n + 3) div 4 * 3 - ((4 - int n) AND 3) = int (length (decoded b n))"
proof (cases n)
  case 0
  then show ?thesis by (simp add: length_decoded)
next
  case (Suc m)
  define q r where "q = int m div 4" and "r = int m mod 4"
  then have m: "int m = 4 * q + r" and r: "0 \<le> r" "r < 4" by simp_all
  have "4 - int (Suc m) = 3 - r + (- q) * 4" using m by simp
  then have "(4 - int (Suc m)) mod 4 = (3 - r + (- q) * 4) mod 4" by (simp only:)
  also have "\<dots> = (3 - r) mod 4" by (rule mod_mult_self1)
  also have "\<dots> = 3 - r" using r by (intro mod_pos_pos_trivial) simp_all
  finally have low: "(4 - int (Suc m)) mod 4 = 3 - r" .
  have "(int (Suc m) + 3) div 4 = (int m + 4) div 4" by simp
  also have "\<dots> = q + 1" unfolding q_def by (rule div_add_self2) simp
  finally have "(int (Suc m) + 3) div 4 = q + 1" .
  with low show ?thesis
    unfolding Suc and_3 length_decoded low
    by (simp add: zdiv_int zmod_int q_def r_def del: of_nat_Suc)
qed

lemma decoded_le: "length (decoded b n) \<le> (n + 3) div 4 * 3"
proof -
  have "int (length (decoded b n)) \<le> (int n + 3) div 4 * 3"
    using decoded_size [of n b] by (simp add: and_3 pos_mod_sign)
  also have "\<dots> = int ((n + 3) div 4 * 3)" by (simp add: zdiv_int)
  finally show ?thesis by (simp only: of_nat_le_iff)
qed

text \<open>The outcome of the decoder: it stores the decoded bytes and a NUL, if they fit.\<close>

lemma Base64decode_result:
  assumes "scan_six coded = Some n"
  shows "Base64decode plain coded = map_option (\<lambda>b. (int (length (decoded coded n)), b))
    (write_all plain (decoded coded n @ [NUL]))"
  using assms scan_six_length [OF assms] decoded_size [of n coded]
  by (simp add: Base64decode_def decode_loop_emits mfold_emit write_all_def)

text \<open>The alphabet characters in the encoding of \<open>k\<close> bytes.\<close>

fun digits :: "nat \<Rightarrow> nat" where
  "digits (Suc (Suc (Suc k))) = 4 + digits k"
| "digits (Suc (Suc 0)) = 3"
| "digits (Suc 0) = 2"
| "digits 0 = 0"

lemma scan_b64: "pad r \<Longrightarrow> scan_six (b64 s @ r) = Some (digits (length s))"
  using not_alphabet(2)
  by (induction s rule: b64.induct) (auto simp: digit64 enc_range pad_def is_b64_def [symmetric])

lemma decoded_b64: "decoded (b64 s @ r) (digits (length s)) = s"
proof (induction s rule: b64.induct)
  case (1 a b c s)
  note d = dec_enc(1) [of a b] dec_enc(2) [of a b c] dec_enc(3) [of b c]
  show ?case
  proof (cases "digits (length s) = 0")
    case True
    then have "s = []" by (cases s rule: b64.cases) auto
    then show ?thesis using d by (subst decoded.simps) (simp add: dec0_def dec1_def dec2_def)
  next
    case False
    then show ?thesis using d 1 by (subst decoded.simps) (simp add: dec0_def dec1_def dec2_def)
  qed
next
  case (2 a b)
  show ?case using dec_enc(1) [of a b] dec_enc(2) [of a b NUL]
    by (subst decoded.simps) (simp add: dec0_def dec1_def)
next
  case (3 a)
  show ?case using dec_enc(1) [of a NUL] by (subst decoded.simps) (simp add: dec0_def)
qed (subst decoded.simps, simp)

lemma Base64decode_b64:
  assumes "pad r"
  shows "Base64decode plain (b64 s @ r) =
    map_option (\<lambda>b. (int (length s), b)) (write_all plain (s @ [NUL]))"
  using Base64decode_result [OF scan_b64 [OF assms]] by (simp add: decoded_b64)

lemma encode_from_overread:
  "int (length s) < len \<Longrightarrow> i \<le> length s \<Longrightarrow> encode_from s len i = None"
proof (induction s len i rule: encode_from.induct)
  case (1 s len i)
  consider (past) "i = length s" | (one) "i + 1 = length s" | (two) "i + 2 = length s"
    | (more) "i + 3 \<le> length s" using 1(3) by linarith
  then show ?case
  proof cases
    case more
    then have "int i < len - 2" using 1(2) by linarith
    from "1.IH" [OF this _ _ _ _ _ _ _ 1(2) more] more this show ?thesis
      by (subst encode_from.simps) (simp add: digit64 enc_range)
  qed (use 1(2) in \<open>subst encode_from.simps, auto split: bind_split\<close>)+
qed

lemma encoded_text:
  "cstr (b64 s @ NUL # r) = Some (b64 s)" "Base64decode_len (b64 s @ NUL # r) =
     Some ((int (digits (length s)) + 3) div 4 * 3 + 1)"
proof -
  have "NUL \<notin> set (b64 s)" using b64_chars not_alphabet(1) by force
  then show "cstr (b64 s @ NUL # r) = Some (b64 s)" by simp
  have "pad (NUL # r)" using not_alphabet(1) by (simp add: pad_def)
  then show "Base64decode_len (b64 s @ NUL # r) = Some ((int (digits (length s)) + 3) div 4 * 3 + 1)"
    by (simp add: Base64decode_len_def scan_b64)
qed

lemma digits_size: "int k \<le> (int (digits k) + 3) div 4 * 3"
proof (induction k rule: digits.induct)
  case (1 k)
  have "(int (digits k) + 3 + 4) div 4 = (int (digits k) + 3) div 4 + 1" by (rule div_add_self2) simp
  with 1 show ?case by (simp add: ac_simps)
qed simp_all

lemma write_all_frame:
  "length w \<le> length dst \<Longrightarrow> length (w @ drop (length w) dst) = length dst \<and>
     drop (length w) (w @ drop (length w) dst) = drop (length w) dst"
  by simp

section \<open>The interface of the codec\<close>

text \<open>
  What the messages and the keys rely on: the C functions of a codec from bytes to text without NUL
  and blank, on buffers of the caller. \<open>coded\<close> is the text of the bytes.
\<close>

locale text_codec =
  fixes coded :: "bytes \<Rightarrow> string"
    and enc_len :: "int \<Rightarrow> int"
    and enc :: "bytes \<Rightarrow> bytes \<Rightarrow> int \<Rightarrow> (int \<times> bytes) option"
    and dec_len :: "bytes \<Rightarrow> int option"
    and dec :: "bytes \<Rightarrow> bytes \<Rightarrow> (int \<times> bytes) option"
  assumes enc_len: "enc_len (int (length w)) = int (length (coded w)) + 1"
    and no_NUL: "NUL \<notin> set (coded w)"
    and no_blank: "CHR '' '' \<notin> set (coded w)"
    and not_empty: "w \<noteq> [] \<Longrightarrow> coded w \<noteq> []"
    and enc: "w = take (length w) s \<Longrightarrow> length (coded w) < length dst \<Longrightarrow>
      \<exists>r. enc dst s (int (length w)) = Some (int (length (coded w)) + 1, coded w @ NUL # r) \<and>
        length (coded w @ NUL # r) = length dst"
    and dec_len: "\<exists>k. dec_len (coded w @ [NUL]) = Some k \<and> int (length w) < k"
    and dec: "length w < length plain \<Longrightarrow>
      \<exists>r. dec plain (coded w @ [NUL]) = Some (int (length w), w @ NUL # r) \<and>
        length (w @ NUL # r) = length plain"
begin

lemma encode_fits:
  assumes "w = take (length w) s" and "length (coded w) < length dst"
  shows "\<exists>b. enc dst s (int (length w)) = Some (int (length (coded w)) + 1, b) \<and> cstr b = Some (coded w) \<and>
    length b = length dst"
proof -
  from enc [OF assms] obtain r where r: "enc dst s (int (length w)) = Some (int (length (coded w)) + 1, coded w @ NUL # r)"
    "length (coded w @ NUL # r) = length dst" by blast
  have "cstr (coded w @ NUL # r) = Some (coded w)" using no_NUL by (rule cstr_append)
  with r show ?thesis by blast
qed

text \<open>Decoding into a block of the size that the codec asks for.\<close>

lemma decode_word:
  assumes mem: "\<forall>n. n \<le> length (mem n)"
  shows "\<exists>k blk. dec_len (coded w @ [NUL]) = Some k \<and> dec (mem (nat k)) (coded w @ [NUL]) = Some (int (length w), blk) \<and>
    w = take (length w) blk \<and> length w < length blk"
proof -
  from dec_len obtain k where k: "dec_len (coded w @ [NUL]) = Some k" "int (length w) < k" by blast
  moreover have "nat k \<le> length (mem (nat k))" using mem by blast
  ultimately have "length w < length (mem (nat k))" by linarith
  from dec [OF this] obtain r where "dec (mem (nat k)) (coded w @ [NUL]) = Some (int (length w), w @ NUL # r)"
    by blast
  with k(1) show ?thesis by (intro exI [of _ k] exI [of _ "w @ NUL # r"]) simp
qed

text \<open>Texts separated by blanks are the words that \<open>strtok\<close> finds.\<close>

lemma next_word: "w \<noteq> [] \<Longrightarrow> strtok (CHR '' '') (coded w @ CHR '' '' # r) = Some (coded w, r)"
  by (rule strtok_append [OF not_empty no_blank])

lemma last_word: "w \<noteq> [] \<Longrightarrow> strtok (CHR '' '') (coded w) = Some (coded w, [])"
  by (rule strtok_word [OF not_empty no_blank])

text \<open>Different bytes have different texts.\<close>

lemma coded_inject: "coded v = coded w \<longleftrightarrow> v = w"
proof
  assume eq: "coded v = coded w"
  have blk: "length v < length (replicate (length v + length w + 1) NUL)"
    "length w < length (replicate (length v + length w + 1) NUL)" by simp_all
  from dec [OF blk(1)] dec [OF blk(2)] show "v = w" unfolding eq by auto
qed simp

end

interpretation cdc: text_codec b64 Base64encode_len Base64encode Base64decode_len Base64decode
proof
  fix w s dst plain :: bytes
  show len: "Base64encode_len (int (length w)) = int (length (b64 w)) + 1"
    by (simp add: length_b64 Base64encode_len_def zdiv_int ac_simps)
  show "NUL \<notin> set (b64 w)" "CHR '' '' \<notin> set (b64 w)" using b64_chars not_alphabet by force+
  show "w \<noteq> [] \<Longrightarrow> b64 w \<noteq> []" by (cases w rule: b64.cases) auto
  show "\<exists>k. Base64decode_len (b64 w @ [NUL]) = Some k \<and> int (length w) < k"
    using digits_size [of "length w"] encoded_text(2) [of w "[]"] by simp
  have "pad [NUL]" using not_alphabet(1) by (simp add: pad_def)
  from Base64decode_b64 [OF this, of plain w]
  show "length w < length plain \<Longrightarrow> \<exists>r. Base64decode plain (b64 w @ [NUL]) = Some (int (length w), w @ NUL # r) \<and>
      length (w @ NUL # r) = length plain"
    by (intro exI [of _ "drop (length w + 1) plain"]) (simp add: write_all_def)
  assume w: "w = take (length w) s" and "length (b64 w) < length dst"
  from w have "length w \<le> length s" by (metis length_take min.cobounded1)
  with w Base64encode_result [of "int (length w)" s dst] \<open>length (b64 w) < length dst\<close>
  show "\<exists>r. Base64encode dst s (int (length w)) = Some (int (length (b64 w)) + 1, b64 w @ NUL # r) \<and>
      length (b64 w @ NUL # r) = length dst"
    by (intro exI [of _ "drop (length (b64 w) + 1) dst"]) (simp add: write_all_def len)
qed

section \<open>Properties\<close>

text \<open>
  \<open>Base64encode\<close> on \<open>len\<close> bytes faults exactly when the input has fewer bytes or the output
  buffer fewer than \<open>Base64encode_len(len)\<close>; otherwise it returns that number, the bytes written.
\<close>

lemma base64_encode_outcome:
  assumes "0 \<le> len"
  shows "if len \<le> int (length s) \<and> Base64encode_len len \<le> int (length dst)
    then \<exists>b. Base64encode dst s len = Some (Base64encode_len len, b) \<and> length b = length dst \<and>
      drop (nat (Base64encode_len len)) b = drop (nat (Base64encode_len len)) dst
    else Base64encode dst s len = None"
proof (cases "len \<le> int (length s)")
  case True
  let ?w = "b64 (take (nat len) s) @ [NUL]"
  have "int (length ?w) = Base64encode_len len"
    using assms True by (simp add: length_b64 Base64encode_len_def min_absorb2 zdiv_int ac_simps)
  then have len: "Base64encode_len len = int (length ?w)" by simp
  show ?thesis
    unfolding Base64encode_result [OF assms True] len nat_int
    using True write_all_frame [of ?w dst]
    by (simp only: write_all_def if_True if_False of_nat_le_iff split: if_split) blast
next
  case False
  then show ?thesis by (simp add: Base64encode_def encode_from_overread)
qed

text \<open>
  C33: on every terminated input string, base64 or not, \<open>Base64decode_len\<close> returns, and
  \<open>Base64decode\<close> into any block of at least that size returns a count below it and writes only the
  counted bytes and a NUL behind them.
\<close>

theorem base64_decode_bounds:
  assumes "cstr coded = Some t"
  shows "\<exists>k. Base64decode_len coded = Some k \<and> (\<forall>plain. k \<le> int (length plain) \<longrightarrow>
    (\<exists>r b. Base64decode plain coded = Some (r, b) \<and> 0 \<le> r \<and> r < k \<and> length b = length plain \<and>
       b ! nat r = NUL \<and> drop (nat r + 1) b = drop (nat r + 1) plain))"
proof -
  from scan_six_cstr [OF assms] obtain n where n: "scan_six coded = Some n" by blast
  let ?d = "decoded coded n" and ?k = "(int n + 3) div 4 * 3 + 1"
  have "int (length ?d) \<le> int ((n + 3) div 4 * 3)" unfolding of_nat_le_iff by (rule decoded_le)
  then have d: "int (length ?d) < ?k" by (simp add: zdiv_int)
  show ?thesis
  proof (rule exI [of _ ?k], intro conjI allI impI)
    fix plain :: bytes
    assume "?k \<le> int (length plain)"
    with d have "length (?d @ [NUL]) \<le> length plain" by simp
    then show "\<exists>r b. Base64decode plain coded = Some (r, b) \<and> 0 \<le> r \<and> r < ?k \<and>
        length b = length plain \<and> b ! nat r = NUL \<and> drop (nat r + 1) b = drop (nat r + 1) plain"
      using d by (simp add: Base64decode_result [OF n] write_all_def nth_append)
  qed (simp add: Base64decode_len_def n)
qed

theorem base64_decode_bounds_witness:
  "\<exists>r b. Base64decode (replicate 4 NUL) (''ab!*'' @ [NUL]) = Some (r, b) \<and> r < 4"
proof -
  let ?in = "''ab!*'' @ [NUL]"
  have "cstr ?in = Some ''ab!*''" by (simp add: cstr_def)
  moreover have "Base64decode_len ?in = Some 4"
    by (simp add: Base64decode_len_def six_def uchar_def pr2six_def)
  ultimately have "4 \<le> int (length (replicate 4 NUL)) \<longrightarrow> (\<exists>r b. Base64decode (replicate 4 NUL) ?in = Some (r, b) \<and> r < 4)"
    using base64_decode_bounds [of ?in "''ab!*''"] by (metis option.inject)
  then show ?thesis by simp
qed

text \<open>
  C5: decoding inverts encoding: what \<open>Base64encode\<close> leaves in its buffer is a terminated string,
  and decoding it, into a block of the size \<open>Base64decode_len\<close> computes for it, returns the number
  of bytes encoded and exactly those bytes, with a NUL behind them. All byte values are allowed.
\<close>

theorem base64_roundtrip:
  assumes "0 \<le> len" and "len \<le> int (length s)" and "Base64encode dst s len = Some (n, coded)"
    and "Base64decode_len coded = Some k" and "k \<le> int (length plain)"
  shows "\<exists>b. Base64decode plain coded = Some (len, b) \<and> take (nat len) b = take (nat len) s \<and>
    b ! nat len = NUL \<and> cstr coded \<noteq> None"
proof -
  let ?s = "take (nat len) s"
  have l: "length ?s = nat len" using assms(1,2) by simp
  from assms(3) obtain r where c: "coded = b64 ?s @ NUL # r"
    unfolding Base64encode_result [OF assms(1,2)] by (auto simp: write_all_def split: if_splits)
  have "pad (NUL # r)" using not_alphabet(1) by (simp add: pad_def)
  note dec = Base64decode_b64 [OF this, of plain ?s]
  have "int (nat len) < k"
    using assms(4) digits_size [of "nat len"] l unfolding c encoded_text(2) by simp
  with assms(5) have "Suc (nat len) \<le> length plain" by linarith
  with l have "length (?s @ [NUL]) \<le> length plain" by simp
  then show ?thesis
    unfolding c encoded_text(1) dec using assms(1) l
    by (simp add: write_all_def nth_append del: length_take take_take)
qed

theorem base64_roundtrip_witness:
  "\<exists>n coded. Base64encode (replicate 13 NUL) [CHR 0xFF, NUL, CHR 0x80, CHR ''a''] 4 = Some (n, coded) \<and>
     (\<exists>b. Base64decode (replicate 7 NUL) coded = Some (4, b) \<and>
       take 4 b = [CHR 0xFF, NUL, CHR 0x80, CHR ''a''])"
proof -
  let ?s = "[CHR 0xFF, NUL, CHR 0x80, CHR ''a'']"
  obtain r where e: "Base64encode (replicate 13 NUL) ?s 4 = Some (9, b64 ?s @ NUL # r)"
    using Base64encode_result [of 4 ?s "replicate 13 NUL"]
    by (auto simp: write_all_def Base64encode_len_def)
  have "Base64decode_len (b64 ?s @ NUL # r) = Some 7"
    unfolding encoded_text by (simp add: eval_nat_numeral)
  from base64_roundtrip [OF _ _ e this, of "replicate 7 NUL"] e show ?thesis by auto
qed

end
