(* ===== verification/Enc.thy ===== *)
theory Enc
  imports Base64
begin

text \<open>
  Encryption of messages (\<open>ac-lib/enc.c\<close> and the struct \<open>_message_encrypted\<close> of \<open>ac-lib/msg.h\<close>):
  sealing a message with OpenSSL's EVP functions, its text form of three base64 words, and the way
  back.

  OpenSSL is a parameter: a record \<open>evp\<close> of the EVP functions the code calls, on an abstract type
  of cipher contexts. Each returns the C result code with what it writes. \<open>evp_ok\<close> states the
  documented behaviour for a key pair: what is opened with the private key is what was sealed with
  the public key, and sealing \<open>n\<close> bytes with AES-CBC gives \<open>16 * (n div 16 + 1)\<close> bytes.
  \<open>mem n\<close> is the block that \<open>malloc(n)\<close> returns; it may be larger than \<open>n\<close>, and accesses inside
  the real block do no harm. An allocation that fails is not modelled. An outer \<open>None\<close> is a memory
  fault, an inner \<open>None\<close> the NULL result.
\<close>

section \<open>The code\<close>

record message_encrypted =
  encrypted_msg :: bytes
  encrypted_key :: bytes
  init_vector :: bytes
  encrypted_msg_len :: int
  encrypted_key_len :: int
  init_vector_len :: int

record ('c, 'pub, 'priv) evp =
  EVP_PKEY_size :: "'pub \<Rightarrow> nat"
  EVP_SealInit :: "'c \<Rightarrow> 'pub \<Rightarrow> int \<times> 'c \<times> bytes \<times> bytes"
  EVP_SealUpdate :: "'c \<Rightarrow> bytes \<Rightarrow> int \<times> 'c \<times> bytes"
  EVP_SealFinal :: "'c \<Rightarrow> int \<times> 'c \<times> bytes"
  EVP_OpenInit :: "'c \<Rightarrow> bytes \<Rightarrow> bytes \<Rightarrow> 'priv \<Rightarrow> int \<times> 'c"
  EVP_OpenUpdate :: "'c \<Rightarrow> bytes \<Rightarrow> int \<Rightarrow> int \<times> 'c \<times> bytes"
  EVP_OpenFinal :: "'c \<Rightarrow> int \<times> 'c \<times> bytes"
  EVP_CIPHER_CTX_cleanup :: "'c \<Rightarrow> 'c"

record 'c rsa_ctx =
  rsa_encrypt_ctx :: 'c
  rsa_decrypt_ctx :: 'c

definition EVP_MAX_IV_LENGTH :: nat where "EVP_MAX_IV_LENGTH = 16"

definition client_encrypt_msg ::
  "('c, 'pub, 'priv) evp \<Rightarrow> (nat \<Rightarrow> bytes) \<Rightarrow> 'c rsa_ctx \<Rightarrow> string \<Rightarrow> 'pub \<Rightarrow> message_encrypted
     \<Rightarrow> (int \<times> 'c rsa_ctx \<times> message_encrypted) option" where
  "client_encrypt_msg evp mem rsa_ctx msg public_key res = do {
     let msg_len = length msg + 1;
     let key_blk = mem (EVP_PKEY_size evp public_key);
     let iv_blk = mem EVP_MAX_IV_LENGTH;
     let msg_blk = mem (msg_len + EVP_MAX_IV_LENGTH);
     let (tmp, ctx, ek, iv) = EVP_SealInit evp (rsa_encrypt_ctx rsa_ctx) public_key;
     key_blk \<leftarrow> write_at key_blk 0 ek;
     iv_blk \<leftarrow> write_at iv_blk 0 iv;
     let res = res\<lparr>encrypted_key := key_blk, init_vector := iv_blk, encrypted_msg := msg_blk\<rparr>;
     if tmp = 0 then Some (2, rsa_ctx\<lparr>rsa_encrypt_ctx := ctx\<rparr>, res)
     else do {
       let (tmp, ctx, out) = EVP_SealUpdate evp ctx (msg @ [NUL]);
       msg_blk \<leftarrow> write_at msg_blk 0 out;
       let res = res\<lparr>encrypted_msg := msg_blk\<rparr>;
       if tmp = 0 then Some (3, rsa_ctx\<lparr>rsa_encrypt_ctx := ctx\<rparr>, res)
       else do {
         let msg_enc_len = length out;
         let (tmp, ctx, out) = EVP_SealFinal evp ctx;
         msg_blk \<leftarrow> write_at msg_blk msg_enc_len out;
         let res = res\<lparr>encrypted_msg := msg_blk\<rparr>;
         if tmp = 0 then Some (4, rsa_ctx\<lparr>rsa_encrypt_ctx := ctx\<rparr>, res)
         else Some (0, rsa_ctx\<lparr>rsa_encrypt_ctx := EVP_CIPHER_CTX_cleanup evp ctx\<rparr>,
           res\<lparr>encrypted_msg_len := int (msg_enc_len + length out),
               encrypted_key_len := int (length ek),
               init_vector_len := int EVP_MAX_IV_LENGTH\<rparr>)
       }
     }
   }"

text \<open>The caller sees the whole block; the length of the plaintext is not returned.\<close>

definition client_decrypt_msg ::
  "('c, 'pub, 'priv) evp \<Rightarrow> (nat \<Rightarrow> bytes) \<Rightarrow> 'c rsa_ctx \<Rightarrow> message_encrypted \<Rightarrow> 'priv
     \<Rightarrow> (bytes option \<times> 'c rsa_ctx) option" where
  "client_decrypt_msg evp mem rsa_ctx msg private_key = do {
     let n = nat (encrypted_msg_len msg + init_vector_len msg + 1);
     decrypted_msg \<leftarrow> zero_bytes (mem n) n;
     ek \<leftarrow> read_bytes (encrypted_key msg) (encrypted_key_len msg);
     iv \<leftarrow> read_bytes (init_vector msg) (int EVP_MAX_IV_LENGTH);
     let (res, ctx) = EVP_OpenInit evp (rsa_decrypt_ctx rsa_ctx) ek iv private_key;
     if res = 0 then Some (None, rsa_ctx\<lparr>rsa_decrypt_ctx := ctx\<rparr>)
     else do {
       c \<leftarrow> read_bytes (encrypted_msg msg) (encrypted_msg_len msg);
       let (res, ctx, out) = EVP_OpenUpdate evp ctx c (encrypted_msg_len msg);
       decrypted_msg \<leftarrow> write_at decrypted_msg 0 out;
       if res = 0 then Some (None, rsa_ctx\<lparr>rsa_decrypt_ctx := ctx\<rparr>)
       else do {
         let decrypt_len = length out;
         let (res, ctx, out) = EVP_OpenFinal evp ctx;
         decrypted_msg \<leftarrow> write_at decrypted_msg decrypt_len out;
         if res = 0 then Some (None, rsa_ctx\<lparr>rsa_decrypt_ctx := ctx\<rparr>)
         else Some (Some decrypted_msg,
           rsa_ctx\<lparr>rsa_decrypt_ctx := EVP_CIPHER_CTX_cleanup evp ctx\<rparr>)
       }
     }
   }"

text \<open>
  The first call of \<open>Base64encode\<close> encodes one byte more than the message has. The result is the
  returned length and the block that \<open>*dest\<close> points to.
\<close>

definition parse_encrypted_msg_str ::
  "(nat \<Rightarrow> bytes) \<Rightarrow> message_encrypted \<Rightarrow> (int \<times> bytes) option" where
  "parse_encrypted_msg_str mem m = do {
     let encoded_len = Base64encode_len (encrypted_msg_len m) + Base64encode_len (encrypted_key_len m)
       + Base64encode_len (init_vector_len m) + 3;
     let dest = mem (nat encoded_len);
     let tmp = mem (nat encoded_len);
     (len, tmp) \<leftarrow> Base64encode tmp (encrypted_msg m) (encrypted_msg_len m + 1);
     t \<leftarrow> cstr tmp;
     dest \<leftarrow> strncpy dest t (nat len);
     dest \<leftarrow> strncat dest '' '' 2;
     tmp \<leftarrow> zero_bytes tmp (nat encoded_len);
     (len, tmp) \<leftarrow> Base64encode tmp (encrypted_key m) (encrypted_key_len m);
     t \<leftarrow> cstr tmp;
     dest \<leftarrow> strncat dest t (nat (len + 1));
     dest \<leftarrow> strncat dest '' '' 2;
     tmp \<leftarrow> zero_bytes tmp (nat encoded_len);
     (len, tmp) \<leftarrow> Base64encode tmp (init_vector m) (init_vector_len m);
     t \<leftarrow> cstr tmp;
     dest \<leftarrow> strncat dest t (nat (len + 1));
     Some (encoded_len, dest)
   }"

text \<open>One base64 word: the next token of the rest of the string, decoded into a new block.\<close>

definition decode_token :: "(nat \<Rightarrow> bytes) \<Rightarrow> string \<Rightarrow> (int \<times> bytes \<times> string) option" where
  "decode_token mem s = do {
     (tok, rest) \<leftarrow> strtok (CHR '' '') s;
     len \<leftarrow> Base64decode_len (tok @ [NUL]);
     (n, blk) \<leftarrow> Base64decode (mem (nat len)) (tok @ [NUL]);
     Some (n, blk, rest)
   }"

definition parse_str_encrypted_msg ::
  "(nat \<Rightarrow> bytes) \<Rightarrow> string \<Rightarrow> message_encrypted \<Rightarrow> (int \<times> message_encrypted) option" where
  "parse_str_encrypted_msg mem msg res = do {
     (n, blk, rest) \<leftarrow> decode_token mem msg;
     let res = res\<lparr>encrypted_msg := blk, encrypted_msg_len := n\<rparr>;
     (n, blk, rest) \<leftarrow> decode_token mem rest;
     let res = res\<lparr>encrypted_key := blk, encrypted_key_len := n\<rparr>;
     (n, blk, rest) \<leftarrow> decode_token mem rest;
     let res = res\<lparr>init_vector := blk, init_vector_len := n\<rparr>;
     Some (1, res)
   }"

text \<open>The fresh struct \<open>res0\<close> is what \<open>malloc\<close> returned for it.\<close>

definition msg_encrypt_encode ::
  "('c, 'pub, 'priv) evp \<Rightarrow> (nat \<Rightarrow> bytes) \<Rightarrow> message_encrypted \<Rightarrow> string \<Rightarrow> 'c rsa_ctx \<Rightarrow> 'pub
     \<Rightarrow> (bytes option \<times> 'c rsa_ctx) option" where
  "msg_encrypt_encode evp mem res0 msg rsa_ctx public_key = do {
     (ret, rsa_ctx, em) \<leftarrow> client_encrypt_msg evp mem rsa_ctx msg public_key res0;
     if ret \<noteq> 0 then Some (None, rsa_ctx)
     else do {
       (ret, encoded) \<leftarrow> parse_encrypted_msg_str mem em;
       if ret = 0 then Some (None, rsa_ctx) else Some (Some encoded, rsa_ctx)
     }
   }"

definition msg_decode_decrypt ::
  "('c, 'pub, 'priv) evp \<Rightarrow> (nat \<Rightarrow> bytes) \<Rightarrow> message_encrypted \<Rightarrow> string \<Rightarrow> 'c rsa_ctx \<Rightarrow> 'priv
     \<Rightarrow> (bytes option \<times> 'c rsa_ctx) option" where
  "msg_decode_decrypt evp mem res0 msg rsa_ctx private_key = do {
     to_decode \<leftarrow> strncpy (mem (length msg + 2)) msg (length msg + 2);
     s \<leftarrow> cstr to_decode;
     (ret, em) \<leftarrow> parse_str_encrypted_msg mem s res0;
     if ret = 0 then Some (None, rsa_ctx)
     else client_decrypt_msg evp mem rsa_ctx
       (em\<lparr>encrypted_msg_len := encrypted_msg_len em - 1\<rparr>) private_key
   }"

section \<open>The text form\<close>

text \<open>
  Well-formed input of \<open>parse_encrypted_msg_str\<close>: the three words are inside their blocks, the
  message with one byte to spare.
\<close>

definition sealed :: "message_encrypted \<Rightarrow> bytes \<Rightarrow> bytes \<Rightarrow> bytes \<Rightarrow> bool" where
  "sealed m w ek iv \<longleftrightarrow>
     encrypted_msg_len m + 1 = int (length w) \<and> w = take (length w) (encrypted_msg m) \<and> w \<noteq> [] \<and>
     encrypted_key_len m = int (length ek) \<and> ek = take (length ek) (encrypted_key m) \<and>
     init_vector_len m = int (length iv) \<and> iv = take (length iv) (init_vector m) \<and> iv \<noteq> []"

definition encoded_size :: "message_encrypted \<Rightarrow> nat" where
  "encoded_size m = nat (Base64encode_len (encrypted_msg_len m) + Base64encode_len (encrypted_key_len m)
     + Base64encode_len (init_vector_len m) + 3)"

definition wire :: "bytes \<Rightarrow> bytes \<Rightarrow> bytes \<Rightarrow> string" where
  "wire w ek iv = b64 w @ '' '' @ b64 ek @ '' '' @ b64 iv"

lemma wire_join: "wire w ek iv = join (CHR '' '') [b64 w, b64 ek, b64 iv]"
  by (simp add: wire_def)

lemma encode_len_succ:
  "Base64encode_len (int n + 1) = Base64encode_len (int n) + (if 3 dvd n then 4 else 0)"
proof -
  obtain q r where n: "n = 3 * q + r" and r: "r < 3"
    by (metis div_mult_mod_eq mod_less_divisor mult.commute zero_less_numeral)
  then have "3 dvd n \<longleftrightarrow> r = 0" by (auto simp: dvd_eq_mod_eq_0)
  moreover have "(3 * int q + int r + 2) div 3 = int q + (int r + 2) div 3"
    "(3 * int q + int r + 1 + 2) div 3 = int q + (int r + 3) div 3"
    by (simp_all add: algebra_simps)
  moreover have "r = 0 \<or> r = 1 \<or> r = 2" using r by linarith
  ultimately show ?thesis by (auto simp: Base64encode_len_def n)
qed

lemma sealed_size:
  assumes "sealed m w ek iv"
  shows "encoded_size m + (if 3 dvd encrypted_msg_len m then 4 else 0) = length (wire w ek iv) + 4"
    and "Base64encode_len (encrypted_msg_len m) + Base64encode_len (encrypted_key_len m)
     + Base64encode_len (init_vector_len m) + 3 = int (encoded_size m)"
proof -
  have len: "encrypted_msg_len m + 1 = int (length w)" and "0 < length w"
    using assms by (simp_all add: sealed_def)
  then have m: "encrypted_msg_len m = int (length w - 1)" by linarith
  from len encode_len_succ [of "length w - 1"] cdc.enc_len [of w] m
  have w: "int (length (b64 w)) + 1 =
      Base64encode_len (encrypted_msg_len m) + (if 3 dvd encrypted_msg_len m then 4 else 0)"
    by (simp add: int_dvd_int_iff [symmetric] del: int_dvd_int_iff)
  have pos: "0 < Base64encode_len (encrypted_msg_len m)"
    unfolding m by (simp add: Base64encode_len_def)
  have e: "Base64encode_len (encrypted_key_len m) = int (length (b64 ek)) + 1"
    "Base64encode_len (init_vector_len m) = int (length (b64 iv)) + 1"
    using assms by (simp_all add: sealed_def cdc.enc_len)
  from pos e show "Base64encode_len (encrypted_msg_len m) + Base64encode_len (encrypted_key_len m)
     + Base64encode_len (init_vector_len m) + 3 = int (encoded_size m)"
    by (simp add: encoded_size_def)
  with w e show "encoded_size m + (if 3 dvd encrypted_msg_len m then 4 else 0) = length (wire w ek iv) + 4"
    by (simp add: wire_def split: if_splits)
qed

lemma tmp_cleared:
  "n \<le> length b \<Longrightarrow> 0 < n \<Longrightarrow> \<exists>b'. zero_bytes b n = Some b' \<and> length b' = length b"
  by (simp add: zero_bytes_def)

lemma parse_encrypted_result:
  assumes m: "sealed m w ek iv" and mem: "\<forall>n. n \<le> length (mem n)"
  shows "if length (wire w ek iv) < length (mem (encoded_size m))
    then \<exists>dest. parse_encrypted_msg_str mem m = Some (int (encoded_size m), dest) \<and>
           cstr dest = Some (wire w ek iv) \<and> length dest = length (mem (encoded_size m))
    else parse_encrypted_msg_str mem m = None"
proof -
  let ?L = "encoded_size m" and ?w = "b64 w" and ?k = "b64 ek" and ?v = "b64 iv"
  note size = sealed_size [OF m]
  have blk: "?L \<le> length (mem ?L)" using mem by blast
  have "0 < length ?v" using m cdc.not_empty [of iv] by (simp add: sealed_def)
  then have L: "length ?w + length ?k + length ?v + 2 \<le> ?L" "0 < ?L" "0 < length ?v"
    using size(1) by (simp_all add: wire_def split: if_splits)
  note fields = m [unfolded sealed_def]
  have N: "nat (int k + 1) = Suc k" "nat (2 + int k) = Suc (Suc k)" for k by linarith+
  obtain t1 where t1: "Base64encode (mem ?L) (encrypted_msg m) (encrypted_msg_len m + 1) =
      Some (int (length ?w) + 1, t1)" "cstr t1 = Some ?w" "length t1 = length (mem ?L)"
    using cdc.encode_fits [of w "encrypted_msg m" "mem ?L"] fields L blk by auto
  obtain z1 where z1: "zero_bytes t1 ?L = Some z1" "length z1 = length (mem ?L)"
    using tmp_cleared [of ?L t1] t1 L blk by auto
  obtain t2 where t2: "Base64encode z1 (encrypted_key m) (encrypted_key_len m) =
      Some (int (length ?k) + 1, t2)" "cstr t2 = Some ?k" "length t2 = length (mem ?L)"
    using cdc.encode_fits [of ek "encrypted_key m" z1] fields L blk z1 by auto
  obtain z2 where z2: "zero_bytes t2 ?L = Some z2" "length z2 = length (mem ?L)"
    using tmp_cleared [of ?L t2] t2 L blk by auto
  obtain t3 where t3: "Base64encode z2 (init_vector m) (init_vector_len m) =
      Some (int (length ?v) + 1, t3)" "cstr t3 = Some ?v"
    using cdc.encode_fits [of iv "init_vector m" z2] fields L blk z2 by auto
  obtain d1 where d1: "strncpy (mem ?L) ?w (Suc (length ?w)) = Some d1"
    "cstr d1 = Some ?w" "length d1 = length (mem ?L)"
    using strncpy_fits [OF cdc.no_NUL, of w "Suc (length ?w)" "mem ?L"] L blk by auto
  obtain d2 where d2: "strncat d1 '' '' 2 = Some d2" "cstr d2 = Some (?w @ '' '')"
    "length d2 = length (mem ?L)"
    using strncat_step [OF d1(2), of "'' ''" 2] d1 L blk by (auto split: if_splits)
  obtain d3 where d3: "strncat d2 ?k (Suc (Suc (length ?k))) = Some d3"
    "cstr d3 = Some (?w @ '' '' @ ?k)" "length d3 = length (mem ?L)"
    using strncat_step [OF d2(2) cdc.no_NUL, of ek "Suc (Suc (length ?k))"] d2 L blk
    by (auto split: if_splits)
  obtain d4 where d4: "strncat d3 '' '' 2 = Some d4" "cstr d4 = Some (?w @ '' '' @ ?k @ '' '')"
    "length d4 = length (mem ?L)"
    using strncat_step [OF d3(2), of "'' ''" 2] d3 L blk by (auto split: if_splits)
  have "parse_encrypted_msg_str mem m =
      map_option (Pair (int ?L)) (strncat d4 ?v (Suc (Suc (length ?v))))"
    unfolding parse_encrypted_msg_str_def size(2) nat_int Let_def
    by (cases "strncat d4 ?v (Suc (Suc (length ?v)))") (simp_all add: t1 t2 t3 z1 z2 N d1 d2 d3 d4)
  with strncat_step [OF d4(2) cdc.no_NUL, of iv "Suc (Suc (length ?v))"] d4(3)
  show ?thesis by (auto simp: wire_def split: if_splits)
qed


section \<open>Reading the text form\<close>

lemma decode_token_word:
  assumes "strtok (CHR '' '') s = Some (b64 w, rest)" and mem: "\<forall>n. n \<le> length (mem n)"
  shows "\<exists>blk. decode_token mem s = Some (int (length w), blk, rest) \<and> w = take (length w) blk \<and>
    length w < length blk"
  using cdc.decode_word [OF mem, of w] assms(1) by (auto simp: decode_token_def)

text \<open>The three words, and possibly more behind another space, which is not read.\<close>

definition wire_tail :: "string \<Rightarrow> bool" where
  "wire_tail t \<longleftrightarrow> t = [] \<or> hd t = CHR '' ''"

lemma parse_wire:
  assumes "w \<noteq> []" and "ek \<noteq> []" and "iv \<noteq> []" and mem: "\<forall>n. n \<le> length (mem n)" and "wire_tail t"
  shows "\<exists>m. parse_str_encrypted_msg mem (wire w ek iv @ t) res = Some (1, m) \<and>
    encrypted_msg_len m = int (length w) \<and> w = take (length w) (encrypted_msg m) \<and>
    encrypted_key_len m = int (length ek) \<and> ek = take (length ek) (encrypted_key m) \<and>
    init_vector_len m = int (length iv) \<and> iv = take (length iv) (init_vector m)"
proof -
  have "strtok (CHR '' '') (wire w ek iv @ t) = Some (b64 w, b64 ek @ '' '' @ b64 iv @ t)"
    using cdc.next_word [OF assms(1)] by (simp add: wire_def)
  from decode_token_word [OF this mem] obtain b1 where
    1: "decode_token mem (wire w ek iv @ t) = Some (int (length w), b1, b64 ek @ '' '' @ b64 iv @ t)"
       "w = take (length w) b1" by blast
  have "strtok (CHR '' '') (b64 ek @ '' '' @ b64 iv @ t) = Some (b64 ek, b64 iv @ t)"
    using cdc.next_word [OF assms(2)] by simp
  from decode_token_word [OF this mem] obtain b2 where
    2: "decode_token mem (b64 ek @ '' '' @ b64 iv @ t) = Some (int (length ek), b2, b64 iv @ t)"
       "ek = take (length ek) b2" by blast
  have "\<exists>r. strtok (CHR '' '') (b64 iv @ t) = Some (b64 iv, r)"
    using cdc.last_word [OF assms(3)] cdc.next_word [OF assms(3), of "tl t"] assms(5)
    by (cases t) (auto simp: wire_tail_def)
  then obtain r where "strtok (CHR '' '') (b64 iv @ t) = Some (b64 iv, r)" ..
  from decode_token_word [OF this mem] obtain b3 where
    3: "decode_token mem (b64 iv @ t) = Some (int (length iv), b3, r)" "iv = take (length iv) b3"
    by blast
  from 1 2 3 show ?thesis by (simp add: parse_str_encrypted_msg_def)
qed

text \<open>Any word decodes within its block; fewer than three words end in a NULL pointer.\<close>

lemma decode_token_total:
  assumes mem: "\<forall>n. n \<le> length (mem n)" and "NUL \<notin> set s"
  shows "case strtok (CHR '' '') s of
      None \<Rightarrow> decode_token mem s = None
    | Some (t, rest) \<Rightarrow> \<exists>n blk. decode_token mem s = Some (n, blk, rest) \<and> 0 \<le> n \<and> n < int (length blk)"
proof (cases "strtok (CHR '' '') s")
  case None
  then show ?thesis by (simp add: decode_token_def)
next
  case (Some p)
  obtain t rest where p: "p = (t, rest)" by (cases p)
  have "set t \<subseteq> set s"
    using Some p by (auto simp: strtok_def Let_def split: if_splits dest!: set_takeWhileD set_dropWhileD)
  with assms(2) have "cstr (t @ [NUL]) = Some t" by (intro cstr_append) blast
  then obtain n where n: "scan_six (t @ [NUL]) = Some n" by (meson scan_six_cstr)
  let ?k = "(int n + 3) div 4 * 3 + 1" and ?d = "decoded (t @ [NUL]) n"
  have "int (length ?d) \<le> int ((n + 3) div 4 * 3)" unfolding of_nat_le_iff by (rule decoded_le)
  then have "int (length ?d) < ?k" by (simp add: zdiv_int)
  moreover have "nat ?k \<le> length (mem (nat ?k))" using mem by blast
  ultimately have "length ?d < length (mem (nat ?k))" by linarith
  with Some p show ?thesis
    by (simp add: decode_token_def Base64decode_len_def n Base64decode_result write_all_def)
qed

lemma strtok_set: "strtok d s = Some (t, r) \<Longrightarrow> set r \<subseteq> set s"
  by (auto simp: strtok_def Let_def split: if_splits dest!: in_set_dropD set_dropWhileD)

lemma parse_str_total:
  assumes mem: "\<forall>n. n \<le> length (mem n)" and nul: "NUL \<notin> set s"
  shows "if 3 \<le> length (tokens (CHR '' '') s)
    then \<exists>m. parse_str_encrypted_msg mem s res = Some (1, m)
    else parse_str_encrypted_msg mem s res = None"
proof (cases "strtok (CHR '' '') s")
  case None
  with decode_token_total [OF mem nul] show ?thesis
    by (simp add: parse_str_encrypted_msg_def tokens.simps [of _ s])
next
  case 1: (Some p1)
  obtain t1 r1 where p1: "p1 = (t1, r1)" by (cases p1)
  from strtok_set 1 nul have n1: "NUL \<notin> set r1" unfolding p1 by blast
  show ?thesis
  proof (cases "strtok (CHR '' '') r1")
    case None
    with 1 p1 decode_token_total [OF mem nul] decode_token_total [OF mem n1] show ?thesis
      by (auto simp: parse_str_encrypted_msg_def tokens.simps [of _ s] tokens.simps [of _ r1])
  next
    case 2: (Some p2)
    obtain t2 r2 where p2: "p2 = (t2, r2)" by (cases p2)
    from strtok_set 2 n1 have n2: "NUL \<notin> set r2" unfolding p2 by blast
    show ?thesis
      using 1 2 p1 p2 decode_token_total [OF mem nul] decode_token_total [OF mem n1]
        decode_token_total [OF mem n2]
      by (cases "strtok (CHR '' '') r2")
        (auto simp: parse_str_encrypted_msg_def tokens.simps [of _ s] tokens.simps [of _ r1]
          tokens.simps [of _ r2])
  qed
qed

section \<open>Sealing and opening\<close>

text \<open>Opening \<open>c\<close> with the private key succeeds, from any context, and gives \<open>m\<close>.\<close>

definition opens :: "('c, 'pub, 'priv) evp \<Rightarrow> 'priv \<Rightarrow> bytes \<Rightarrow> bytes \<Rightarrow> bytes \<Rightarrow> bytes \<Rightarrow> bool" where
  "opens evp priv ek iv c m \<longleftrightarrow> (\<forall>d r1 d1 r2 d2 p1 r3 d3 p2.
     EVP_OpenInit evp d ek iv priv = (r1, d1) \<longrightarrow>
     EVP_OpenUpdate evp d1 c (int (length c)) = (r2, d2, p1) \<longrightarrow>
     EVP_OpenFinal evp d2 = (r3, d3, p2) \<longrightarrow> r1 \<noteq> 0 \<and> r2 \<noteq> 0 \<and> r3 \<noteq> 0 \<and> p1 @ p2 = m)"

text \<open>The three calls of a seal, with the results.\<close>

definition seals :: "('c, 'pub, 'priv) evp \<Rightarrow> 'c \<Rightarrow> 'pub \<Rightarrow> bytes
    \<Rightarrow> (int \<times> int \<times> int) \<Rightarrow> bytes \<Rightarrow> bytes \<Rightarrow> bytes \<Rightarrow> bytes \<Rightarrow> 'c \<Rightarrow> bool" where
  "seals evp c pub m rs ek iv o1 o2 c3 \<longleftrightarrow> (\<exists>c1 c2.
     EVP_SealInit evp c pub = (fst rs, c1, ek, iv) \<and>
     EVP_SealUpdate evp c1 m = (fst (snd rs), c2, o1) \<and> EVP_SealFinal evp c2 = (snd (snd rs), c3, o2))"

definition evp_ok :: "('c, 'pub, 'priv) evp \<Rightarrow> 'pub \<Rightarrow> 'priv \<Rightarrow> bool" where
  "evp_ok evp pub priv \<longleftrightarrow> (\<forall>c m r1 r2 r3 ek iv o1 o2 c3. seals evp c pub m (r1, r2, r3) ek iv o1 o2 c3 \<longrightarrow>
     length ek \<le> EVP_PKEY_size evp pub \<and> length iv = EVP_MAX_IV_LENGTH \<and>
     length o1 + length o2 \<le> length m + 16 \<and>
     (r1 \<noteq> 0 \<and> r2 \<noteq> 0 \<and> r3 \<noteq> 0 \<longrightarrow> ek \<noteq> [] \<and>
       length o1 + length o2 = 16 * (length m div 16 + 1) \<and> opens evp priv ek iv (o1 @ o2) m))"

lemma seals_ex: obtains rs ek iv o1 o2 c3 where "seals evp c pub m rs ek iv o1 o2 c3"
proof -
  obtain r1 c1 ek iv where 1: "EVP_SealInit evp c pub = (r1, c1, ek, iv)" by (cases "EVP_SealInit evp c pub")
  obtain r2 c2 o1 where 2: "EVP_SealUpdate evp c1 m = (r2, c2, o1)" by (cases "EVP_SealUpdate evp c1 m")
  obtain r3 c3 o2 where 3: "EVP_SealFinal evp c2 = (r3, c3, o2)" by (cases "EVP_SealFinal evp c2")
  from 1 2 3 show ?thesis by (intro that [of "(r1, r2, r3)" ek iv o1 o2 c3]) (simp add: seals_def)
qed

definition seal_len :: "string \<Rightarrow> nat" where
  "seal_len msg = 16 * ((length msg + 1) div 16 + 1)"

lemma client_encrypt_result:
  assumes ok: "evp_ok evp pub priv" and mem: "\<forall>n. n \<le> length (mem n)"
    and seal: "seals evp (rsa_encrypt_ctx ctx) pub (msg @ [NUL]) (r1, r2, r3) ek iv o1 o2 c3"
  shows "\<exists>ret ctx' em. client_encrypt_msg evp mem ctx msg pub res0 = Some (ret, ctx', em) \<and>
    (ret = 0 \<longleftrightarrow> r1 \<noteq> 0 \<and> r2 \<noteq> 0 \<and> r3 \<noteq> 0) \<and>
    (ret = 0 \<longrightarrow> encrypted_msg_len em = int (seal_len msg) \<and>
       take (seal_len msg) (encrypted_msg em) = o1 @ o2 \<and>
       length (encrypted_msg em) = length (mem (length msg + 1 + EVP_MAX_IV_LENGTH)) \<and>
       encrypted_key_len em = int (length ek) \<and> take (length ek) (encrypted_key em) = ek \<and>
       init_vector_len em = int (length iv) \<and> take (length iv) (init_vector em) = iv)"
proof -
  let ?mb = "mem (length msg + 1 + EVP_MAX_IV_LENGTH)"
  from seal obtain c1 c2 where c: "EVP_SealInit evp (rsa_encrypt_ctx ctx) pub = (r1, c1, ek, iv)"
    "EVP_SealUpdate evp c1 (msg @ [NUL]) = (r2, c2, o1)" "EVP_SealFinal evp c2 = (r3, c3, o2)"
    by (auto simp: seals_def)
  from ok seal have laws: "length ek \<le> EVP_PKEY_size evp pub" "length iv = EVP_MAX_IV_LENGTH"
    "length o1 + length o2 \<le> length (msg @ [NUL]) + 16"
    "r1 \<noteq> 0 \<and> r2 \<noteq> 0 \<and> r3 \<noteq> 0 \<longrightarrow> length o1 + length o2 = seal_len msg"
    unfolding evp_ok_def seal_len_def by fastforce+
  have blk: "EVP_PKEY_size evp pub \<le> length (mem (EVP_PKEY_size evp pub))"
    "EVP_MAX_IV_LENGTH \<le> length (mem EVP_MAX_IV_LENGTH)"
    "length msg + 1 + EVP_MAX_IV_LENGTH \<le> length ?mb"
    using mem by blast+
  with laws(3) have fits: "length o1 + length o2 \<le> length ?mb" by (simp add: EVP_MAX_IV_LENGTH_def)
  obtain kb where kb: "write_at (mem (EVP_PKEY_size evp pub)) 0 ek = Some kb" "take (length ek) kb = ek"
    using write_at_in [of 0 ek "mem (EVP_PKEY_size evp pub)"] laws blk by auto
  obtain ib where ib: "write_at (mem EVP_MAX_IV_LENGTH) 0 iv = Some ib" "take (length iv) ib = iv"
    using write_at_in [of 0 iv "mem EVP_MAX_IV_LENGTH"] laws blk by auto
  obtain b1 where b1: "write_at ?mb 0 o1 = Some b1" "length b1 = length ?mb" "take (length o1) b1 = o1"
    using write_at_in [of 0 o1 ?mb] fits by auto
  obtain b2 where b2: "write_at b1 (length o1) o2 = Some b2" "length b2 = length ?mb"
    "take (length o1 + length o2) b2 = o1 @ o2"
    using write_at_in [of "length o1" o2 b1] fits b1 by auto
  show ?thesis
    using laws(2,4) kb ib b1 b2
    by (auto simp: client_encrypt_msg_def Let_def c)
qed

lemma parse_overread:
  assumes "encrypted_msg_len m = int (length (encrypted_msg m))"
  shows "parse_encrypted_msg_str mem m = None"
proof -
  have "Base64encode b (encrypted_msg m) (encrypted_msg_len m + 1) = None" for b
    using assms by (simp add: Base64encode_def encode_from_overread)
  then show ?thesis by (simp add: parse_encrypted_msg_str_def)
qed

lemma seal_len_bounds: "length msg < seal_len msg" "seal_len msg \<le> length msg + 1 + EVP_MAX_IV_LENGTH"
  "seal_len msg = length msg + 1 + EVP_MAX_IV_LENGTH \<longleftrightarrow> 16 dvd length msg + 1"
proof -
  define q r where "q = (length msg + 1) div 16" and "r = (length msg + 1) mod 16"
  then have n: "length msg + 1 = q * 16 + r" and r: "r < 16" by simp_all
  have "16 dvd length msg + 1 \<longleftrightarrow> r = 0" unfolding r_def by (rule dvd_eq_mod_eq_0)
  then show "length msg < seal_len msg" "seal_len msg \<le> length msg + 1 + EVP_MAX_IV_LENGTH"
    "seal_len msg = length msg + 1 + EVP_MAX_IV_LENGTH \<longleftrightarrow> 16 dvd length msg + 1"
    unfolding seal_len_def EVP_MAX_IV_LENGTH_def q_def [symmetric] using n r by auto
qed

text \<open>After a successful seal the struct is well-formed, if the block has a byte behind the sealed ones.\<close>

lemma encrypted_sealed:
  assumes ok: "evp_ok evp pub priv" and mem: "\<forall>n. n \<le> length (mem n)"
    and seal: "seals evp (rsa_encrypt_ctx ctx) pub (msg @ [NUL]) (r1, r2, r3) ek iv o1 o2 c3"
    and good: "r1 \<noteq> 0" "r2 \<noteq> 0" "r3 \<noteq> 0"
  shows "\<exists>ctx' em. client_encrypt_msg evp mem ctx msg pub res0 = Some (0, ctx', em) \<and>
    encrypted_msg_len em = int (seal_len msg) \<and>
    length (encrypted_msg em) = length (mem (length msg + 1 + EVP_MAX_IV_LENGTH)) \<and>
    (length (mem (length msg + 1 + EVP_MAX_IV_LENGTH)) \<noteq> seal_len msg \<longrightarrow>
      sealed em ((o1 @ o2) @ [encrypted_msg em ! seal_len msg]) ek iv)"
proof -
  let ?mb = "mem (length msg + 1 + EVP_MAX_IV_LENGTH)" and ?a = "seal_len msg"
  from client_encrypt_result [OF ok mem seal, of res0] good obtain ctx' em where
    enc: "client_encrypt_msg evp mem ctx msg pub res0 = Some (0, ctx', em)"
    and a: "encrypted_msg_len em = int ?a" "take ?a (encrypted_msg em) = o1 @ o2"
      "length (encrypted_msg em) = length ?mb"
    and k: "encrypted_key_len em = int (length ek)" "take (length ek) (encrypted_key em) = ek"
    and v: "init_vector_len em = int (length iv)" "take (length iv) (init_vector em) = iv" by auto
  from ok seal have iv: "iv \<noteq> []" by (fastforce simp: evp_ok_def EVP_MAX_IV_LENGTH_def)
  have "sealed em ((o1 @ o2) @ [encrypted_msg em ! ?a]) ek iv" if ne: "length ?mb \<noteq> ?a"
  proof -
    have "?a \<le> length ?mb" using seal_len_bounds(2) [of msg] mem order_trans by blast
    with ne a(3) have lt: "?a < length (encrypted_msg em)" by simp
    with a(2) have w: "take (Suc ?a) (encrypted_msg em) = (o1 @ o2) @ [encrypted_msg em ! ?a]" (is "_ = ?w")
      by (simp add: take_Suc_conv_app_nth)
    then have lw: "length ?w = Suc ?a" using lt by (metis Suc_leI length_take min.absorb2)
    show ?thesis unfolding sealed_def lw using a(1) w k v iv by simp
  qed
  with enc a(1,3) show ?thesis by blast
qed

text \<open>
  The outcome of \<open>msg_encrypt_encode\<close> after a successful seal: the text form, unless the sealed
  bytes fill their block (the encoder reads one byte further) or the text form does not fit.
\<close>

lemma msg_encrypt_encode_result:
  assumes ok: "evp_ok evp pub priv" and mem: "\<forall>n. n \<le> length (mem n)"
    and seal: "seals evp (rsa_encrypt_ctx ctx) pub (msg @ [NUL]) (r1, r2, r3) ek iv o1 o2 c3"
    and good: "r1 \<noteq> 0" "r2 \<noteq> 0" "r3 \<noteq> 0"
  obtains (overread) "length (mem (length msg + 1 + EVP_MAX_IV_LENGTH)) = seal_len msg"
      "msg_encrypt_encode evp mem res0 msg ctx pub = None"
  | (overflow) n where "length (mem n) = n" "3 dvd seal_len msg"
      "msg_encrypt_encode evp mem res0 msg ctx pub = None"
  | (encoded) n x dest ctx' where "length (mem (length msg + 1 + EVP_MAX_IV_LENGTH)) \<noteq> seal_len msg"
      "\<not> 3 dvd seal_len msg \<or> length (mem n) \<noteq> n"
      "msg_encrypt_encode evp mem res0 msg ctx pub = Some (Some dest, ctx')"
      "cstr dest = Some (wire ((o1 @ o2) @ [x]) ek iv)"
proof -
  let ?mb = "mem (length msg + 1 + EVP_MAX_IV_LENGTH)" and ?a = "seal_len msg"
  from encrypted_sealed [OF ok mem seal good, of res0] obtain ctx' em where
    enc: "client_encrypt_msg evp mem ctx msg pub res0 = Some (0, ctx', em)"
    and a: "encrypted_msg_len em = int ?a" "length (encrypted_msg em) = length ?mb"
    and m: "length ?mb \<noteq> ?a \<Longrightarrow> sealed em ((o1 @ o2) @ [encrypted_msg em ! ?a]) ek iv" by blast
  have me: "msg_encrypt_encode evp mem res0 msg ctx pub =
      parse_encrypted_msg_str mem em \<bind>
        (\<lambda>(ret, encoded). if ret = 0 then Some (None, ctx') else Some (Some encoded, ctx'))"
    by (simp add: msg_encrypt_encode_def enc)
  show ?thesis
  proof (cases "length ?mb = ?a")
    case True
    with a have "parse_encrypted_msg_str mem em = None" by (intro parse_overread) simp
    with me True show ?thesis by (intro overread) simp_all
  next
    case False
    note parse = parse_encrypted_result [OF m [OF False] mem] sealed_size(1) [OF m [OF False]]
    let ?n = "encoded_size em"
    have n: "?n \<le> length (mem ?n)" using mem by blast
    have dvd: "3 dvd encrypted_msg_len em \<longleftrightarrow> 3 dvd ?a"
      unfolding a(1) by (metis int_dvd_int_iff of_nat_numeral)
    show ?thesis
    proof (cases "3 dvd ?a \<and> length (mem ?n) = ?n")
      case True
      with parse dvd have "parse_encrypted_msg_str mem em = None" by simp
      with me True show ?thesis by (intro overflow [of ?n]) simp_all
    next
      case noov: False
      with parse dvd n obtain dest where "parse_encrypted_msg_str mem em = Some (int ?n, dest)"
        "cstr dest = Some (wire ((o1 @ o2) @ [encrypted_msg em ! ?a]) ek iv)" by (auto split: if_splits)
      moreover have "0 < ?n" using parse(2) by (simp add: wire_def split: if_splits)
      ultimately show ?thesis
        using me False noov by (intro encoded [of ?n dest ctx']) auto
    qed
  qed
qed

lemma client_decrypt_result:
  assumes op: "opens evp priv ek iv c m" and mem: "\<forall>n. n \<le> length (mem n)"
    and c: "encrypted_msg_len em = int (length c)" "c = take (length c) (encrypted_msg em)"
    and k: "encrypted_key_len em = int (length ek)" "ek = take (length ek) (encrypted_key em)"
    and v: "init_vector_len em = int (length iv)" "iv = take (length iv) (init_vector em)"
    and len: "length iv = EVP_MAX_IV_LENGTH" "length m \<le> length c"
  shows "\<exists>b ctx'. client_decrypt_msg evp mem ctx em priv = Some (Some b, ctx') \<and> take (length m) b = m"
proof -
  let ?n = "length c + length iv + 1"
  have n: "nat (encrypted_msg_len em + init_vector_len em + 1) = ?n" using c(1) v(1) by simp
  have mb: "?n \<le> length (mem ?n)" using mem by blast
  obtain z where z: "zero_bytes (mem ?n) ?n = Some z" "length z = length (mem ?n)"
    using tmp_cleared [OF mb] by auto
  have read: "read_bytes b (int (length x)) = Some x" if "x = take (length x) b" for x b
  proof -
    from that have "length x \<le> length b" by (metis length_take min.cobounded1)
    with that show ?thesis by (simp add: read_bytes_def)
  qed
  obtain r1 d1 where 1: "EVP_OpenInit evp (rsa_decrypt_ctx ctx) ek iv priv = (r1, d1)"
    by (cases "EVP_OpenInit evp (rsa_decrypt_ctx ctx) ek iv priv")
  obtain r2 d2 p1 where 2: "EVP_OpenUpdate evp d1 c (int (length c)) = (r2, d2, p1)"
    by (cases "EVP_OpenUpdate evp d1 c (int (length c))")
  obtain r3 d3 p2 where 3: "EVP_OpenFinal evp d2 = (r3, d3, p2)" by (cases "EVP_OpenFinal evp d2")
  from op 1 2 3 have r: "r1 \<noteq> 0" "r2 \<noteq> 0" "r3 \<noteq> 0" and m: "p1 @ p2 = m"
    unfolding opens_def by blast+
  have fits: "length p1 + length p2 \<le> length z" using m len(2) mb z(2) by auto
  obtain b1 where b1: "write_at z 0 p1 = Some b1" "length b1 = length z" "take (length p1) b1 = p1"
    using write_at_in [of 0 p1 z] fits by auto
  obtain b2 where b2: "write_at b1 (length p1) p2 = Some b2" "take (length p1 + length p2) b2 = p1 @ p2"
    using write_at_in [of "length p1" p2 b1] fits b1 by auto
  from m have "take (length m) b2 = m" using b2(2) by auto
  with 1 2 3 r z b1 b2 read [OF k(2)] read [OF v(2)] read [OF c(2)] show ?thesis
    unfolding client_decrypt_msg_def n Let_def
    by (simp add: k(1) c(1) len(1) [symmetric])
qed

section \<open>From text to text\<close>

text \<open>What \<open>msg_encrypt_encode\<close> returns is the text form of something that opens to the message.\<close>

lemma encoded_wire:
  assumes "evp_ok evp pub priv" and "\<forall>n. n \<le> length (mem n)"
    and "msg_encrypt_encode evp mem r0 msg ctx pub = Some (Some dest, ctx1)"
  shows "\<exists>c x ek iv. cstr dest = Some (wire (c @ [x]) ek iv) \<and> ek \<noteq> [] \<and> length iv = EVP_MAX_IV_LENGTH \<and>
    length msg < length c \<and> opens evp priv ek iv c (msg @ [NUL]) \<and>
    length c = seal_len msg \<and> length ek \<le> EVP_PKEY_size evp pub"
proof -
  obtain rs ek iv o1 o2 c3 where seal: "seals evp (rsa_encrypt_ctx ctx) pub (msg @ [NUL]) rs ek iv o1 o2 c3"
    by (rule seals_ex)
  obtain s1 s2 s3 where rs: "rs = (s1, s2, s3)" by (cases rs)
  note seal = seal [unfolded rs]
  from client_encrypt_result [OF assms(1,2) seal, of r0] assms(3) have good: "s1 \<noteq> 0" "s2 \<noteq> 0" "s3 \<noteq> 0"
    by (auto simp: msg_encrypt_encode_def split: if_splits)
  from assms(1) seal good have laws: "ek \<noteq> []" "length iv = EVP_MAX_IV_LENGTH"
    "length (o1 @ o2) = seal_len msg" "opens evp priv ek iv (o1 @ o2) (msg @ [NUL])"
    "length ek \<le> EVP_PKEY_size evp pub"
    unfolding evp_ok_def seal_len_def by fastforce+
  obtain x where "cstr dest = Some (wire ((o1 @ o2) @ [x]) ek iv)"
    by (rule msg_encrypt_encode_result [OF assms(1,2) seal good, of r0]) (use assms(3) in auto)
  moreover have "length msg < length (o1 @ o2)" unfolding laws(3) by (rule seal_len_bounds(1))
  ultimately show ?thesis using laws by blast
qed

text \<open>Decoding the text form drops the last byte of the first word, and whatever follows the words.\<close>

lemma decode_wire:
  assumes "w \<noteq> []" and ek: "ek \<noteq> []" and iv: "length iv = EVP_MAX_IV_LENGTH"
    and mem: "\<forall>n. n \<le> length (mem n)" and t: "wire_tail t" "NUL \<notin> set t"
  obtains em where "encrypted_msg_len em = int (length (butlast w))" "butlast w = take (length (butlast w)) (encrypted_msg em)"
    "encrypted_key_len em = int (length ek)" "ek = take (length ek) (encrypted_key em)"
    "init_vector_len em = int (length iv)" "iv = take (length iv) (init_vector em)"
    "\<forall>ctx. msg_decode_decrypt evp mem res (wire w ek iv @ t) ctx priv = client_decrypt_msg evp mem ctx em priv"
proof -
  let ?s = "wire w ek iv @ t"
  from iv have "iv \<noteq> []" by (auto simp: EVP_MAX_IV_LENGTH_def)
  from parse_wire [OF assms(1) ek this mem t(1), of res] obtain m where
    m: "parse_str_encrypted_msg mem ?s res = Some (1, m)"
    "encrypted_msg_len m = int (length w)" "w = take (length w) (encrypted_msg m)"
    "encrypted_key_len m = int (length ek)" "ek = take (length ek) (encrypted_key m)"
    "init_vector_len m = int (length iv)" "iv = take (length iv) (init_vector m)" by blast
  have "butlast w = take (length w - 1) (take (length w) (encrypted_msg m))" unfolding m(3) [symmetric] by (rule butlast_conv_take)
  then have c: "butlast w = take (length (butlast w)) (encrypted_msg m)" by (simp add: min_def)
  have "NUL \<notin> set ?s" using cdc.no_NUL t(2) by (auto simp: wire_def)
  then obtain d where d: "strncpy (mem (length ?s + 2)) ?s (length ?s + 2) = Some d" "cstr d = Some ?s"
    using strncpy_fits [of ?s "length ?s + 2" "mem (length ?s + 2)"] mem by auto
  let ?m = "m\<lparr>encrypted_msg_len := encrypted_msg_len m - 1\<rparr>"
  have keep: "encrypted_msg ?m = encrypted_msg m" "encrypted_key ?m = encrypted_key m"
    "init_vector ?m = init_vector m" "encrypted_key_len ?m = encrypted_key_len m"
    "init_vector_len ?m = init_vector_len m" by simp_all
  have "1 \<le> length w" using assms(1) by (cases w) simp_all
  then have "encrypted_msg_len ?m = int (length (butlast w))" using m(2) by (simp add: of_nat_diff)
  moreover have "\<forall>ctx. msg_decode_decrypt evp mem res ?s ctx priv = client_decrypt_msg evp mem ctx ?m priv"
    using d m(1) by (simp add: msg_decode_decrypt_def)
  ultimately show ?thesis using that [of ?m] c m(4-7) unfolding keep by blast
qed

lemma decrypt_wire:
  assumes op: "opens evp priv ek iv c (msg @ [NUL])" and ek: "ek \<noteq> []"
    and iv: "length iv = EVP_MAX_IV_LENGTH" and len: "length msg < length c"
    and mem: "\<forall>n. n \<le> length (mem n)" and nul: "NUL \<notin> set msg" and t: "wire_tail t" "NUL \<notin> set t"
  shows "\<exists>b ctx'. msg_decode_decrypt evp mem res (wire (c @ [x]) ek iv @ t) ctx priv = Some (Some b, ctx') \<and>
    cstr b = Some msg"
proof -
  have "c @ [x] \<noteq> []" by simp
  from decode_wire [OF this ek iv mem t, of evp res priv] obtain em where
    em: "encrypted_msg_len em = int (length c)" "c = take (length c) (encrypted_msg em)"
      "encrypted_key_len em = int (length ek)" "ek = take (length ek) (encrypted_key em)"
      "init_vector_len em = int (length iv)" "iv = take (length iv) (init_vector em)"
    and run: "\<forall>ctx. msg_decode_decrypt evp mem res (wire (c @ [x]) ek iv @ t) ctx priv = client_decrypt_msg evp mem ctx em priv"
    unfolding butlast_snoc by blast
  have "length (msg @ [NUL]) \<le> length c" using len by simp
  from client_decrypt_result [OF op mem em iv this] obtain b ctx' where
    "client_decrypt_msg evp mem ctx em priv = Some (Some b, ctx')"
    and b: "take (length (msg @ [NUL])) b = msg @ [NUL]" by blast
  moreover have "cstr b = Some msg"
    using nul b cstr_append [of msg "drop (length (msg @ [NUL])) b"]
    by (metis append.assoc append_Cons append_Nil append_take_drop_id)
  ultimately show ?thesis using run by simp
qed

section \<open>Messages for others\<close>

text \<open>
  A message for someone else need not open. Documented is how much opening writes: from a context that
  \<open>EVP_OpenInit\<close> has set up, \<open>EVP_OpenUpdate\<close> and \<open>EVP_OpenFinal\<close> together at most a block
  (16 bytes) more than they were given. As the code allocates that much and one byte, and clears it,
  whatever comes out is a string.
\<close>

definition open_bounded :: "('c, 'pub, 'priv) evp \<Rightarrow> 'priv \<Rightarrow> bool" where
  "open_bounded evp priv \<longleftrightarrow> (\<forall>d ek iv c r1 d1 r2 d2 p1 r3 d3 p2.
     EVP_OpenInit evp d ek iv priv = (r1, d1) \<longrightarrow> r1 \<noteq> 0 \<longrightarrow>
     EVP_OpenUpdate evp d1 c (int (length c)) = (r2, d2, p1) \<longrightarrow>
     EVP_OpenFinal evp d2 = (r3, d3, p2) \<longrightarrow> length p1 + length p2 \<le> length c + 16)"

lemma two_writes:
  assumes "n \<le> length b" and "0 < n" and "length p1 + length p2 < n"
  shows "\<exists>z b1 b2. zero_bytes b n = Some z \<and> write_at z 0 p1 = Some b1 \<and> write_at b1 (length p1) p2 = Some b2 \<and>
    cstr b2 \<noteq> None"
proof -
  let ?z = "replicate n NUL @ drop n b"
  have z: "zero_bytes b n = Some ?z" using assms(1) by (simp add: zero_bytes_def)
  have len: "length ?z = length b" using assms(1) by simp
  have 1: "write_at ?z 0 p1 = Some (p1 @ drop (length p1) ?z)" using assms(1,3) by (simp add: write_at_def)
  have "write_at (p1 @ drop (length p1) ?z) (length p1) p2 = Some (p1 @ p2 @ drop (length p2) (drop (length p1) ?z))"
    using assms(1,3) by (simp add: write_at_def)
  moreover have "NUL \<in> set (drop (length p2) (drop (length p1) ?z))"
    using assms(3) by (simp add: set_replicate_conv_if)
  then have "cstr (p1 @ p2 @ drop (length p2) (drop (length p1) ?z)) \<noteq> None" by (simp add: cstr_def)
  ultimately show ?thesis using z 1 by blast
qed

lemma decrypt_bounded:
  assumes ob: "open_bounded evp priv" and mem: "\<forall>n. n \<le> length (mem n)"
    and c: "encrypted_msg_len em = int (length c)" "c = take (length c) (encrypted_msg em)"
    and k: "encrypted_key_len em = int (length ek)" "ek = take (length ek) (encrypted_key em)"
    and v: "init_vector_len em = int (length iv)" "iv = take (length iv) (init_vector em)"
    and len: "length iv = EVP_MAX_IV_LENGTH"
  shows "\<exists>r ctx'. client_decrypt_msg evp mem ctx em priv = Some (r, ctx') \<and> (\<forall>b. r = Some b \<longrightarrow> cstr b \<noteq> None)"
proof -
  let ?n = "length c + length iv + 1"
  have n: "nat (encrypted_msg_len em + init_vector_len em + 1) = ?n" using c(1) v(1) by simp
  have mb: "?n \<le> length (mem ?n)" using mem by blast
  obtain r1 d1 where 1: "EVP_OpenInit evp (rsa_decrypt_ctx ctx) ek iv priv = (r1, d1)" by fastforce
  obtain r2 d2 p1 where 2: "EVP_OpenUpdate evp d1 c (int (length c)) = (r2, d2, p1)" by (metis prod_cases3)
  obtain r3 d3 p2 where 3: "EVP_OpenFinal evp d2 = (r3, d3, p2)" by (metis prod_cases3)
  have read: "read_bytes b (int (length x)) = Some x" if "x = take (length x) b" for x b
  proof -
    from that have "length x \<le> length b" by (metis length_take min.cobounded1)
    with that show ?thesis by (simp add: read_bytes_def)
  qed
  note reads = read [OF k(2)] read [OF v(2)] read [OF c(2)]
  show ?thesis
  proof (cases "r1 = 0")
    case True
    obtain z where "zero_bytes (mem ?n) ?n = Some z" using tmp_cleared [OF mb] by auto
    with True 1 reads show ?thesis
      unfolding client_decrypt_msg_def n Let_def by (simp add: k(1) c(1) len [symmetric])
  next
    case False
    with ob 1 2 3 have le: "length p1 + length p2 < ?n" unfolding open_bounded_def len EVP_MAX_IV_LENGTH_def by fastforce
    have "0 < ?n" by simp
    from two_writes [OF mb this le] obtain z b1 b2 where "zero_bytes (mem ?n) ?n = Some z"
      "write_at z 0 p1 = Some b1" "write_at b1 (length p1) p2 = Some b2" "cstr b2 \<noteq> None" by blast
    with False 1 2 3 reads show ?thesis
      unfolding client_decrypt_msg_def n Let_def by (simp add: k(1) c(1) len [symmetric])
  qed
qed

text \<open>The texts that \<open>msg_encrypt_encode\<close> makes, with or without padding: every client decodes them without a fault.\<close>

definition well_formed :: "string \<Rightarrow> bool" where
  "well_formed d \<longleftrightarrow> (\<exists>w ek iv t. d = wire w ek iv @ t \<and> w \<noteq> [] \<and> ek \<noteq> [] \<and> length iv = EVP_MAX_IV_LENGTH \<and>
     wire_tail t \<and> NUL \<notin> set t)"

lemma well_formed_decodes:
  assumes "well_formed d" and "open_bounded evp priv" and mem: "\<forall>n. n \<le> length (mem n)"
  shows "\<exists>r ctx'. msg_decode_decrypt evp mem res d ctx priv = Some (r, ctx') \<and> (\<forall>b. r = Some b \<longrightarrow> cstr b \<noteq> None)"
proof -
  from assms(1) obtain w ek iv t where d: "d = wire w ek iv @ t" and w: "w \<noteq> []" "ek \<noteq> []"
    "length iv = EVP_MAX_IV_LENGTH" "wire_tail t" "NUL \<notin> set t" unfolding well_formed_def by blast
  from decode_wire [OF w(1-3) mem w(4,5), of evp res priv] obtain em where
    em: "encrypted_msg_len em = int (length (butlast w))" "butlast w = take (length (butlast w)) (encrypted_msg em)"
      "encrypted_key_len em = int (length ek)" "ek = take (length ek) (encrypted_key em)"
      "init_vector_len em = int (length iv)" "iv = take (length iv) (init_vector em)"
      "\<forall>ctx. msg_decode_decrypt evp mem res (wire w ek iv @ t) ctx priv = client_decrypt_msg evp mem ctx em priv" by blast
  from decrypt_bounded [OF assms(2) mem em(1-6) w(3)] em(7) show ?thesis unfolding d by simp
qed

lemma well_formed_no_NUL: "well_formed d \<Longrightarrow> NUL \<notin> set d"
  using cdc.no_NUL by (auto simp: well_formed_def wire_def)

section \<open>Properties\<close>

text \<open>
  A small instance of OpenSSL's interface: the cipher only pads, to 16 bytes with the pad count, and the
  encrypted key has 512 bytes, as those that \<open>keysmith\<close> makes. The context holds the bytes since
  the initialisation; all output comes from the last call.
\<close>

definition ex_ek :: bytes where
  "ex_ek = replicate 512 (CHR ''k'')"

lemma ex_ek: "length ex_ek = 512" "ex_ek \<noteq> []"
  by (simp_all add: ex_ek_def flip: length_greater_0_conv)

definition ex_evp :: "(bytes, unit, unit) evp" where
  "ex_evp = \<lparr>EVP_PKEY_size = (\<lambda>_. 512),
     EVP_SealInit = (\<lambda>c pub. (1, [], ex_ek, replicate 16 (CHR ''i''))),
     EVP_SealUpdate = (\<lambda>c m. (1, c @ m, [])),
     EVP_SealFinal = (\<lambda>c. (1, [], c @ replicate (16 - length c mod 16) (char_of (16 - length c mod 16)))),
     EVP_OpenInit = (\<lambda>d ek iv priv. (if ek = ex_ek then 1 else 0, [])),
     EVP_OpenUpdate = (\<lambda>d c n. (1, d @ c, [])),
     EVP_OpenFinal = (\<lambda>d. (1, [], take (length d - uchar (last d)) d)),
     EVP_CIPHER_CTX_cleanup = (\<lambda>d. [])\<rparr>"

lemma ex_evp_ok: "evp_ok ex_evp () ()"
proof -
  have pad: "length m + (16 - length m mod 16) = 16 * (length m div 16 + 1)" for m :: bytes
  proof -
    define q r where "q = length m div 16" and "r = length m mod 16"
    then have "length m = q * 16 + r" and "r < 16" by simp_all
    then show ?thesis unfolding q_def [symmetric] r_def [symmetric] by simp
  qed
  have unpad: "opens ex_evp () ex_ek iv (m @ replicate (16 - length m mod 16) (char_of (16 - length m mod 16))) m"
    for iv m
  proof -
    have "uchar (char_of (16 - length m mod 16)) = 16 - length m mod 16"
      by (simp add: uchar_def take_bit_eq_mod)
    then show ?thesis by (simp add: opens_def ex_evp_def)
  qed
  show ?thesis
    unfolding evp_ok_def using pad unpad
    by (auto simp: seals_def ex_evp_def EVP_MAX_IV_LENGTH_def ex_ek)
qed

lemma ex_open_bounded: "open_bounded ex_evp ()"
  by (auto simp: open_bounded_def ex_evp_def)

definition ex_mem :: "nat \<Rightarrow> bytes" where
  "ex_mem n = replicate n NUL"

lemma ex_mem: "\<forall>n. n \<le> length (ex_mem n)"
  by (simp add: ex_mem_def)

lemma length_ex_mem: "length (ex_mem n) = n"
  by (simp add: ex_mem_def)

definition ex_ctx :: "bytes rsa_ctx" where
  "ex_ctx = \<lparr>rsa_encrypt_ctx = [], rsa_decrypt_ctx = []\<rparr>"

lemma ex_seals: "\<exists>o2. seals ex_evp (rsa_encrypt_ctx ex_ctx) () m (1, 1, 1) ex_ek (replicate 16 (CHR ''i'')) [] o2 []"
  by (simp add: seals_def ex_evp_def ex_ctx_def)

definition ex_sealed :: "nat \<Rightarrow> message_encrypted" where
  "ex_sealed n = \<lparr>encrypted_msg = replicate (n + 1) (CHR ''m''), encrypted_key = ''key'',
     init_vector = ''iv'', encrypted_msg_len = int n, encrypted_key_len = 3, init_vector_len = 2\<rparr>"

lemma ex_sealed: "sealed (ex_sealed n) (replicate (n + 1) (CHR ''m'')) ''key'' ''iv''"
  by (simp add: sealed_def ex_sealed_def)

text \<open>
  C34: \<open>parse_encrypted_msg_str\<close> on blocks that hold the announced bytes (and one more for the
  message) writes the three base64 words with single spaces between them. It overflows its
  destination exactly when the length of the encrypted message is a multiple of three and
  \<open>malloc\<close> returned no byte more than asked for: the size it computes is then one too small.
\<close>

theorem parse_encrypted_outcome:
  assumes "sealed m w ek iv" and "\<forall>n. n \<le> length (mem n)"
  shows "if 3 dvd encrypted_msg_len m \<and> length (mem (encoded_size m)) = encoded_size m
    then parse_encrypted_msg_str mem m = None
    else \<exists>dest. parse_encrypted_msg_str mem m = Some (int (encoded_size m), dest) \<and>
      cstr dest = Some (join (CHR '' '') [b64 w, b64 ek, b64 iv])"
proof -
  have n: "encoded_size m \<le> length (mem (encoded_size m))" using assms(2) by blast
  with parse_encrypted_result [OF assms] sealed_size(1) [OF assms(1)] show ?thesis
    unfolding wire_join [symmetric] by (auto split: if_splits)
qed

theorem parse_encrypted_outcome_witness:
  "parse_encrypted_msg_str ex_mem (ex_sealed 3) = None \<and>
   (\<exists>r dest. parse_encrypted_msg_str ex_mem (ex_sealed 4) = Some (r, dest))"
  using parse_encrypted_outcome [OF ex_sealed [of 3] ex_mem] parse_encrypted_outcome [OF ex_sealed [of 4] ex_mem]
  by (auto simp: ex_mem_def, auto simp: ex_sealed_def)

text \<open>
  What \<open>parse_encrypted_msg_str\<close> writes, \<open>parse_str_encrypted_msg\<close> reads back: the same key and
  IV with their lengths, and the message with the one byte behind it, so the length it reports is
  one more than that of the encrypted message.
\<close>

lemma encrypted_msg_roundtrip:
  assumes "sealed m w ek iv" and "ek \<noteq> []" and "\<forall>n. n \<le> length (mem n)" and "\<forall>n. n \<le> length (mem' n)"
    and "parse_encrypted_msg_str mem m = Some (r, dest)"
  shows "\<exists>s m'. cstr dest = Some s \<and> parse_str_encrypted_msg mem' s res = Some (1, m') \<and>
    encrypted_msg_len m' = encrypted_msg_len m + 1 \<and> take (length w) (encrypted_msg m') = w \<and>
    encrypted_key_len m' = encrypted_key_len m \<and> take (length ek) (encrypted_key m') = ek \<and>
    init_vector_len m' = init_vector_len m \<and> take (length iv) (init_vector m') = iv"
proof -
  from parse_encrypted_result [OF assms(1,3)] assms(5) have "cstr dest = Some (wire w ek iv)"
    by (auto split: if_splits)
  moreover have "w \<noteq> []" "iv \<noteq> []" using assms(1) by (auto simp: sealed_def)
  with parse_wire [OF _ assms(2) _ assms(4), of w iv "[]" res] obtain m' where
    "parse_str_encrypted_msg mem' (wire w ek iv) res = Some (1, m')"
    "encrypted_msg_len m' = int (length w)" "w = take (length w) (encrypted_msg m')"
    "encrypted_key_len m' = int (length ek)" "ek = take (length ek) (encrypted_key m')"
    "init_vector_len m' = int (length iv)" "iv = take (length iv) (init_vector m')"
    by (auto simp: wire_tail_def)
  ultimately show ?thesis using assms(1) by (intro exI [of _ "wire w ek iv"] exI [of _ m']) (simp add: sealed_def)
qed

text \<open>
  C4: end to end: when \<open>msg_encrypt_encode\<close> with a public key returns a string, \<open>msg_decode_decrypt\<close>
  with the matching private key, in any context and with any allocator, turns that string back
  into the message.
\<close>

theorem encrypt_decrypt_roundtrip:
  assumes "evp_ok evp pub priv" and "\<forall>n. n \<le> length (mem n)" and "\<forall>n. n \<le> length (mem' n)"
    and "NUL \<notin> set msg" and "msg_encrypt_encode evp mem r0 msg ctx pub = Some (Some dest, ctx1)"
  shows "\<exists>s b ctx2. cstr dest = Some s \<and>
    msg_decode_decrypt evp mem' r1 s ctx' priv = Some (Some b, ctx2) \<and> cstr b = Some msg"
proof -
  from encoded_wire [OF assms(1,2,5)] obtain c x ek iv where
    w: "cstr dest = Some (wire (c @ [x]) ek iv)" "ek \<noteq> []" "length iv = EVP_MAX_IV_LENGTH"
      "length msg < length c" "opens evp priv ek iv c (msg @ [NUL])" by blast
  from decrypt_wire [OF w(5,2-4) assms(3,4), where t = "[]" and res = r1 and ctx = ctx'] w(1) show ?thesis
    by (auto simp: wire_tail_def)
qed

lemma ex_encrypt:
  "\<exists>dest ctx1. msg_encrypt_encode ex_evp ex_mem (ex_sealed 1) ''hi'' ex_ctx () = Some (Some dest, ctx1)"
proof -
  obtain o2 where s: "seals ex_evp (rsa_encrypt_ctx ex_ctx) () (''hi'' @ [NUL]) (1, 1, 1) ex_ek
      (replicate 16 (CHR ''i'')) [] o2 []" using ex_seals by blast
  show ?thesis
    by (rule msg_encrypt_encode_result [OF ex_evp_ok ex_mem s, of "ex_sealed 1"])
      (auto simp: seal_len_def length_ex_mem EVP_MAX_IV_LENGTH_def)
qed

theorem encrypt_decrypt_roundtrip_witness:
  "\<exists>dest ctx1 s b ctx2. msg_encrypt_encode ex_evp ex_mem (ex_sealed 1) ''hi'' ex_ctx () = Some (Some dest, ctx1) \<and>
     cstr dest = Some s \<and> msg_decode_decrypt ex_evp ex_mem (ex_sealed 1) s ex_ctx () = Some (Some b, ctx2) \<and>
     cstr b = Some ''hi''"
proof -
  obtain dest ctx1 where e: "msg_encrypt_encode ex_evp ex_mem (ex_sealed 1) ''hi'' ex_ctx () = Some (Some dest, ctx1)"
    using ex_encrypt by blast
  from encrypt_decrypt_roundtrip [OF ex_evp_ok ex_mem ex_mem _ e, of "ex_sealed 1" ex_ctx] e show ?thesis
    by fastforce
qed

text \<open>
  C39: with an allocator that returns blocks of exactly the requested size, and a seal that
  succeeds, \<open>msg_encrypt_encode\<close> accesses memory out of bounds exactly for the message lengths
  where the C string with its NUL fills whole cipher blocks (the encoder reads behind the sealed
  bytes) or where it is padded to a multiple of three blocks (the text form is one byte too long).
\<close>

lemma encrypt_exact_faults:
  assumes "evp_ok evp pub priv" and "\<forall>n. length (mem n) = n"
    and "seals evp (rsa_encrypt_ctx ctx) pub (msg @ [NUL]) (r1, r2, r3) ek iv o1 o2 c3"
    and "r1 \<noteq> 0" and "r2 \<noteq> 0" and "r3 \<noteq> 0"
  shows "msg_encrypt_encode evp mem r0 msg ctx pub = None \<longleftrightarrow>
    16 dvd length msg + 1 \<or> 3 dvd (length msg + 1) div 16 + 1"
proof -
  have mem: "\<forall>n. n \<le> length (mem n)" using assms(2) by simp
  have full: "length msg + 1 + EVP_MAX_IV_LENGTH = seal_len msg \<longleftrightarrow> 16 dvd length msg + 1"
    using seal_len_bounds(3) [of msg] by auto
  have "3 dvd 16 * x \<longleftrightarrow> 3 dvd x" for x :: nat by presburger
  then have dvd: "3 dvd seal_len msg \<longleftrightarrow> 3 dvd (length msg + 1) div 16 + 1"
    unfolding seal_len_def .
  show ?thesis
    by (rule msg_encrypt_encode_result [OF assms(1) mem assms(3-6), of r0]) (simp_all only: full dvd assms(2) simp_thms option.distinct)
qed

theorem encrypt_exact_faults_witness:
  "msg_encrypt_encode ex_evp ex_mem (ex_sealed 1) (replicate 15 (CHR ''x'')) ex_ctx () = None \<and>
   msg_encrypt_encode ex_evp ex_mem (ex_sealed 1) (replicate 32 (CHR ''x'')) ex_ctx () = None \<and>
   msg_encrypt_encode ex_evp ex_mem (ex_sealed 1) (replicate 16 (CHR ''x'')) ex_ctx () \<noteq> None"
proof -
  have len: "\<forall>n. length (ex_mem n) = n" by (simp add: length_ex_mem)
  have "msg_encrypt_encode ex_evp ex_mem (ex_sealed 1) msg ex_ctx () = None \<longleftrightarrow>
      16 dvd length msg + 1 \<or> 3 dvd (length msg + 1) div 16 + 1" for msg
  proof -
    obtain o2 where "seals ex_evp (rsa_encrypt_ctx ex_ctx) () (msg @ [NUL]) (1, 1, 1) ex_ek (replicate 16 (CHR ''i'')) [] o2 []"
      using ex_seals by blast
    from encrypt_exact_faults [OF ex_evp_ok len this, of "ex_sealed 1"] show ?thesis by simp
  qed
  then show ?thesis by (simp flip: numeral_2_eq_2)
qed

end
