(* ===== verification/Msg.thy ===== *)
theory Msg
  imports CString
begin

text \<open>
  Peers and the table of seen messages (\<open>ac-lib/msg.c\<close>, \<open>ac-lib/msg.h\<close>).

  GLib's hash table is a parameter: a record \<open>ghash\<close> of the operations the code calls, on an abstract
  type of tables. A table stores key pointers, not copies, so the operations get the memory
  (\<open>nat \<rightharpoonup> bytes\<close>, freed blocks are absent) in which keys are read. \<open>ghash_ok G ents\<close> states the
  documented behaviour, with \<open>ents\<close> the entries of a table: key pointer, the key's text when it was
  inserted, and value. GLib promises the behaviour only while the keys in the table stay allocated
  and unchanged (\<open>intact\<close>).
\<close>

section \<open>Peers\<close>

definition DEFAULT_PEER_TIMEOUT :: int where "DEFAULT_PEER_TIMEOUT = 30"

definition MESSAGE_PURGE_TIME :: int where "MESSAGE_PURGE_TIME = 30"

text \<open>The struct without the thread and the key, which no function here reads.\<close>

record peer =
  peer_id :: int
  peer_address :: bytes
  peer_port :: bytes
  peer_fd :: int
  open_con :: int
  ttl :: int

text \<open>\<open>blk\<close> is the content of the fresh block, \<open>next_id\<close> the global counter \<open>peer_id\<close>.\<close>

definition create_peer :: "peer \<Rightarrow> int \<Rightarrow> string \<Rightarrow> string \<Rightarrow> (peer \<times> int) option" where
  "create_peer blk next_id ip_addr port = do {
     a \<leftarrow> strncpy (peer_address blk) ip_addr NI_MAXHOST;
     p \<leftarrow> strncpy (peer_port blk) port NI_MAXSERV;
     Some (blk\<lparr>peer_id := next_id, peer_address := a, peer_port := p,
               ttl := DEFAULT_PEER_TIMEOUT, open_con := 0\<rparr>, next_id + 1)
   }"

text \<open>
  Sending appends to the log of sent data; \<open>send\<close> is the result of the system call, and only 0 counts
  as a failure (the system call reports failures as -1).
\<close>

definition send_msg :: "(int \<Rightarrow> bytes \<Rightarrow> int) \<Rightarrow> (int \<times> bytes) list \<Rightarrow> int \<Rightarrow> bytes \<Rightarrow> int \<times> (int \<times> bytes) list"
where
  "send_msg send log fd data = (if send fd data = 0 then 0 else 1, log @ [(fd, data)])"

definition send_msg_peer ::
  "(int \<Rightarrow> bytes \<Rightarrow> int) \<Rightarrow> (int \<times> bytes) list \<Rightarrow> peer \<Rightarrow> bytes \<Rightarrow> int \<times> (int \<times> bytes) list" where
  "send_msg_peer send log p data =
     (if open_con p \<noteq> 0 then send_msg send log (peer_fd p) data else (-1, log))"

section \<open>GLib's hash table\<close>

type_synonym heap = "nat \<rightharpoonup> bytes"

record ('t, 'v) ghash =
  g_new :: 't
  g_insert :: "'t \<Rightarrow> heap \<Rightarrow> nat \<Rightarrow> 'v \<Rightarrow> 't"
  g_lookup :: "'t \<Rightarrow> heap \<Rightarrow> string \<Rightarrow> 'v option"
  g_foreach_remove :: "'t \<Rightarrow> ('v \<Rightarrow> bool) \<Rightarrow> nat list \<times> 't"

type_synonym 'v entries = "(nat \<times> string \<times> 'v) list"

text \<open>The text of a block.\<close>

definition text_at :: "heap \<Rightarrow> nat \<Rightarrow> string option" where
  "text_at mem k = mem k \<bind> cstr"

definition intact :: "heap \<Rightarrow> 'v entries \<Rightarrow> bool" where
  "intact mem es \<longleftrightarrow> (\<forall>(k, s, v) \<in> set es. text_at mem k = Some s)"

definition known :: "'v entries \<Rightarrow> string \<Rightarrow> 'v option" where
  "known es = map_of (map snd es)"

definition ghash_ok :: "('t, 'v) ghash \<Rightarrow> ('t \<Rightarrow> 'v entries) \<Rightarrow> bool" where
  "ghash_ok G ents \<longleftrightarrow>
     ents (g_new G) = [] \<and>
     (\<forall>t mem s. intact mem (ents t) \<longrightarrow> g_lookup G t mem s = known (ents t) s) \<and>
     (\<forall>t mem k s v. intact mem (ents t) \<longrightarrow> text_at mem k = Some s \<longrightarrow> known (ents t) s = None \<longrightarrow>
        ents (g_insert G t mem k v) = (k, s, v) # ents t) \<and>
     (\<forall>t P. ents (snd (g_foreach_remove G t P)) = filter (\<lambda>(k, s, v). \<not> P v) (ents t) \<and>
        fst (g_foreach_remove G t P) = map fst (filter (\<lambda>(k, s, v). P v) (ents t)))"

section \<open>Seen messages\<close>

record message_hash =
  mh_msg :: string
  purge_time :: int

definition client_create_hash_table :: "('t, 'v) ghash \<Rightarrow> 't" where
  "client_create_hash_table G = g_new G"

text \<open>The key is the caller's pointer \<open>k\<close>, the value holds a copy of the text.\<close>

definition client_hash_add_msg ::
  "('t, message_hash) ghash \<Rightarrow> heap \<Rightarrow> int \<Rightarrow> 't \<Rightarrow> nat \<Rightarrow> 't option" where
  "client_hash_add_msg G mem now t k = do {
     s \<leftarrow> text_at mem k;
     Some (g_insert G t mem k \<lparr>mh_msg = s, purge_time = now + MESSAGE_PURGE_TIME\<rparr>)
   }"

definition client_has_seen_msg :: "('t, message_hash) ghash \<Rightarrow> heap \<Rightarrow> 't \<Rightarrow> nat \<Rightarrow> int option" where
  "client_has_seen_msg G mem t k = do {
     s \<leftarrow> text_at mem k;
     Some (if g_lookup G t mem s \<noteq> None then 1 else 0)
   }"

definition purge_message :: "int \<Rightarrow> message_hash \<Rightarrow> bool" where
  "purge_message current_time v \<longleftrightarrow> purge_time v \<le> current_time"

text \<open>The keys of removed entries go to \<open>client_hash_free_key\<close>, which frees them.\<close>

definition client_hash_free_key :: "heap \<Rightarrow> nat \<Rightarrow> heap" where
  "client_hash_free_key mem k = mem(k := None)"

definition client_purge_msg ::
  "('t, message_hash) ghash \<Rightarrow> heap \<Rightarrow> int \<Rightarrow> 't \<Rightarrow> nat \<times> heap \<times> 't" where
  "client_purge_msg G mem now t =
     (let (keys, t') = g_foreach_remove G t (purge_message now) in
      (length keys, fold (\<lambda>k mem. client_hash_free_key mem k) keys mem, t'))"

section \<open>Laws of the table\<close>

lemma ghash_lookup: "ghash_ok G ents \<Longrightarrow> intact mem (ents t) \<Longrightarrow> g_lookup G t mem s = known (ents t) s"
  by (simp add: ghash_ok_def)

lemma ghash_insert: "ghash_ok G ents \<Longrightarrow> intact mem (ents t) \<Longrightarrow> text_at mem k = Some s \<Longrightarrow>
    known (ents t) s = None \<Longrightarrow> ents (g_insert G t mem k v) = (k, s, v) # ents t"
  by (simp add: ghash_ok_def)

lemma ghash_remove: "ghash_ok G ents \<Longrightarrow>
    ents (snd (g_foreach_remove G t P)) = filter (\<lambda>(k, s, v). \<not> P v) (ents t) \<and>
    fst (g_foreach_remove G t P) = map fst (filter (\<lambda>(k, s, v). P v) (ents t))"
  by (simp add: ghash_ok_def)

lemma intact_Nil [simp]: "intact mem []"
  by (simp add: intact_def)

lemma intact_Cons [simp]: "intact mem ((k, s, v) # es) \<longleftrightarrow> text_at mem k = Some s \<and> intact mem es"
  by (simp add: intact_def)

lemma known_simps [simp]: "known [] = Map.empty" "known ((k, s, v) # es) = (known es)(s \<mapsto> v)"
  by (simp_all add: known_def)

lemma known_None: "known es s = None \<longleftrightarrow> s \<notin> (fst \<circ> snd) ` set es"
  by (simp add: known_def map_of_eq_None_iff image_comp)

lemma intact_fresh: "intact mem es \<Longrightarrow> mem a = None \<Longrightarrow> intact (mem(a \<mapsto> b)) es"
  by (fastforce simp: intact_def text_at_def)

lemma text_at_fresh: "text_at (mem(a \<mapsto> b)) a = cstr b"
  by (simp add: text_at_def)

lemma intact_other: "intact mem es \<Longrightarrow> a \<notin> fst ` set es \<Longrightarrow> intact (mem(a := x)) es"
  by (force simp: intact_def text_at_def)

text \<open>An executable instance: a list of entries, searched for an equal text.\<close>

definition assoc_ghash :: "('v entries, 'v) ghash" where
  "assoc_ghash = \<lparr>g_new = [],
     g_insert = (\<lambda>t mem k v. (k, the (text_at mem k), v) # t),
     g_lookup = (\<lambda>t mem s. known t s),
     g_foreach_remove = (\<lambda>t P. (map fst (filter (\<lambda>(k, s, v). P v) t), filter (\<lambda>(k, s, v). \<not> P v) t))\<rparr>"

lemma assoc_ghash_ok: "ghash_ok assoc_ghash (\<lambda>t. t)"
  by (simp add: ghash_ok_def assoc_ghash_def)

text \<open>
  A closer instance: as in GLib's implementation, an entry matches when the hash value stored at its
  insertion matches (here: the text itself) and then the text at its key pointer is equal.
\<close>

definition glib_ghash :: "('v entries, 'v) ghash" where
  "glib_ghash = \<lparr>g_new = [],
     g_insert = (\<lambda>t mem k v. (k, the (text_at mem k), v) # t),
     g_lookup = (\<lambda>t mem s. map_option (snd \<circ> snd) (find (\<lambda>(k, s', v). s' = s \<and> text_at mem k = Some s) t)),
     g_foreach_remove = (\<lambda>t P. (map fst (filter (\<lambda>(k, s, v). P v) t), filter (\<lambda>(k, s, v). \<not> P v) t))\<rparr>"

lemma glib_find:
  "intact mem es \<Longrightarrow> map_option (snd \<circ> snd) (find (\<lambda>(k, s', v). s' = s \<and> text_at mem k = Some s) es) = known es s"
  by (induction es) (auto split: if_splits)

lemma glib_ghash_ok: "ghash_ok glib_ghash (\<lambda>t. t)"
  by (simp add: ghash_ok_def glib_ghash_def glib_find)

text \<open>
  What this implementation does whether keys are intact or not, as a contract: a lookup compares the hash
  values (again taken for the texts) and then the text that the key pointer has now; a text with a new
  hash value makes a new entry.
\<close>

definition glib_like :: "('t, 'v) ghash \<Rightarrow> ('t \<Rightarrow> 'v entries) \<Rightarrow> bool" where
  "glib_like G ents \<longleftrightarrow>
     ents (g_new G) = [] \<and>
     (\<forall>t mem s. g_lookup G t mem s =
        map_option (snd \<circ> snd) (find (\<lambda>(k, s', v). s' = s \<and> text_at mem k = Some s) (ents t))) \<and>
     (\<forall>t mem k s v. text_at mem k = Some s \<longrightarrow> known (ents t) s = None \<longrightarrow>
        ents (g_insert G t mem k v) = (k, s, v) # ents t)"

lemma glib_ghash_like: "glib_like glib_ghash (\<lambda>t. t)"
  by (simp add: glib_like_def glib_ghash_def)

lemma glib_insert: "glib_like G ents \<Longrightarrow> text_at mem k = Some s \<Longrightarrow> known (ents t) s = None \<Longrightarrow>
    ents (g_insert G t mem k v) = (k, s, v) # ents t"
  by (simp add: glib_like_def)

text \<open>When the key pointer is determined by the text of the entry.\<close>

lemma glib_lookup:
  assumes "glib_like G ents" and "\<forall>(k, s, v) \<in> set (ents t). k = addr s"
  shows "g_lookup G t mem s = (if text_at mem (addr s) = Some s then known (ents t) s else None)"
proof -
  have "map_option (snd \<circ> snd) (find (\<lambda>(k, s', v). s' = s \<and> text_at mem k = Some s) es) =
      (if text_at mem (addr s) = Some s then known es s else None)" if "\<forall>(k, s, v) \<in> set es. k = addr s" for es :: "'b entries"
    using that by (induction es) (auto split: if_splits)
  from this [OF assms(2)] assms(1) show ?thesis by (simp add: glib_like_def)
qed

lemma fold_free: "fold (\<lambda>k mem. client_hash_free_key mem k) ks mem a = (if a \<in> set ks then None else mem a)"
  by (induction ks arbitrary: mem) (auto simp: client_hash_free_key_def)

section \<open>Properties\<close>

text \<open>
  The table of seen messages is a set of texts, as long as no key in it is freed or
  overwritten: adding a message that has not been seen makes exactly that text seen and no other,
  and its value holds a copy of it that expires after \<open>MESSAGE_PURGE_TIME\<close> seconds.
\<close>

lemma hash_add_seen:
  assumes "ghash_ok G ents" and "intact mem (ents t)"
    and "text_at mem k = Some s" and "client_has_seen_msg G mem t k = Some 0"
  shows "\<exists>t'. client_hash_add_msg G mem now t k = Some t' \<and> intact mem (ents t') \<and>
    known (ents t') s = Some \<lparr>mh_msg = s, purge_time = now + 30\<rparr> \<and>
    (\<forall>j r. text_at mem j = Some r \<longrightarrow> client_has_seen_msg G mem t' j =
       (if r = s then Some 1 else client_has_seen_msg G mem t j))"
proof -
  have new: "known (ents t) s = None"
    using assms(3,4) ghash_lookup [OF assms(1,2)] by (auto simp: client_has_seen_msg_def split: if_splits)
  let ?v = "\<lparr>mh_msg = s, purge_time = now + MESSAGE_PURGE_TIME\<rparr>"
  from ghash_insert [OF assms(1-3) new, of ?v] have
    e: "ents (g_insert G t mem k ?v) = (k, s, ?v) # ents t" .
  then have "intact mem (ents (g_insert G t mem k ?v))" using assms(2,3) by simp
  note lookup = ghash_lookup [OF assms(1) this] ghash_lookup [OF assms(1,2)]
  from assms(2,3) e lookup show ?thesis
    by (auto simp: client_hash_add_msg_def client_has_seen_msg_def MESSAGE_PURGE_TIME_def)
qed

text \<open>
  Purging at time \<open>now\<close> removes exactly the messages whose purge time is not after \<open>now\<close>,
  returns their number and frees their keys; what remains in the table and in memory is unchanged.
  (The comment of \<open>purge_message\<close> speaks of purge times before the current time only.)
\<close>

lemma purge_expired:
  assumes "ghash_ok G ents"
  shows "case client_purge_msg G mem now t of (n, mem', t') \<Rightarrow>
    ents t' = filter (\<lambda>(k, s, v). now < purge_time v) (ents t) \<and>
    n = length (filter (\<lambda>(k, s, v). purge_time v \<le> now) (ents t)) \<and>
    (\<forall>a. mem' a = (if \<exists>(k, s, v) \<in> set (ents t). k = a \<and> purge_time v \<le> now then None else mem a))"
proof -
  obtain keys t' where r: "g_foreach_remove G t (purge_message now) = (keys, t')"
    by (cases "g_foreach_remove G t (purge_message now)")
  from ghash_remove [OF assms, of t "purge_message now"] r have
    "ents t' = filter (\<lambda>(k, s, v). \<not> purge_message now v) (ents t)"
    and keys: "keys = map fst (filter (\<lambda>(k, s, v). purge_message now v) (ents t))" by simp_all
  then show ?thesis
    by (auto simp: client_purge_msg_def r fold_free purge_message_def not_le case_prod_beta)
qed

end
