(* ===== verification/KeyTable.thy ===== *)
theory KeyTable
  imports Msg
begin

text \<open>
  Keys: the table of public keys (\<open>ac-client-server/key_table.c\<close>) and loading them
  (\<open>load_public_keys\<close>, \<open>load_private_key\<close> and \<open>load_peer_keys\<close> of
  \<open>ac-client-server/client_server.c\<close>, \<open>client_open_pub_key\<close> and \<open>client_open_priv_key\<close> of \<open>ac-lib/enc.c\<close>).

  The file system and OpenSSL's PEM reader are a parameter, a record \<open>files\<close>; keys are of an abstract type.
  The code copies the struct of a key with \<open>memcpy\<close> and frees the original with \<open>free\<close>, which frees
  the struct alone: the copy has the pointers to the same numbers, and is the same key here; only that
  copying from NULL is a fault is kept.

  The key table stores the pointer to the name in the directory entry, so the model keeps entries in
  memory: \<open>fs_entry\<close> gives the address of the name that \<open>readdir\<close> returns, and the blocks that the call
  writes, where POSIX allows the storage of earlier entries among them (\<open>readdir_ok\<close>). The code never
  calls \<open>closedir\<close>.
\<close>

section \<open>The key table\<close>

definition KT_MAX_KEY_NAME_LEN :: nat where "KT_MAX_KEY_NAME_LEN = 256"

record 'k rsa_key =
  key_id :: int
  rsa_name :: bytes
  rsa_evp :: 'k

text \<open>\<open>blk\<close> is the name field of the fresh block, \<open>next_id\<close> the global counter \<open>key_id\<close>.\<close>

definition create_rsa_key :: "bytes \<Rightarrow> int \<Rightarrow> string \<Rightarrow> 'k \<Rightarrow> ('k rsa_key \<times> int) option" where
  "create_rsa_key blk next_id name key = do {
     n \<leftarrow> strncpy blk name KT_MAX_KEY_NAME_LEN;
     Some (\<lparr>key_id = next_id, rsa_name = n, rsa_evp = key\<rparr>, next_id + 1)
   }"

definition key_create_hash_table :: "('t, 'k rsa_key) ghash \<Rightarrow> 't" where
  "key_create_hash_table G = g_new G"

definition key_hash_add ::
  "('t, 'k rsa_key) ghash \<Rightarrow> heap \<Rightarrow> bytes \<Rightarrow> int \<Rightarrow> 't \<Rightarrow> nat \<Rightarrow> 'k \<Rightarrow> ('t \<times> int) option" where
  "key_hash_add G mem blk next_id t name key = do {
     s \<leftarrow> text_at mem name;
     (rsa_key, next_id) \<leftarrow> create_rsa_key blk next_id s key;
     Some (g_insert G t mem name rsa_key, next_id)
   }"

definition key_get_by_name :: "('t, 'k rsa_key) ghash \<Rightarrow> heap \<Rightarrow> 't \<Rightarrow> string \<Rightarrow> 'k option" where
  "key_get_by_name G mem t key_name =
     (case g_lookup G t mem key_name of
        Some rsa_key \<Rightarrow> Some (rsa_evp rsa_key)
      | None \<Rightarrow> None)"

section \<open>Loading keys\<close>

record ('k, 'p) files =
  fs_open :: "string \<Rightarrow> string option"
  fs_pem_pub :: "string \<Rightarrow> 'k option"
  fs_pem_priv :: "string \<Rightarrow> 'p option"
  fs_dir :: "string \<Rightarrow> string list option"
  fs_entry :: "string \<Rightarrow> nat \<times> heap"

definition client_open_pub_key :: "('k, 'p) files \<Rightarrow> string \<Rightarrow> 'k option" where
  "client_open_pub_key F file_path =
     (case fs_open F file_path of None \<Rightarrow> None | Some fp \<Rightarrow> fs_pem_pub F fp)"

definition client_open_priv_key :: "('k, 'p) files \<Rightarrow> string \<Rightarrow> 'p option" where
  "client_open_priv_key F file_path =
     (case fs_open F file_path of None \<Rightarrow> None | Some fp \<Rightarrow> fs_pem_priv F fp)"

definition PUBLIC_KEY_DIR :: string where "PUBLIC_KEY_DIR = ''./pub_key/''"

definition PRIVATE_KEY_DIR :: string where "PRIVATE_KEY_DIR = ''./priv_key/''"

definition full_path_len :: nat where "full_path_len = 256 + 25 + 1"

text \<open>The local buffer \<open>full_path\<close>; copying a key from a NULL pointer is a fault.\<close>

definition load_private_key :: "('k, 'p) files \<Rightarrow> bytes \<Rightarrow> string \<Rightarrow> 'p option" where
  "load_private_key F full_path key_name = do {
     full_path \<leftarrow> strncpy full_path PRIVATE_KEY_DIR full_path_len;
     full_path \<leftarrow> strncat full_path key_name full_path_len;
     path \<leftarrow> cstr full_path;
     client_open_priv_key F path
   }"

text \<open>The path of one key of \<open>load_peer_keys\<close>: directory, name and extension in a fresh block.\<close>

definition peer_key_path :: "(nat \<Rightarrow> bytes) \<Rightarrow> string \<Rightarrow> string \<Rightarrow> string \<Rightarrow> string option" where
  "peer_key_path malloc dir key_name ext = do {
     let len = length dir + length key_name + length ext + 1;
     name \<leftarrow> strncpy (malloc len) dir len;
     name \<leftarrow> strncat name key_name len;
     name \<leftarrow> strncat name ext len;
     cstr name
   }"

definition load_peer_keys :: "('k, 'p) files \<Rightarrow> (nat \<Rightarrow> bytes) \<Rightarrow> string \<Rightarrow> ('p \<times> 'k) option" where
  "load_peer_keys F malloc key_name = do {
     private_key_name \<leftarrow> peer_key_path malloc PRIVATE_KEY_DIR key_name ''.pem'';
     public_key_name \<leftarrow> peer_key_path malloc PUBLIC_KEY_DIR key_name ''.pub.peer'';
     peer_private_key \<leftarrow> client_open_priv_key F private_key_name;
     peer_public_key \<leftarrow> client_open_pub_key F public_key_name;
     Some (peer_private_key, peer_public_key)
   }"

text \<open>The position of the last \<open>d\<close> in a string.\<close>

definition strrchr :: "string \<Rightarrow> char \<Rightarrow> nat option" where
  "strrchr s d = (if d \<in> set s then Some (length s - Suc (length (takeWhile (\<lambda>c. c \<noteq> d) (rev s)))) else None)"

record 't keys =
  k_mem :: heap
  k_table :: 't
  k_next :: int

definition load_entry ::
  "('t, 'k rsa_key) ghash \<Rightarrow> ('k, 'p) files \<Rightarrow> bytes \<Rightarrow> string \<Rightarrow> bytes \<times> 't keys \<Rightarrow> (bytes \<times> 't keys) option"
where
  "load_entry G F blk d_name fs = (case fs of (full_path, s) \<Rightarrow> do {
     let (file, written) = fs_entry F d_name;
     let mem = k_mem s ++ written;
     let s = s\<lparr>k_mem := mem\<rparr>;
     name \<leftarrow> text_at mem file;
     full_path \<leftarrow> strncpy full_path PUBLIC_KEY_DIR full_path_len;
     full_path \<leftarrow> strncat full_path name full_path_len;
     (case strrchr name (CHR ''.'') of
        None \<Rightarrow> Some (full_path, s)
      | Some i \<Rightarrow> do {
          b \<leftarrow> mem file;
          b \<leftarrow> put_byte b i NUL;
          let s = s\<lparr>k_mem := mem(file \<mapsto> b)\<rparr>;
          let ext = drop (Suc i) name;
          s \<leftarrow> (if strncmp ext ''pub'' 4 = 0 then do {
                   path \<leftarrow> cstr full_path;
                   key \<leftarrow> client_open_pub_key F path;
                   (t, n) \<leftarrow> key_hash_add G (k_mem s) blk (k_next s) (k_table s) file key;
                   Some (s\<lparr>k_table := t, k_next := n\<rparr>)
                 }
                 else Some s);
          full_path \<leftarrow> zero_bytes full_path full_path_len;
          Some (full_path, s)
        })
   })"

definition load_public_keys ::
  "('t, 'k rsa_key) ghash \<Rightarrow> ('k, 'p) files \<Rightarrow> bytes \<Rightarrow> bytes \<Rightarrow> 't keys \<Rightarrow> 't keys option" where
  "load_public_keys G F full_path blk s =
     (case fs_dir F PUBLIC_KEY_DIR of
        None \<Rightarrow> Some s
      | Some names \<Rightarrow> map_option snd (mfold (load_entry G F blk) names (full_path, s)))"

section \<open>Names and extensions\<close>

lemma strrchr_split: "d \<notin> set e \<Longrightarrow> strrchr (s @ d # e) d = Some (length s)"
proof -
  assume "d \<notin> set e"
  then have "takeWhile (\<lambda>c. c \<noteq> d) (rev e @ d # rev s) = rev e" by (intro takeWhile_stop) simp
  then show ?thesis by (simp add: strrchr_def)
qed

lemma strrchr_Some:
  assumes "strrchr s d = Some i"
  obtains a e where "s = a @ d # e" and "d \<notin> set e" and "i = length a"
proof -
  from assms have "d \<in> set s" by (auto simp: strrchr_def split: if_splits)
  then obtain a e where s: "s = a @ d # e" "d \<notin> set e" by (metis split_list_last)
  with assms strrchr_split [of d e a] that show ?thesis by simp
qed

lemma strrchr_None: "strrchr s d = None \<longleftrightarrow> d \<notin> set s"
  by (simp add: strrchr_def)

lemma strncmp_eq: "NUL \<notin> set a \<Longrightarrow> NUL \<notin> set b \<Longrightarrow> length b < n \<Longrightarrow> strncmp a b n = 0 \<longleftrightarrow> a = b"
  by (induction a b n rule: strncmp.induct) (auto simp: of_char_NUL)

section \<open>The specification\<close>

text \<open>
  What POSIX says of \<open>readdir\<close>: each name is listed once, and each call returns a terminated copy of it, in
  storage that later calls may overwrite.
\<close>

definition readdir_ok :: "('k, 'p) files \<Rightarrow> string list \<Rightarrow> bool" where
  "readdir_ok F names \<longleftrightarrow> distinct names \<and>
     (\<forall>d \<in> set names. \<exists>b. snd (fs_entry F d) (fst (fs_entry F d)) = Some b \<and> cstr b = Some d)"

text \<open>
  The memory after an entry, which the code cuts at its last dot, and after all of them; where the name of a
  key is, if its entry is still there.
\<close>

definition after_entry :: "('k, 'p) files \<Rightarrow> string \<Rightarrow> heap \<Rightarrow> heap" where
  "after_entry F d mem = (case fs_entry F d of (a, written) \<Rightarrow>
     (case strrchr d (CHR ''.'') of
        None \<Rightarrow> mem ++ written
      | Some i \<Rightarrow> (mem ++ written)(a \<mapsto> (the (written a))[i := NUL])))"

definition dir_memory :: "('k, 'p) files \<Rightarrow> string list \<Rightarrow> heap \<Rightarrow> heap" where
  "dir_memory F names mem = fold (after_entry F) names mem"

definition key_addr :: "('k, 'p) files \<Rightarrow> string \<Rightarrow> nat" where
  "key_addr F n = fst (fs_entry F (n @ ''.pub''))"

definition stem_of :: "string \<Rightarrow> string" where
  "stem_of d = (case strrchr d (CHR ''.'') of None \<Rightarrow> d | Some i \<Rightarrow> take i d)"

definition pub_path :: "string \<Rightarrow> string" where
  "pub_path name = PUBLIC_KEY_DIR @ name @ ''.pub''"

text \<open>The keys that have been entered when the entries \<open>names\<close> have been read, and those that are found.\<close>

definition keys_of :: "('k, 'p) files \<Rightarrow> string list \<Rightarrow> string \<Rightarrow> 'k option" where
  "keys_of F names n = (if n @ ''.pub'' \<in> set names then client_open_pub_key F (pub_path n) else None)"

definition keys_found :: "('k, 'p) files \<Rightarrow> string list \<Rightarrow> heap \<Rightarrow> string \<Rightarrow> 'k option" where
  "keys_found F names mem n = (if text_at mem (key_addr F n) = Some n then keys_of F names n else None)"

text \<open>A name that ends in \<open>.pub\<close> but whose file does not hold a key.\<close>

definition unreadable :: "('k, 'p) files \<Rightarrow> string \<Rightarrow> bool" where
  "unreadable F d \<longleftrightarrow> strrchr d (CHR ''.'') = Some (length d - 4) \<and> drop (length d - 4) d = ''.pub'' \<and>
     client_open_pub_key F (PUBLIC_KEY_DIR @ d) = None"

definition dir_name :: "string \<Rightarrow> bool" where
  "dir_name n \<longleftrightarrow> NUL \<notin> set n \<and> length n \<le> 255"

definition keys_inv ::
  "('k, 'p) files \<Rightarrow> heap \<Rightarrow> ('t \<Rightarrow> 'k rsa_key entries) \<Rightarrow> string list \<Rightarrow> bytes \<times> 't keys \<Rightarrow> bool" where
  "keys_inv F mem ents names fs \<longleftrightarrow>
     length (fst fs) = full_path_len \<and> k_mem (snd fs) = dir_memory F names mem \<and>
     (\<forall>n. map_option rsa_evp (known (ents (k_table (snd fs))) n) = keys_of F names n) \<and>
     (\<forall>(a, n, v) \<in> set (ents (k_table (snd fs))). a = key_addr F n)"

text \<open>A name that does not end in \<open>.pub\<close> adds nothing.\<close>

lemma keys_of_other: "(\<forall>n. d \<noteq> n @ ''.pub'') \<Longrightarrow> keys_of F (names @ [d]) = keys_of F names"
  by (auto simp: keys_of_def fun_eq_iff)

lemma build_path:
  assumes "length fp = full_path_len" and "NUL \<notin> set dir" and "length dir < full_path_len" and "NUL \<notin> set name"
  shows "\<exists>fp1. strncpy fp dir full_path_len = Some fp1 \<and>
    (if length dir + length name < full_path_len
     then \<exists>fp2. strncat fp1 name full_path_len = Some fp2 \<and> cstr fp2 = Some (dir @ name) \<and> length fp2 = full_path_len
     else strncat fp1 name full_path_len = None)"
proof -
  obtain fp1 where fp1: "strncpy fp dir full_path_len = Some fp1" "cstr fp1 = Some dir" "length fp1 = full_path_len"
    using strncpy_fits [OF assms(2,3), of fp] assms(1) by auto
  have "strncat fp1 name full_path_len = None" if "full_path_len < length name"
    using strncat_None_iff [OF fp1(2)] fp1(3) that by simp
  with strncat_step [OF fp1(2) assms(4), of full_path_len] fp1(1,3) show ?thesis
    by (cases "length name \<le> full_path_len") auto
qed

lemma dir_lengths: "length PUBLIC_KEY_DIR = 10" "length PRIVATE_KEY_DIR = 11" "full_path_len = 282"
  "NUL \<notin> set PUBLIC_KEY_DIR" "NUL \<notin> set PRIVATE_KEY_DIR"
  by (simp_all add: PUBLIC_KEY_DIR_def PRIVATE_KEY_DIR_def full_path_len_def)

lemma load_path:
  assumes "length fp = full_path_len" and "dir_name d"
  shows "\<exists>fp1 fp2. strncpy fp PUBLIC_KEY_DIR full_path_len = Some fp1 \<and> strncat fp1 d full_path_len = Some fp2 \<and>
    cstr fp2 = Some (PUBLIC_KEY_DIR @ d) \<and> length fp2 = full_path_len"
  using build_path [OF assms(1), of PUBLIC_KEY_DIR d] assms(2) by (auto simp: dir_lengths dir_name_def)

text \<open>The private key: a name of more than 270 characters overflows the local path buffer.\<close>

lemma load_private_key_result:
  assumes "length full_path = full_path_len" and "NUL \<notin> set key_name"
  shows "load_private_key F full_path key_name =
    (if length key_name \<le> 270 then client_open_priv_key F (PRIVATE_KEY_DIR @ key_name) else None)"
  using build_path [OF assms(1), of PRIVATE_KEY_DIR key_name] assms(2)
  by (auto simp: load_private_key_def dir_lengths)

lemma peer_key_path_result:
  assumes "\<forall>n. n \<le> length (malloc n)" and "NUL \<notin> set dir" and "NUL \<notin> set key_name" and "NUL \<notin> set ext"
  shows "peer_key_path malloc dir key_name ext = Some (dir @ key_name @ ext)"
proof -
  let ?n = "length dir + length key_name + length ext + 1"
  have blk: "?n \<le> length (malloc ?n)" using assms(1) by blast
  obtain m1 where m1: "strncpy (malloc ?n) dir ?n = Some m1" "cstr m1 = Some dir" "length m1 = length (malloc ?n)"
    using strncpy_fits [OF assms(2), of ?n "malloc ?n"] blk by auto
  obtain m2 where m2: "strncat m1 key_name ?n = Some m2" "cstr m2 = Some (dir @ key_name)" "length m2 = length m1"
    using strncat_step [OF m1(2) assms(3), of ?n] m1(3) blk by auto
  obtain m3 where "strncat m2 ext ?n = Some m3" "cstr m3 = Some ((dir @ key_name) @ ext)"
    using strncat_step [OF m2(2) assms(4), of ?n] m1(3) m2(3) blk by auto
  with m1(1) m2(1) show ?thesis by (simp add: peer_key_path_def)
qed

lemma load_peer_keys_result:
  assumes "\<forall>n. n \<le> length (malloc n)" and "NUL \<notin> set key_name"
  shows "load_peer_keys F malloc key_name = do {
    priv \<leftarrow> client_open_priv_key F (PRIVATE_KEY_DIR @ key_name @ ''.pem'');
    pub \<leftarrow> client_open_pub_key F (PUBLIC_KEY_DIR @ key_name @ ''.pub.peer'');
    Some (priv, pub) }"
  using peer_key_path_result [OF assms(1) dir_lengths(5) assms(2), of "''.pem''"]
    peer_key_path_result [OF assms(1) dir_lengths(4) assms(2), of "''.pub.peer''"]
  by (simp add: load_peer_keys_def)

lemma cut_extension:
  assumes "cstr b = Some (a @ d # e)"
  shows "\<exists>b'. put_byte b (length a) NUL = Some b' \<and> cstr b' = Some a"
proof -
  from assms obtain r where b: "b = (a @ d # e) @ NUL # r" "NUL \<notin> set (a @ d # e)" by (rule cstr_split)
  then have "put_byte b (length a) NUL = Some (a @ NUL # e @ NUL # r)" by (simp add: put_byte_def)
  with b(2) show ?thesis by simp
qed

lemma unreadable_pub: "unreadable F (n @ ''.pub'') \<longleftrightarrow> client_open_pub_key F (pub_path n) = None"
proof -
  have "strrchr (n @ CHR ''.'' # ''pub'') (CHR ''.'') = Some (length n)" by (rule strrchr_split) simp
  then show ?thesis by (simp add: unreadable_def pub_path_def)
qed

lemma unreadable_other: "\<forall>n. d \<noteq> n @ ''.pub'' \<Longrightarrow> \<not> unreadable F d"
  by (metis append_take_drop_id unreadable_def)

text \<open>What an iteration starts from: the entry in memory, and the path in its buffer.\<close>

lemma load_entry_start:
  assumes F: "readdir_ok F (names @ d # ds)" and inv: "keys_inv F mem ents names (fp, s)" and d: "dir_name d"
  obtains a W b fp1 fp2 where "fs_entry F d = (a, W)" and "W a = Some b" and "cstr b = Some d" and "d \<notin> set names"
    and "strncpy fp PUBLIC_KEY_DIR full_path_len = Some fp1" and "strncat fp1 d full_path_len = Some fp2"
    and "cstr fp2 = Some (PUBLIC_KEY_DIR @ d)" and "length fp2 = full_path_len"
    and "text_at (k_mem s ++ W) a = Some d" and "(k_mem s ++ W) a = Some b"
proof -
  obtain a W where rd: "fs_entry F d = (a, W)" by (cases "fs_entry F d")
  with F obtain b where b: "W a = Some b" "cstr b = Some d" and new: "d \<notin> set names" by (auto simp: readdir_ok_def)
  then have m: "text_at (k_mem s ++ W) a = Some d" "(k_mem s ++ W) a = Some b" by (simp_all add: text_at_def)
  from load_path [OF _ d, of fp] inv obtain fp1 fp2 where
    "strncpy fp PUBLIC_KEY_DIR full_path_len = Some fp1" "strncat fp1 d full_path_len = Some fp2"
    "cstr fp2 = Some (PUBLIC_KEY_DIR @ d)" "length fp2 = full_path_len" by (auto simp: keys_inv_def)
  from that [OF rd b new this m] show ?thesis .
qed

lemma dir_memory_snoc: "dir_memory F (names @ [d]) mem = after_entry F d (dir_memory F names mem)"
  by (simp add: dir_memory_def)

lemma ext_pub: "NUL \<notin> set ext \<Longrightarrow> strncmp ext ''pub'' 4 = 0 \<longleftrightarrow> ext = ''pub''"
  by (simp add: strncmp_eq)

text \<open>A name without the extension is skipped; a public key is opened and entered.\<close>

lemma load_entry_other:
  assumes F: "readdir_ok F (names @ d # ds)" and inv: "keys_inv F mem ents names (fp, s)" and d: "dir_name d"
    and other: "\<forall>n. d \<noteq> n @ ''.pub''"
  shows "\<exists>r. load_entry G F blk d (fp, s) = Some r \<and> keys_inv F mem ents (names @ [d]) r"
proof -
  from F inv d obtain a W b fp1 fp2 where s: "fs_entry F d = (a, W)" "W a = Some b" "cstr b = Some d" "d \<notin> set names"
    "strncpy fp PUBLIC_KEY_DIR full_path_len = Some fp1" "strncat fp1 d full_path_len = Some fp2"
    "cstr fp2 = Some (PUBLIC_KEY_DIR @ d)" and fp2: "length fp2 = full_path_len"
    and m: "text_at (k_mem s ++ W) a = Some d" "(k_mem s ++ W) a = Some b" by (rule load_entry_start)
  note inv = inv [unfolded keys_inv_def fst_conv snd_conv]
  note start = load_entry_def s(1,5-7) m Let_def
  show ?thesis
  proof (cases "strrchr d (CHR ''.'')")
    case None
    then have "load_entry G F blk d (fp, s) = Some (fp2, s\<lparr>k_mem := k_mem s ++ W\<rparr>)" by (simp add: start)
    moreover have "k_mem s ++ W = dir_memory F (names @ [d]) mem"
      using inv None by (simp add: dir_memory_snoc after_entry_def s(1))
    ultimately show ?thesis using inv other fp2 by (simp add: keys_inv_def keys_of_other)
  next
    case (Some i)
    then obtain stem ext where e: "d = stem @ CHR ''.'' # ext" "CHR ''.'' \<notin> set ext" "i = length stem"
      by (rule strrchr_Some)
    from cstr_length [OF s(3)] e have "i < length b" by simp
    then have b': "put_byte b i NUL = Some (b[i := NUL])" by (simp add: put_byte_def)
    have cmp: "strncmp ext ''pub'' 4 \<noteq> 0"
      using ext_pub [of ext] d e(1) other by (auto simp: dir_name_def)
    obtain z where z: "zero_bytes fp2 full_path_len = Some z" "length z = full_path_len"
      using fp2 by (auto simp: zero_bytes_def)
    have ext: "drop (Suc i) d = ext" by (simp add: e)
    have "load_entry G F blk d (fp, s) = Some (z, s\<lparr>k_mem := (k_mem s ++ W)(a \<mapsto> b[i := NUL])\<rparr>)"
      using z by (simp add: start Some b' ext cmp)
    moreover have "(k_mem s ++ W)(a \<mapsto> b[i := NUL]) = dir_memory F (names @ [d]) mem"
      using inv Some by (simp add: dir_memory_snoc after_entry_def s(1,2))
    ultimately show ?thesis using inv other z by (simp add: keys_inv_def keys_of_other)
  qed
qed

lemma load_entry_pub:
  assumes G: "glib_like G ents" and F: "readdir_ok F (names @ d # ds)"
    and blk: "KT_MAX_KEY_NAME_LEN \<le> length blk" and inv: "keys_inv F mem ents names (fp, s)" and d: "dir_name d"
    and pub: "d = stem @ ''.pub''"
  shows "case client_open_pub_key F (pub_path stem) of
      None \<Rightarrow> load_entry G F blk d (fp, s) = None
    | Some key \<Rightarrow> \<exists>r. load_entry G F blk d (fp, s) = Some r \<and> keys_inv F mem ents (names @ [d]) r"
proof -
  from F inv d obtain a W b fp1 fp2 where s: "fs_entry F d = (a, W)" "W a = Some b" "cstr b = Some d" "d \<notin> set names"
    "strncpy fp PUBLIC_KEY_DIR full_path_len = Some fp1" "strncat fp1 d full_path_len = Some fp2"
    "cstr fp2 = Some (PUBLIC_KEY_DIR @ d)" and fp2: "length fp2 = full_path_len"
    and m: "text_at (k_mem s ++ W) a = Some d" "(k_mem s ++ W) a = Some b" by (rule load_entry_start)
  note inv = inv [unfolded keys_inv_def fst_conv snd_conv]
  have i: "strrchr d (CHR ''.'') = Some (length stem)" 
    using strrchr_split [of "CHR ''.''" "''pub''" stem] pub by simp
  from cut_extension [of b stem "CHR ''.''" "''pub''"] s(3) pub obtain b' where
    b': "put_byte b (length stem) NUL = Some b'" "cstr b' = Some stem" by auto
  then have upd: "b' = b[length stem := NUL]" by (auto simp: put_byte_def split: if_splits)
  obtain z where z: "zero_bytes fp2 full_path_len = Some z" "length z = full_path_len"
    using fp2 by (auto simp: zero_bytes_def)
  have ext: "drop (Suc (length stem)) d = ''pub''" and cmp: "strncmp ''pub'' ''pub'' 4 = 0"
    and path: "PUBLIC_KEY_DIR @ d = pub_path stem" by (simp_all add: pub pub_path_def ext_pub)
  note step = load_entry_def s(1,5-7) m Let_def i b' ext cmp z path
  show ?thesis
  proof (cases "client_open_pub_key F (pub_path stem)")
    case None
    then show ?thesis by (simp add: step)
  next
    case (Some key)
    have new: "known (ents (k_table s)) stem = None"
      using inv s(4) pub by (metis keys_of_def map_option_is_None)
    obtain n where n: "strncpy blk stem KT_MAX_KEY_NAME_LEN = Some n" using blk by (simp add: strncpy_def)
    let ?rk = "\<lparr>key_id = k_next s, rsa_name = n, rsa_evp = key\<rparr>" and ?mem = "(k_mem s ++ W)(a \<mapsto> b')"
    have t: "text_at ?mem a = Some stem" by (simp add: text_at_fresh b')
    from glib_insert [OF G t new, of ?rk] have
      ins: "ents (g_insert G (k_table s) ?mem a ?rk) = (a, stem, ?rk) # ents (k_table s)" .
    let ?s = "s\<lparr>k_mem := ?mem, k_table := g_insert G (k_table s) ?mem a ?rk, k_next := k_next s + 1\<rparr>"
    have run: "load_entry G F blk d (fp, s) = Some (z, ?s)"
      using Some n t by (simp add: step key_hash_add_def create_rsa_key_def)
    have "keys_of F (names @ [d]) m = (if m = stem then Some key else keys_of F names m)" for m
      using Some pub by (simp add: keys_of_def)
    moreover have "?mem = dir_memory F (names @ [d]) mem"
      using inv by (simp add: dir_memory_snoc after_entry_def s(1,2) i upd)
    moreover have "key_addr F stem = a" using s(1) pub by (simp add: key_addr_def)
    ultimately have "keys_inv F mem ents (names @ [d]) (z, ?s)" using inv ins z by (simp add: keys_inv_def)
    with run Some show ?thesis by (intro option.split [THEN iffD2]) auto
  qed
qed

lemma load_entry_result:
  assumes G: "glib_like G ents" and F: "readdir_ok F (names @ d # ds)"
    and blk: "KT_MAX_KEY_NAME_LEN \<le> length blk"
    and inv: "keys_inv F mem ents names (fp, s)" and d: "dir_name d"
  shows "if unreadable F d then load_entry G F blk d (fp, s) = None
    else \<exists>r. load_entry G F blk d (fp, s) = Some r \<and> keys_inv F mem ents (names @ [d]) r"
proof (cases "\<exists>n. d = n @ ''.pub''")
  case True
  then obtain n where n: "d = n @ ''.pub''" ..
  from load_entry_pub [OF G F blk inv d n] show ?thesis
    by (cases "client_open_pub_key F (pub_path n)") (simp_all add: n unreadable_pub)
next
  case False
  with load_entry_other [OF F inv d, of G blk] unreadable_other [of d F] show ?thesis by simp
qed

lemma load_entries_result:
  assumes G: "glib_like G ents" and blk: "KT_MAX_KEY_NAME_LEN \<le> length blk"
  shows "keys_inv F mem ents names fs \<Longrightarrow> readdir_ok F (names @ ds) \<Longrightarrow> \<forall>d \<in> set ds. dir_name d \<Longrightarrow>
    if \<exists>d \<in> set ds. unreadable F d then mfold (load_entry G F blk) ds fs = None
    else \<exists>r. mfold (load_entry G F blk) ds fs = Some r \<and> keys_inv F mem ents (names @ ds) r"
proof (induction ds arbitrary: fs names)
  case (Cons d ds)
  obtain fp s where fs: "fs = (fp, s)" by (cases fs)
  from load_entry_result [OF G Cons.prems(2) blk Cons.prems(1) [unfolded fs]] Cons.prems(3) have
    step: "if unreadable F d then load_entry G F blk d fs = None
    else \<exists>r. load_entry G F blk d fs = Some r \<and> keys_inv F mem ents (names @ [d]) r" unfolding fs by auto
  show ?case
  proof (cases "unreadable F d")
    case True
    with step show ?thesis by simp
  next
    case False
    with step obtain r where r: "load_entry G F blk d fs = Some r" "keys_inv F mem ents (names @ [d]) r" by auto
    have "readdir_ok F ((names @ [d]) @ ds)" "\<forall>d \<in> set ds. dir_name d" using Cons.prems(2,3) by auto
    from Cons.IH [OF r(2) this] r(1) False show ?thesis
      by (cases "\<exists>d \<in> set ds. unreadable F d") (simp_all del: split_paired_Ex)
  qed
qed simp

lemma load_public_keys_run:
  assumes G: "glib_like G ents" and new: "k_table s = key_create_hash_table G"
    and bufs: "length full_path = full_path_len" "KT_MAX_KEY_NAME_LEN \<le> length blk"
    and dir: "fs_dir F PUBLIC_KEY_DIR = Some names" "readdir_ok F names" "\<forall>d \<in> set names. dir_name d"
  shows "if \<exists>d \<in> set names. unreadable F d
    then load_public_keys G F full_path blk s = None
    else \<exists>s'. load_public_keys G F full_path blk s = Some s' \<and> k_mem s' = dir_memory F names (k_mem s) \<and>
      (\<forall>mem n. key_get_by_name G mem (k_table s') n = keys_found F names mem n)"
proof -
  have "ents (key_create_hash_table G) = []" using G by (simp add: glib_like_def key_create_hash_table_def)
  then have "keys_inv F (k_mem s) ents [] (full_path, s)"
    using new bufs(1) by (simp add: keys_inv_def keys_of_def dir_memory_def)
  from load_entries_result [OF G bufs(2) this] dir(2,3) have
    run: "if \<exists>d \<in> set names. unreadable F d then mfold (load_entry G F blk) names (full_path, s) = None
    else \<exists>r. mfold (load_entry G F blk) names (full_path, s) = Some r \<and> keys_inv F (k_mem s) ents names r"
    unfolding append_Nil by blast
  have "k_mem (snd r) = dir_memory F names (k_mem s) \<and> key_get_by_name G mem (k_table (snd r)) n = keys_found F names mem n"
    if "keys_inv F (k_mem s) ents names r" for r mem n
  proof -
    from that have k: "map_option rsa_evp (known (ents (k_table (snd r))) n) = keys_of F names n"
      and m: "k_mem (snd r) = dir_memory F names (k_mem s)"
      and a: "\<forall>(a, n, v) \<in> set (ents (k_table (snd r))). a = key_addr F n" by (simp_all add: keys_inv_def)
    from glib_lookup [OF G a] m show ?thesis
      by (simp add: key_get_by_name_def keys_found_def flip: k split: option.splits)
  qed
  with run show ?thesis
    unfolding load_public_keys_def dir(1) option.case by (cases "\<exists>d \<in> set names. unreadable F d") fastforce+
qed

text \<open>What is left of an entry: its name without the extension, unless a later call overwrites it.\<close>

lemma after_entry_text:
  assumes "snd (fs_entry F d) (fst (fs_entry F d)) = Some b" and "cstr b = Some d"
  shows "text_at (after_entry F d mem) (fst (fs_entry F d)) = Some (stem_of d)"
proof (cases "strrchr d (CHR ''.'')")
  case None
  with assms show ?thesis by (auto simp: after_entry_def stem_of_def text_at_def split: prod.splits)
next
  case (Some i)
  then obtain a e where d: "d = a @ CHR ''.'' # e" "i = length a" by (rule strrchr_Some)
  from cut_extension [of b a "CHR ''.''" e] assms(2) d(1) have "cstr (b[i := NUL]) = Some a"
    by (auto simp: put_byte_def d(2) split: if_splits)
  with assms(1) Some d show ?thesis by (auto simp: after_entry_def stem_of_def text_at_def split: prod.splits)
qed

lemma after_entry_other:
  "a \<notin> dom (snd (fs_entry F d)) \<Longrightarrow> a \<noteq> fst (fs_entry F d) \<Longrightarrow> text_at (after_entry F d mem) a = text_at mem a"
  by (auto simp: after_entry_def text_at_def map_add_def split: prod.splits option.splits)

lemma dir_memory_other:
  assumes "\<forall>d \<in> set names. a \<notin> dom (snd (fs_entry F d)) \<and> a \<noteq> fst (fs_entry F d)"
  shows "text_at (dir_memory F names mem) a = text_at mem a"
  using assms unfolding dir_memory_def
  by (induction names arbitrary: mem) (simp_all add: after_entry_other)

lemma dir_memory_kept:
  assumes "readdir_ok F names" and "d \<in> set names"
    and "\<forall>d' \<in> set names. d' \<noteq> d \<longrightarrow> fst (fs_entry F d) \<notin> dom (snd (fs_entry F d'))"
  shows "text_at (dir_memory F names mem) (fst (fs_entry F d)) = Some (stem_of d)"
proof -
  from assms(2) obtain xs ys where names: "names = xs @ d # ys" by (auto simp: in_set_conv_decomp)
  from assms(1,2) obtain b where b: "snd (fs_entry F d) (fst (fs_entry F d)) = Some b" "cstr b = Some d"
    unfolding readdir_ok_def by blast
  have "fst (fs_entry F d) \<notin> dom (snd (fs_entry F d')) \<and> fst (fs_entry F d) \<noteq> fst (fs_entry F d')" if "d' \<in> set ys" for d'
  proof -
    from that assms(1) names have "d' \<noteq> d" "d' \<in> set names" by (auto simp: readdir_ok_def)
    moreover from this assms(1) have "fst (fs_entry F d') \<in> dom (snd (fs_entry F d'))" by (force simp: readdir_ok_def)
    ultimately show ?thesis using assms(3) by metis
  qed
  then have "text_at (dir_memory F ys (after_entry F d (dir_memory F xs mem))) (fst (fs_entry F d)) = Some (stem_of d)"
    using dir_memory_other [of ys "fst (fs_entry F d)" F] after_entry_text [OF b] by simp
  then show ?thesis by (simp add: names dir_memory_def)
qed

lemma dir_memory_mapped:
  assumes "readdir_ok F names" and "d \<in> set names"
  shows "fst (fs_entry F d) \<in> dom (dir_memory F names mem)"
proof -
  have keep: "a \<in> dom mem \<Longrightarrow> a \<in> dom (dir_memory F ds mem)" for a ds mem
    by (induction ds arbitrary: mem) (auto simp: dir_memory_def after_entry_def split: prod.splits option.splits)
  from assms obtain xs ys where "names = xs @ d # ys" by (auto simp: in_set_conv_decomp)
  moreover have "fst (fs_entry F d) \<in> dom (after_entry F d m)" for m
    using assms by (auto simp: readdir_ok_def after_entry_def split: prod.splits option.splits)
  ultimately show ?thesis using keep by (simp add: dir_memory_def)
qed

text \<open>What is found stays the same as long as the entries stay in memory.\<close>

lemma keys_found_kept:
  assumes "readdir_ok F names" and "dir_memory F names mem \<subseteq>\<^sub>m mem'"
  shows "keys_found F names mem' n = keys_found F names (dir_memory F names mem) n"
proof (cases "n @ ''.pub'' \<in> set names")
  case True
  from dir_memory_mapped [OF assms(1) this] assms(2) have "mem' (key_addr F n) = dir_memory F names mem (key_addr F n)"
    unfolding key_addr_def map_le_def by metis
  then show ?thesis by (simp add: keys_found_def text_at_def)
qed (simp add: keys_found_def keys_of_def)

lemma stem_of_pub: "stem_of (n @ ''.pub'') = n"
  using strrchr_split [of "CHR ''.''" "''pub''" n] by (simp add: stem_of_def)

section \<open>Properties\<close>

text \<open>
  C21: loading the public keys. If a file \<open>name.pub\<close> of the directory does not hold a key, the client
  crashes, as the missing key is copied before it is compared with NULL. Otherwise
  \<open>key_get_by_name\<close> finds, for a name \<open>n\<close>, the key of the file \<open>n.pub\<close> if there is one and the text at
  the address that \<open>readdir\<close> returned for it is still \<open>n\<close> (the table's keys are pointers to the directory
  entries), and nothing otherwise. So all keys are found if no call of \<open>readdir\<close> overwrites an
  earlier entry; and if all entries are returned at one address, as POSIX allows, at most the key named as the
  last entry is found. The hash table compares keys as GLib's does.
\<close>

theorem load_public_keys_result:
  assumes "glib_like G ents" and "k_table s = key_create_hash_table G"
    and "length full_path = full_path_len" and "KT_MAX_KEY_NAME_LEN \<le> length blk"
    and "fs_dir F PUBLIC_KEY_DIR = Some names" and "readdir_ok F names" and "\<forall>d \<in> set names. dir_name d"
  shows "if \<exists>d \<in> set names. unreadable F d
    then load_public_keys G F full_path blk s = None
    else \<exists>s'. load_public_keys G F full_path blk s = Some s' \<and> k_mem s' = dir_memory F names (k_mem s) \<and>
      (\<forall>n. key_get_by_name G (k_mem s') (k_table s') n =
        (if n @ ''.pub'' \<in> set names \<and> text_at (k_mem s') (fst (fs_entry F (n @ ''.pub''))) = Some n
         then client_open_pub_key F (pub_path n) else None)) \<and>
      ((\<forall>d \<in> set names. \<forall>d' \<in> set names. d' \<noteq> d \<longrightarrow> fst (fs_entry F d) \<notin> dom (snd (fs_entry F d'))) \<longrightarrow>
        (\<forall>n. key_get_by_name G (k_mem s') (k_table s') n =
          (if n @ ''.pub'' \<in> set names then client_open_pub_key F (pub_path n) else None))) \<and>
      (\<forall>a. (\<forall>d \<in> set names. fst (fs_entry F d) = a) \<longrightarrow>
        (\<forall>n. n \<noteq> stem_of (last names) \<longrightarrow> key_get_by_name G (k_mem s') (k_table s') n = None))"
proof (cases "\<exists>d \<in> set names. unreadable F d")
  case True
  with load_public_keys_run [OF assms] show ?thesis by simp
next
  case False
  with load_public_keys_run [OF assms] obtain s' where
    s': "load_public_keys G F full_path blk s = Some s'" "k_mem s' = dir_memory F names (k_mem s)"
    and found: "\<And>n. key_get_by_name G (k_mem s') (k_table s') n = keys_found F names (k_mem s') n" by auto
  have all: "key_get_by_name G (k_mem s') (k_table s') n = keys_of F names n"
    if "\<forall>d \<in> set names. \<forall>d' \<in> set names. d' \<noteq> d \<longrightarrow> fst (fs_entry F d) \<notin> dom (snd (fs_entry F d'))" for n
    using dir_memory_kept [OF assms(6), of "n @ ''.pub''" "k_mem s"] that
    unfolding found unfolding s'(2) by (auto simp: keys_found_def key_addr_def stem_of_pub keys_of_def)
  have one: "key_get_by_name G (k_mem s') (k_table s') n = None"
    if "\<forall>d \<in> set names. fst (fs_entry F d) = a" "n \<noteq> stem_of (last names)" for a n
  proof (cases "n @ ''.pub'' \<in> set names")
    case pub: True
    then have split: "names = butlast names @ [last names]" by (cases names rule: rev_cases) auto
    have l: "last names \<in> set names" using pub by (intro last_in_set) auto
    from assms(6) l obtain b where
      "snd (fs_entry F (last names)) (fst (fs_entry F (last names))) = Some b" "cstr b = Some (last names)"
      unfolding readdir_ok_def by blast
    from after_entry_text [OF this, of "dir_memory F (butlast names) (k_mem s)"] have
      "text_at (k_mem s') a = Some (stem_of (last names))"
      unfolding s'(2) using that(1) l dir_memory_snoc [of F "butlast names" "last names" "k_mem s"] split by simp
    with that pub show ?thesis unfolding found by (simp add: keys_found_def key_addr_def)
  qed (simp add: found keys_found_def keys_of_def)
  have "key_get_by_name G (k_mem s') (k_table s') n =
      (if n @ ''.pub'' \<in> set names \<and> text_at (k_mem s') (fst (fs_entry F (n @ ''.pub''))) = Some n
       then client_open_pub_key F (pub_path n) else None)" for n
    unfolding found by (simp add: keys_found_def keys_of_def key_addr_def)
  note each = this
  show ?thesis unfolding if_not_P [OF False]
  proof (intro exI [of _ s'] conjI allI impI)
  qed (use s' each all [unfolded keys_of_def] one in blast)+
qed

text \<open>
  A file holds its path as key; the entry of a name is at the address of its length, or all are at
  address 0.
\<close>

definition ex_files :: "(string \<Rightarrow> nat) \<Rightarrow> string list \<Rightarrow> (string, string) files" where
  "ex_files addr names = \<lparr>fs_open = (\<lambda>p. if p = ''./pub_key/bad.pub'' then None else Some p), fs_pem_pub = Some,
     fs_pem_priv = Some, fs_dir = (\<lambda>_. Some names), fs_entry = (\<lambda>d. (addr d, [addr d \<mapsto> d @ [NUL]]))\<rparr>"

definition ex_names :: "string list" where
  "ex_names = [''bob.pub'', ''.'', ''..'', ''notes.txt'']"

lemma ex_files_ok:
  "fs_dir (ex_files addr ns) PUBLIC_KEY_DIR = Some ns" "readdir_ok (ex_files addr ex_names) ex_names"
  "readdir_ok (ex_files addr [''bad.pub'']) [''bad.pub'']" "\<forall>d \<in> set ex_names. dir_name d"
  by (simp_all add: ex_files_def readdir_ok_def ex_names_def dir_name_def cstr_def)

theorem load_public_keys_result_witness:
  "(\<exists>s'. load_public_keys glib_ghash (ex_files length ex_names) (replicate 282 NUL) (replicate 256 NUL)
      \<lparr>k_mem = Map.empty, k_table = [], k_next = 0\<rparr> = Some s' \<and>
    key_get_by_name glib_ghash (k_mem s') (k_table s') ''bob'' = Some ''./pub_key/bob.pub'') \<and>
   (\<exists>s'. load_public_keys glib_ghash (ex_files (\<lambda>_. 0) ex_names) (replicate 282 NUL) (replicate 256 NUL)
      \<lparr>k_mem = Map.empty, k_table = [], k_next = 0\<rparr> = Some s' \<and>
    key_get_by_name glib_ghash (k_mem s') (k_table s') ''bob'' = None) \<and>
   load_public_keys glib_ghash (ex_files length [''bad.pub'']) (replicate 282 NUL) (replicate 256 NUL)
      \<lparr>k_mem = Map.empty, k_table = [], k_next = 0\<rparr> = None"
proof -
  let ?s = "\<lparr>k_mem = Map.empty, k_table = [] :: (nat \<times> string \<times> string rsa_key) list, k_next = 0\<rparr>"
  have s: "k_table ?s = key_create_hash_table glib_ghash" by (simp add: key_create_hash_table_def glib_ghash_def)
  have blks: "length (replicate 282 NUL) = full_path_len" "KT_MAX_KEY_NAME_LEN \<le> length (replicate 256 NUL)"
    by (simp_all add: full_path_len_def KT_MAX_KEY_NAME_LEN_def)
  have ok: "\<not> (\<exists>d \<in> set ex_names. unreadable (ex_files addr ex_names) d)" for addr
    by (auto simp: unreadable_def ex_names_def client_open_pub_key_def ex_files_def PUBLIC_KEY_DIR_def)
  have bad: "unreadable (ex_files addr [''bad.pub'']) (''bad'' @ ''.pub'')" for addr
    unfolding unreadable_pub by (simp add: client_open_pub_key_def ex_files_def pub_path_def PUBLIC_KEY_DIR_def)
  note load = load_public_keys_result [OF glib_ghash_like s blks ex_files_ok(1)]
  note here = load [OF ex_files_ok(2,4), unfolded if_not_P [OF ok]]
  from here [of length] obtain s' where
    s': "load_public_keys glib_ghash (ex_files length ex_names) (replicate 282 NUL) (replicate 256 NUL) ?s = Some s'"
    and all: "(\<forall>d \<in> set ex_names. \<forall>d' \<in> set ex_names. d' \<noteq> d \<longrightarrow>
        fst (fs_entry (ex_files length ex_names) d) \<notin> dom (snd (fs_entry (ex_files length ex_names) d'))) \<longrightarrow>
      key_get_by_name glib_ghash (k_mem s') (k_table s') ''bob'' = (if ''bob'' @ ''.pub'' \<in> set ex_names
        then client_open_pub_key (ex_files length ex_names) (pub_path ''bob'') else None)" by blast
  have "key_get_by_name glib_ghash (k_mem s') (k_table s') ''bob'' = Some ''./pub_key/bob.pub''"
    using all by (simp add: ex_names_def ex_files_def client_open_pub_key_def pub_path_def PUBLIC_KEY_DIR_def)
  moreover from here [of "\<lambda>_. 0"] obtain s2 where
    s2: "load_public_keys glib_ghash (ex_files (\<lambda>_. 0) ex_names) (replicate 282 NUL) (replicate 256 NUL) ?s = Some s2"
    and one: "(\<forall>d \<in> set ex_names. fst (fs_entry (ex_files (\<lambda>_. 0) ex_names) d) = 0) \<longrightarrow> ''bob'' \<noteq> stem_of (last ex_names) \<longrightarrow>
      key_get_by_name glib_ghash (k_mem s2) (k_table s2) ''bob'' = None" by blast
  have "stem_of ''notes.txt'' = ''notes''" by (simp add: stem_of_def strrchr_def)
  then have "key_get_by_name glib_ghash (k_mem s2) (k_table s2) ''bob'' = None"
    using one by (simp add: ex_files_def ex_names_def)
  moreover have "\<forall>d \<in> set [''bad.pub'']. dir_name d" by (simp add: dir_name_def)
  from load [OF ex_files_ok(3) this, of length] bad have
    "load_public_keys glib_ghash (ex_files length [''bad.pub'']) (replicate 282 NUL) (replicate 256 NUL) ?s = None" by simp
  ultimately show ?thesis using s' s2 by blast
qed

end
