(* ===== verification/PeerTable.thy ===== *)
theory PeerTable
  imports CList Msg Sockets
begin

text \<open>
  The peers of a client (\<open>parse_peers\<close>, \<open>clean_peers_list\<close>, \<open>connect_to_peer\<close>,
  \<open>connect_to_peers\<close> and \<open>client_send_to_all_peers\<close> of \<open>ac-client-server/client_server.c\<close>).

  The state holds the peer structs by address, the peer list, whose values are these addresses, the
  global counter of peer ids, and the logs of sent data and closed sockets. \<open>peers_ok s as\<close> is the
  invariant: the list holds the addresses \<open>as\<close>, which are exactly the allocated structs.
\<close>

section \<open>The code\<close>

record pstate =
  ps_peers :: "nat \<rightharpoonup> peer"
  ps_list :: "nat clist"
  ps_next :: nat
  ps_id :: int
  ps_sent :: "(int \<times> bytes) list"
  ps_closed :: "int list"

record penv =
  pe_net :: net
  pe_send :: "int \<Rightarrow> bytes \<Rightarrow> int"
  pe_blk :: "nat \<Rightarrow> peer"

partial_function (option) clean_peers_list :: "pstate \<Rightarrow> pstate option" where
  "clean_peers_list s =
     (if list_size (ps_list s) > 0
      then do {
        item \<leftarrow> list_item_at (ps_list s) 0;
        a \<leftarrow> item;
        (r, l) \<leftarrow> list_remove (ps_list s) a;
        p \<leftarrow> ps_peers s a;
        clean_peers_list (s\<lparr>ps_list := l, ps_peers := (ps_peers s)(a := None),
          ps_closed := ps_closed s @ (if open_con p \<noteq> 0 then [peer_fd p] else [])\<rparr>)
      }
      else Some s)"

definition add_peer :: "penv \<Rightarrow> pstate \<Rightarrow> string \<Rightarrow> string \<Rightarrow> pstate option" where
  "add_peer E s ip_addr port = do {
     let a = ps_next s;
     (p, i) \<leftarrow> create_peer (pe_blk E a) (ps_id s) ip_addr port;
     (r, l) \<leftarrow> list_add (ps_list s) a;
     Some (s\<lparr>ps_peers := (ps_peers s)(a \<mapsto> p), ps_list := l, ps_next := Suc a, ps_id := i\<rparr>)
   }"

text \<open>
  The loop over the tokens; \<open>tok\<close> is the string at \<open>ip_port_tok\<close>, \<open>rest\<close> what \<open>strtok_r\<close> has left.
  When the address or the port is missing the loop continues with the same token, which \<open>strtok\<close>
  has cut behind its first word. The result of \<open>strtok(NULL, " ")\<close>, on what is left of the token, is
  overwritten by that of \<open>strtok_r\<close>.
\<close>

partial_function (option) parse_loop ::
  "penv \<Rightarrow> string option \<Rightarrow> string \<Rightarrow> pstate \<Rightarrow> pstate option" where
  "parse_loop E tok rest s =
     (case tok of
        None \<Rightarrow> Some s
      | Some t \<Rightarrow>
          (case strtok (CHR '':'') t of
             None \<Rightarrow> parse_loop E (Some t) rest s
           | Some (ip_addr, r) \<Rightarrow>
               (case strtok (CHR '':'') r of
                  None \<Rightarrow> parse_loop E (Some (takeWhile (\<lambda>c. c = CHR '':'') t @ ip_addr)) rest s
                | Some (port, save) \<Rightarrow> do {
                    let ip_port_tok = strtok (CHR '' '') save;
                    s \<leftarrow> add_peer E s ip_addr port;
                    (case strtok (CHR '' '') rest of
                       None \<Rightarrow> parse_loop E None [] s
                     | Some (t', rest') \<Rightarrow> parse_loop E (Some t') rest' s)
                  })))"

definition parse_peers :: "penv \<Rightarrow> pstate \<Rightarrow> string \<Rightarrow> (int \<times> pstate) option" where
  "parse_peers E s peer_msg =
     (if length peer_msg < 1 then Some (1, s)
      else do {
        s \<leftarrow> clean_peers_list s;
        s \<leftarrow> (case strtok (CHR '' '') peer_msg of
                None \<Rightarrow> parse_loop E None [] s
              | Some (t, rest) \<Rightarrow> parse_loop E (Some t) rest s);
        Some (0, s)
      })"

text \<open>The result of \<open>connect_to_host\<close> is stored, and the connection marked open, even if it is -1.\<close>

definition connect_to_peer :: "penv \<Rightarrow> peer \<Rightarrow> (int \<times> peer) option" where
  "connect_to_peer E p = do {
     a \<leftarrow> cstr (peer_address p);
     port \<leftarrow> cstr (peer_port p);
     socket_fd \<leftarrow> connect_to_host (pe_net E) a port;
     Some (socket_fd, p\<lparr>peer_fd := socket_fd, open_con := 1\<rparr>)
   }"

definition connect_nth :: "penv \<Rightarrow> nat \<Rightarrow> int \<times> pstate \<Rightarrow> (int \<times> pstate) option" where
  "connect_nth E i fs = (case fs of (failed, s) \<Rightarrow> do {
     item \<leftarrow> list_item_at (ps_list s) (int i);
     a \<leftarrow> item;
     p \<leftarrow> ps_peers s a;
     if open_con p \<noteq> 0 then Some (failed, s)
     else do {
       (res, p') \<leftarrow> connect_to_peer E p;
       Some (if res = -1 then failed + 1 else failed, s\<lparr>ps_peers := (ps_peers s)(a \<mapsto> p')\<rparr>)
     }
   })"

definition connect_to_peers :: "penv \<Rightarrow> pstate \<Rightarrow> (int \<times> pstate) option" where
  "connect_to_peers E s = mfold (connect_nth E) [0..<nat (list_size (ps_list s))] (0, s)"

definition send_nth :: "penv \<Rightarrow> bytes \<Rightarrow> nat \<Rightarrow> pstate \<Rightarrow> pstate option" where
  "send_nth E data i s = do {
     item \<leftarrow> list_item_at (ps_list s) (int i);
     a \<leftarrow> item;
     p \<leftarrow> ps_peers s a;
     Some (s\<lparr>ps_sent := snd (send_msg_peer (pe_send E) (ps_sent s) p data)\<rparr>)
   }"

definition client_send_to_all_peers :: "penv \<Rightarrow> bytes \<Rightarrow> pstate \<Rightarrow> pstate option" where
  "client_send_to_all_peers E data s = mfold (send_nth E data) [0..<nat (list_size (ps_list s))] s"

section \<open>The invariant\<close>

definition peers_ok :: "pstate \<Rightarrow> nat list \<Rightarrow> bool" where
  "peers_ok s as \<longleftrightarrow> (\<exists>xs. lrep (ps_list s) xs \<and> map fst xs = as) \<and> distinct as \<and>
     (\<forall>a. ps_peers s a \<noteq> None \<longleftrightarrow> a \<in> set as) \<and> (\<forall>a \<in> set as. a < ps_next s)"

definition peer_at :: "pstate \<Rightarrow> nat \<Rightarrow> peer" where
  "peer_at s a = the (ps_peers s a)"

lemma peers_okE:
  assumes "peers_ok s as"
  obtains xs where "lrep (ps_list s) xs" and "map fst xs = as" and "distinct as"
    and "\<And>a. a \<in> set as \<Longrightarrow> ps_peers s a = Some (peer_at s a)" and "\<And>a. a \<notin> set as \<Longrightarrow> ps_peers s a = None"
    and "\<And>a. a \<in> set as \<Longrightarrow> a < ps_next s" and "list_size (ps_list s) = int (length as)"
proof -
  from assms obtain xs where xs: "lrep (ps_list s) xs" "map fst xs = as" by (auto simp: peers_ok_def)
  have dom: "ps_peers s a \<noteq> None \<longleftrightarrow> a \<in> set as" for a using assms unfolding peers_ok_def by blast
  have "ps_peers s a = Some (peer_at s a)" if "a \<in> set as" for a
    using dom [of a] that by (auto simp: peer_at_def)
  moreover have "ps_peers s a = None" if "a \<notin> set as" for a using dom [of a] that by blast
  moreover have "list_size (ps_list s) = int (length as)" using lst.len [OF xs(1)] xs(2) by auto
  moreover have "distinct as" "\<And>a. a \<in> set as \<Longrightarrow> a < ps_next s" using assms unfolding peers_ok_def by blast+
  ultimately show ?thesis using that [OF xs] by blast
qed

lemma peers_item:
  assumes "peers_ok s as" and "i < length as"
  shows "list_item_at (ps_list s) (int i) = Some (Some (as ! i))"
proof -
  from assms(1) obtain xs where "lrep (ps_list s) xs" "map fst xs = as" by (rule peers_okE)
  with lst.item_at [of "ps_list s" xs "int i"] assms(2) show ?thesis by auto
qed

text \<open>A change of the logs keeps the invariant.\<close>

lemma peers_ok_sent [simp]: "peers_ok (s\<lparr>ps_sent := l\<rparr>) as = peers_ok s as"
  by (simp add: peers_ok_def)

lemma peers_ok_upd:
  assumes "peers_ok s as" and "a \<in> set as"
  shows "peers_ok (s\<lparr>ps_peers := (ps_peers s)(a \<mapsto> p)\<rparr>) as"
  using assms unfolding peers_ok_def by simp

lemma peers_ok_dom: "peers_ok s as \<Longrightarrow> ps_peers s a = Some p \<Longrightarrow> a \<in> set as"
  unfolding peers_ok_def by blast

section \<open>Emptying the list\<close>

definition closed_fds :: "pstate \<Rightarrow> nat list \<Rightarrow> int list" where
  "closed_fds s as = concat (map (\<lambda>a. if open_con (peer_at s a) \<noteq> 0 then [peer_fd (peer_at s a)] else []) as)"

lemma clean_peers_list_result:
  "peers_ok s as \<Longrightarrow> \<exists>s'. clean_peers_list s = Some s' \<and> peers_ok s' [] \<and>
     ps_next s' = ps_next s \<and> ps_id s' = ps_id s \<and> ps_sent s' = ps_sent s \<and>
     ps_closed s' = ps_closed s @ closed_fds s as"
proof (induction as arbitrary: s)
  case Nil
  then have "list_size (ps_list s) = 0" by (auto elim!: peers_okE)
  with Nil show ?case by (subst clean_peers_list.simps) (simp add: closed_fds_def)
next
  case (Cons a as)
  from Cons.prems obtain xs where xs: "lrep (ps_list s) xs" "map fst xs = a # as" "distinct (a # as)"
    "ps_peers s a = Some (peer_at s a)" "list_size (ps_list s) = int (length (a # as))"
    by (auto elim!: peers_okE)
  from xs(2) obtain f ys where ys: "xs = (a, f) # ys" "map fst ys = as" by (cases xs) auto
  from lst.dequeue [of "ps_list s" a f ys] xs(1) ys(1) obtain l where
    l: "list_item_at (ps_list s) 0 = Some (Some a)" "list_remove (ps_list s) a = Some (Some a, l)" "lrep l ys"
    by auto
  let ?p = "peer_at s a"
  let ?s = "s\<lparr>ps_list := l, ps_peers := (ps_peers s)(a := None),
      ps_closed := ps_closed s @ (if open_con ?p \<noteq> 0 then [peer_fd ?p] else [])\<rparr>"
  have ok: "peers_ok ?s as"
    using Cons.prems l(3) ys(2) by (auto simp: peers_ok_def)
  have "clean_peers_list s = clean_peers_list ?s"
    using xs(4,5) l(1,2) by (subst clean_peers_list.simps) simp
  moreover have "closed_fds ?s as = closed_fds s as"
    using xs(3) by (auto simp: closed_fds_def peer_at_def intro!: arg_cong [where f = concat])
  ultimately show ?case using Cons.IH [OF ok] by (auto simp: closed_fds_def)
qed

section \<open>Parsing\<close>

definition peer_text :: "pstate \<Rightarrow> nat \<Rightarrow> (string option \<times> string option \<times> int)" where
  "peer_text s a = (cstr (peer_address (peer_at s a)), cstr (peer_port (peer_at s a)), open_con (peer_at s a))"

definition blocks_ok :: "penv \<Rightarrow> bool" where
  "blocks_ok E \<longleftrightarrow> (\<forall>a. length (peer_address (pe_blk E a)) = NI_MAXHOST \<and>
     length (peer_port (pe_blk E a)) = NI_MAXSERV)"

definition good_word :: "string \<Rightarrow> nat \<Rightarrow> bool" where
  "good_word w n \<longleftrightarrow> w \<noteq> [] \<and> length w < n \<and> NUL \<notin> set w \<and> CHR '':'' \<notin> set w \<and> CHR '' '' \<notin> set w"

lemma peers_ok_new:
  assumes ok: "peers_ok s as" and l: "list_add (ps_list s) (ps_next s) = Some (r, l)"
  shows "peers_ok (s\<lparr>ps_peers := (ps_peers s)(ps_next s \<mapsto> p), ps_list := l, ps_next := Suc (ps_next s), ps_id := i\<rparr>)
    (as @ [ps_next s])" (is "peers_ok ?s _")
proof -
  from ok obtain xs where xs: "lrep (ps_list s) xs" "map fst xs = as" "distinct as"
    "\<And>a. a \<in> set as \<Longrightarrow> ps_peers s a = Some (peer_at s a)" "\<And>a. a \<notin> set as \<Longrightarrow> ps_peers s a = None"
    "\<And>a. a \<in> set as \<Longrightarrow> a < ps_next s" by (rule peers_okE) blast
  from lst.add [OF xs(1), of "ps_next s"] l have "lrep l (xs @ [(ps_next s, True)])" by auto
  then have 1: "\<exists>xs. lrep (ps_list ?s) xs \<and> map fst xs = as @ [ps_next s]"
    using xs(2) by (intro exI [of _ "xs @ [(ps_next s, True)]"]) simp
  have "ps_peers ?s a \<noteq> None \<longleftrightarrow> a \<in> set (as @ [ps_next s])" for a
    using xs(4,5) [of a] by (cases "a \<in> set as") auto
  then have 2: "\<forall>a. ps_peers ?s a \<noteq> None \<longleftrightarrow> a \<in> set (as @ [ps_next s])" by blast
  have 3: "distinct (as @ [ps_next s])" using xs(3,6) by auto
  have 4: "\<forall>a \<in> set (as @ [ps_next s]). a < ps_next ?s" using xs(6) by (auto simp: less_Suc_eq)
  from 1 2 3 4 show ?thesis unfolding peers_ok_def by blast
qed

lemma add_peer_result:
  assumes ok: "peers_ok s as" and "blocks_ok E"
    and ip: "good_word ip NI_MAXHOST" and port: "good_word port NI_MAXSERV"
  shows "\<exists>s'. add_peer E s ip port = Some s' \<and> peers_ok s' (as @ [ps_next s]) \<and>
    (\<forall>a \<in> set as. peer_at s' a = peer_at s a) \<and> peer_text s' (ps_next s) = (Some ip, Some port, 0) \<and>
    ps_sent s' = ps_sent s \<and> ps_closed s' = ps_closed s"
proof -
  let ?a = "ps_next s"
  obtain ab where ab: "strncpy (peer_address (pe_blk E ?a)) ip NI_MAXHOST = Some ab" "cstr ab = Some ip"
    using strncpy_fits [of ip NI_MAXHOST "peer_address (pe_blk E ?a)"] assms(2) ip
    by (auto simp: blocks_ok_def good_word_def)
  obtain pb where pb: "strncpy (peer_port (pe_blk E ?a)) port NI_MAXSERV = Some pb" "cstr pb = Some port"
    using strncpy_fits [of port NI_MAXSERV "peer_port (pe_blk E ?a)"] assms(2) port
    by (auto simp: blocks_ok_def good_word_def)
  from ok obtain xs where xs: "lrep (ps_list s) xs" "map fst xs = as" "distinct as"
    "\<And>a. a \<in> set as \<Longrightarrow> ps_peers s a = Some (peer_at s a)" "\<And>a. a \<notin> set as \<Longrightarrow> ps_peers s a = None"
    "\<And>a. a \<in> set as \<Longrightarrow> a < ps_next s" by (rule peers_okE) blast
  from lst.add [OF xs(1), of ?a] obtain l where
    l: "list_add (ps_list s) ?a = Some (1, l)" "lrep l (xs @ [(?a, True)])" by blast
  have new: "?a \<notin> set as" using xs(6) by blast
  define p where "p = (pe_blk E ?a)\<lparr>peer_id := ps_id s, peer_address := ab, peer_port := pb,
               ttl := DEFAULT_PEER_TIMEOUT, open_con := 0\<rparr>"
  let ?s = "s\<lparr>ps_peers := (ps_peers s)(?a \<mapsto> p), ps_list := l, ps_next := Suc ?a, ps_id := ps_id s + 1\<rparr>"
  have "add_peer E s ip port = Some ?s"
    using ab pb l(1) by (simp add: add_peer_def create_peer_def p_def Let_def)
  moreover have "peers_ok ?s (as @ [?a])" by (rule peers_ok_new [OF ok l(1)])
  moreover have "\<forall>a \<in> set as. peer_at ?s a = peer_at s a" using new by (auto simp: peer_at_def)
  moreover have "peer_text ?s ?a = (Some ip, Some port, 0)"
    using ab(2) pb(2) by (simp add: peer_text_def peer_at_def p_def)
  ultimately show ?thesis by (intro exI [of _ ?s]) simp
qed

definition entry_text :: "string \<times> string \<Rightarrow> string" where
  "entry_text ap = fst ap @ '':'' @ snd ap"

definition good_entry :: "string \<times> string \<Rightarrow> bool" where
  "good_entry ap \<longleftrightarrow> good_word (fst ap) NI_MAXHOST \<and> good_word (snd ap) NI_MAXSERV"

lemma entry_tokens:
  assumes "good_entry ap"
  shows "strtok (CHR '':'') (entry_text ap) = Some (fst ap, snd ap)"
    and "strtok (CHR '':'') (snd ap) = Some (snd ap, [])"
    and "entry_text ap \<noteq> []" and "CHR '' '' \<notin> set (entry_text ap)"
  using assms strtok_append [of "fst ap" "CHR '':''" "snd ap"] strtok_word [of "snd ap" "CHR '':''"]
  by (auto simp: good_entry_def good_word_def entry_text_def)

lemma tokens_ConsD:
  assumes "tokens d s = w # ws"
  obtains r where "strtok d s = Some (w, r)" and "tokens d r = ws"
  using assms by (subst (asm) tokens.simps) (auto split: option.splits)

lemma tokens_NilD: "tokens d s = [] \<Longrightarrow> strtok d s = None"
  by (subst (asm) tokens.simps) (auto split: option.splits)

lemma parse_loop_result:
  "peers_ok s as \<Longrightarrow> blocks_ok E \<Longrightarrow> \<forall>ap \<in> set (ap # aps). good_entry ap \<Longrightarrow>
   tokens (CHR '' '') rest = map entry_text aps \<Longrightarrow>
   \<exists>s' bs. parse_loop E (Some (entry_text ap)) rest s = Some s' \<and>
     peers_ok s' (as @ bs) \<and> (\<forall>a \<in> set as. peer_at s' a = peer_at s a) \<and>
     map (peer_text s') bs = map (\<lambda>(a, p). (Some a, Some p, 0)) (ap # aps) \<and>
     ps_sent s' = ps_sent s \<and> ps_closed s' = ps_closed s"
proof (induction aps arbitrary: ap s as rest)
  case Nil
  then have ap: "good_entry ap" and rest: "strtok (CHR '' '') rest = None" by (auto dest: tokens_NilD)
  with add_peer_result [OF Nil(1,2), of "fst ap" "snd ap"] obtain s' where
    "add_peer E s (fst ap) (snd ap) = Some s'" "peers_ok s' (as @ [ps_next s])"
    "\<forall>a \<in> set as. peer_at s' a = peer_at s a" "peer_text s' (ps_next s) = (Some (fst ap), Some (snd ap), 0)"
    "ps_sent s' = ps_sent s" "ps_closed s' = ps_closed s" by (auto simp: good_entry_def)
  with entry_tokens [OF ap] rest show ?case
    by (intro exI [of _ s'] exI [of _ "[ps_next s]"], subst parse_loop.simps)
      (simp add: parse_loop.simps [of E None] case_prod_beta)
next
  case (Cons bp aps)
  then have ap: "good_entry ap" and good: "\<forall>x \<in> set (bp # aps). good_entry x" by auto
  from Cons.prems(4) obtain r where r: "strtok (CHR '' '') rest = Some (entry_text bp, r)"
    "tokens (CHR '' '') r = map entry_text aps" by (auto elim: tokens_ConsD)
  from add_peer_result [OF Cons.prems(1,2), of "fst ap" "snd ap"] ap obtain s1 where
    s1: "add_peer E s (fst ap) (snd ap) = Some s1" "peers_ok s1 (as @ [ps_next s])"
    "\<forall>a \<in> set as. peer_at s1 a = peer_at s a" "peer_text s1 (ps_next s) = (Some (fst ap), Some (snd ap), 0)"
    "ps_sent s1 = ps_sent s" "ps_closed s1 = ps_closed s" by (auto simp: good_entry_def)
  from Cons.IH [OF s1(2) Cons.prems(2) good r(2)] obtain s' bs where
    s': "parse_loop E (Some (entry_text bp)) r s1 = Some s'"
    "peers_ok s' ((as @ [ps_next s]) @ bs)" "\<forall>a \<in> set (as @ [ps_next s]). peer_at s' a = peer_at s1 a"
    "map (peer_text s') bs = map (\<lambda>(a, p). (Some a, Some p, 0)) (bp # aps)"
    "ps_sent s' = ps_sent s1" "ps_closed s' = ps_closed s1" by blast
  have "parse_loop E (Some (entry_text ap)) rest s = Some s'"
    using entry_tokens(1,2) [OF ap] s1(1) s'(1) r(1) by (cases ap, subst parse_loop.simps) simp
  moreover have "peer_text s' (ps_next s) = (Some (fst ap), Some (snd ap), 0)"
    using s1(4) s'(3) by (simp add: peer_text_def)
  ultimately show ?case
    using s1 s' by (intro exI [of _ s'] exI [of _ "ps_next s # bs"]) (auto simp: case_prod_beta)
qed

text \<open>The token that the loop sees again after an error has no second part.\<close>

lemma strtok_again:
  assumes "strtok d t = Some (w, r)"
  shows "tokens d (takeWhile (\<lambda>c. c = d) t @ w) = [w]"
proof -
  from assms have "w = takeWhile (\<lambda>c. c \<noteq> d) (dropWhile (\<lambda>c. c = d) t)" "dropWhile (\<lambda>c. c = d) t \<noteq> []"
    by (auto simp: strtok_def Let_def split: if_splits)
  then have w: "w \<noteq> []" "d \<notin> set w"
    using hd_dropWhile [of "\<lambda>c. c = d" t] by (auto simp: takeWhile_eq_Nil_iff dest: set_takeWhileD)
  then have "dropWhile (\<lambda>c. c = d) w = w" by (cases w) auto
  then have "dropWhile (\<lambda>c. c = d) (takeWhile (\<lambda>c. c = d) t @ w) = w"
    by (subst dropWhile_append2) (auto dest: set_takeWhileD)
  with w have "strtok d (takeWhile (\<lambda>c. c = d) t @ w) = Some (w, [])"
    by (simp add: strtok_def takeWhile_absent dropWhile_absent)
  then show ?thesis by (simp add: tokens.simps [of d "takeWhile (\<lambda>c. c = d) t @ w"])
qed

text \<open>The current token and the words of the rest have an address and a port.\<close>

definition entries_complete :: "string option \<Rightarrow> string \<Rightarrow> bool" where
  "entries_complete tok rest \<longleftrightarrow>
     (\<forall>w \<in> set_option tok \<union> (if tok = None then {} else set (tokens (CHR '' '') rest)). 2 \<le> length (tokens (CHR '':'') w))"

lemma entries_complete_next:
  assumes "2 \<le> length (tokens (CHR '':'') t)"
    and "\<And>t' rest'. strtok (CHR '' '') rest = Some (t', rest') \<Longrightarrow> entries_complete (Some t') rest'"
  shows "entries_complete (Some t) rest"
proof (cases "strtok (CHR '' '') rest")
  case None
  with assms(1) show ?thesis by (simp add: entries_complete_def tokens.simps [of _ rest])
next
  case (Some z)
  obtain t' rest' where "z = (t', rest')" by (cases z)
  with Some assms(1) assms(2) [of t' rest'] show ?thesis
    by (simp add: entries_complete_def tokens.simps [of _ rest])
qed

lemma parse_loop_returns:
  assumes "parse_loop E tok rest s = Some s'"
  shows "entries_complete tok rest"
proof (rule parse_loop.raw_induct [where P = "\<lambda>E tok rest s s'. entries_complete tok rest", OF _ assms])
  fix f E tok rest s s'
  assume IH: "\<And>E tok rest s s'. f E tok rest s = Some s' \<Longrightarrow> entries_complete tok rest"
    and run: "(case tok of
        None \<Rightarrow> Some s
      | Some t \<Rightarrow>
          (case strtok (CHR '':'') t of
             None \<Rightarrow> f E (Some t) rest s
           | Some (ip_addr, r) \<Rightarrow>
               (case strtok (CHR '':'') r of
                  None \<Rightarrow> f E (Some (takeWhile (\<lambda>c. c = CHR '':'') t @ ip_addr)) rest s
                | Some (port, save) \<Rightarrow> do {
                    let ip_port_tok = strtok (CHR '' '') save;
                    s \<leftarrow> add_peer E s ip_addr port;
                    (case strtok (CHR '' '') rest of
                       None \<Rightarrow> f E None [] s
                     | Some (t', rest') \<Rightarrow> f E (Some t') rest' s)
                  }))) = Some (s' :: pstate)"
  show "entries_complete tok rest"
  proof (cases tok)
    case (Some t)
    consider (none) "strtok (CHR '':'') t = None"
      | (ip) ip_addr r where "strtok (CHR '':'') t = Some (ip_addr, r)" "strtok (CHR '':'') r = None"
      | (both) ip_addr r port r' where "strtok (CHR '':'') t = Some (ip_addr, r)" "strtok (CHR '':'') r = Some (port, r')"
      by (metis option.exhaust surj_pair)
    then show ?thesis
    proof cases
      case none
      with run IH Some show ?thesis by simp
    next
      case ip
      with run Some have "entries_complete (Some (takeWhile (\<lambda>c. c = CHR '':'') t @ ip_addr)) rest"
        by (intro IH) simp
      with strtok_again [OF ip(1)] show ?thesis by (simp add: entries_complete_def)
    next
      case both
      then have t: "2 \<le> length (tokens (CHR '':'') t)" by (simp add: tokens.simps [of _ t] tokens.simps [of _ r])
      from run Some both obtain s1 where s1: "(case strtok (CHR '' '') rest of
           None \<Rightarrow> f E None [] s1 | Some (t', rest') \<Rightarrow> f E (Some t') rest' s1) = Some s'"
        by (auto simp: bind_eq_Some_conv)
      have "entries_complete (Some t') rest'" if "strtok (CHR '' '') rest = Some (t', rest')" for t' rest'
        using s1 IH [of E "Some t'" rest' s1 s'] that by simp
      with t show ?thesis unfolding Some by (rule entries_complete_next)
    qed
  qed (simp add: entries_complete_def)
qed

section \<open>Connecting and sending\<close>

definition dial :: "penv \<Rightarrow> peer \<Rightarrow> int option" where
  "dial E p = connect_to_host (pe_net E) (the (cstr (peer_address p))) (the (cstr (peer_port p)))"

definition dialled :: "penv \<Rightarrow> peer \<Rightarrow> peer" where
  "dialled E p = (if open_con p \<noteq> 0 then p else p\<lparr>peer_fd := the (dial E p), open_con := 1\<rparr>)"

definition dial_fails :: "penv \<Rightarrow> peer \<Rightarrow> bool" where
  "dial_fails E p \<longleftrightarrow> open_con p = 0 \<and> dial E p = Some (-1)"

text \<open>An open peer, or one whose address and port are strings the resolver has an answer for.\<close>

definition dialable :: "penv \<Rightarrow> peer \<Rightarrow> bool" where
  "dialable E p \<longleftrightarrow> open_con p \<noteq> 0 \<or>
     cstr (peer_address p) \<noteq> None \<and> cstr (peer_port p) \<noteq> None \<and> dial E p \<noteq> None"

lemma connect_nth_result:
  assumes ok: "peers_ok s as" and i: "i < length as" and d: "dialable E (peer_at s (as ! i))"
  shows "\<exists>s'. connect_nth E i (f, s) = Some ((if dial_fails E (peer_at s (as ! i)) then f + 1 else f), s') \<and>
    peers_ok s' as \<and> ps_sent s' = ps_sent s \<and> ps_closed s' = ps_closed s \<and>
    (\<forall>a \<in> set as. peer_at s' a = (if a = as ! i then dialled E (peer_at s a) else peer_at s a))"
proof -
  let ?a = "as ! i" and ?p = "peer_at s (as ! i)"
  have a: "?a \<in> set as" using i by simp
  have p: "ps_peers s ?a = Some ?p" using ok a by (auto elim!: peers_okE)
  note run = connect_nth_def peers_item [OF ok i] p
  show ?thesis
  proof (cases "open_con ?p = 0")
    case False
    then show ?thesis using ok by (intro exI [of _ s]) (simp add: run dialled_def dial_fails_def)
  next
    case True
    with d obtain x y z where c: "cstr (peer_address ?p) = Some x" "cstr (peer_port ?p) = Some y"
      "connect_to_host (pe_net E) x y = Some z" "dial E ?p = Some z"
      unfolding dialable_def by (auto simp: dial_def)
    let ?s = "s\<lparr>ps_peers := (ps_peers s)(?a \<mapsto> ?p\<lparr>peer_fd := z, open_con := 1\<rparr>)\<rparr>"
    have "connect_nth E i (f, s) = Some ((if z = -1 then f + 1 else f), ?s)"
      using c True by (simp add: run connect_to_peer_def)
    with True c(4) peers_ok_upd [OF ok a] show ?thesis
      by (intro exI [of _ ?s]) (simp add: dial_fails_def dialled_def peer_at_def)
  qed
qed

lemma connect_prefix:
  assumes ok: "peers_ok s as" and d: "\<forall>a \<in> set as. dialable E (peer_at s a)" and "k \<le> length as"
  shows "\<exists>s'. mfold (connect_nth E) [0..<k] (0, s) =
      Some (int (length (filter (\<lambda>a. dial_fails E (peer_at s a)) (take k as))), s') \<and>
    peers_ok s' as \<and> ps_sent s' = ps_sent s \<and> ps_closed s' = ps_closed s \<and>
    (\<forall>a \<in> set as. peer_at s' a = (if a \<in> set (take k as) then dialled E (peer_at s a) else peer_at s a))"
  using assms(3)
proof (induction k)
  case 0
  then show ?case using ok by simp
next
  case (Suc k)
  then obtain s' where s': "mfold (connect_nth E) [0..<k] (0, s) =
      Some (int (length (filter (\<lambda>a. dial_fails E (peer_at s a)) (take k as))), s')"
    "peers_ok s' as" "ps_sent s' = ps_sent s" "ps_closed s' = ps_closed s"
    "\<forall>a \<in> set as. peer_at s' a = (if a \<in> set (take k as) then dialled E (peer_at s a) else peer_at s a)"
    by auto
  have k: "k < length as" using Suc.prems by simp
  have "distinct as" using ok by (auto elim!: peers_okE)
  then have new: "as ! k \<notin> set (take k as)" using k by (auto simp: in_set_conv_nth nth_eq_iff_index_eq)
  have at: "peer_at s' (as ! k) = peer_at s (as ! k)" using s'(5) new k by simp
  have "dialable E (peer_at s' (as ! k))" unfolding at using d k by simp
  from connect_nth_result [OF s'(2) k this, of "int (length (filter (\<lambda>a. dial_fails E (peer_at s a)) (take k as)))"]
  obtain s2 where s2: "connect_nth E k (int (length (filter (\<lambda>a. dial_fails E (peer_at s a)) (take k as))), s') =
      Some (int (length (filter (\<lambda>a. dial_fails E (peer_at s a)) (take (Suc k) as))), s2)"
    "peers_ok s2 as" "ps_sent s2 = ps_sent s'" "ps_closed s2 = ps_closed s'"
    "\<forall>a \<in> set as. peer_at s2 a = (if a = as ! k then dialled E (peer_at s' a) else peer_at s' a)"
    by (auto simp: at take_Suc_conv_app_nth [OF k])
  have "mfold (connect_nth E) [0..<Suc k] (0, s) =
      Some (int (length (filter (\<lambda>a. dial_fails E (peer_at s a)) (take (Suc k) as))), s2)"
    using s'(1) s2(1) by (simp add: mfold_append)
  moreover have "\<forall>a \<in> set as. peer_at s2 a =
      (if a \<in> set (take (Suc k) as) then dialled E (peer_at s a) else peer_at s a)"
    unfolding take_Suc_conv_app_nth [OF k] using s2(5) s'(5) new at by simp
  ultimately show ?case using s2(2-4) s'(3,4) by (intro exI [of _ s2]) simp
qed

lemma send_nth_result:
  assumes "peers_ok s as" and "i < length as"
  shows "send_nth E data i s = Some (s\<lparr>ps_sent := ps_sent s @
    (if open_con (peer_at s (as ! i)) \<noteq> 0 then [(peer_fd (peer_at s (as ! i)), data)] else [])\<rparr>)"
proof -
  have "ps_peers s (as ! i) = Some (peer_at s (as ! i))" using assms by (auto elim!: peers_okE)
  then show ?thesis
    by (simp add: send_nth_def peers_item [OF assms] send_msg_peer_def send_msg_def)
qed

definition flood :: "pstate \<Rightarrow> nat list \<Rightarrow> bytes \<Rightarrow> (int \<times> bytes) list" where
  "flood s as data = map (\<lambda>a. (peer_fd (peer_at s a), data)) (filter (\<lambda>a. open_con (peer_at s a) \<noteq> 0) as)"

lemma send_prefix:
  assumes "peers_ok s as" and "k \<le> length as"
  shows "mfold (send_nth E data) [0..<k] s = Some (s\<lparr>ps_sent := ps_sent s @ flood s (take k as) data\<rparr>)"
  using assms(2)
proof (induction k)
  case 0
  then show ?case by (simp add: flood_def)
next
  case (Suc k)
  let ?s = "s\<lparr>ps_sent := ps_sent s @ flood s (take k as) data\<rparr>"
  have "peers_ok ?s as" using assms(1) by simp
  from send_nth_result [OF this, of k] Suc show ?case
    by (simp add: mfold_append take_Suc_conv_app_nth flood_def peer_at_def)
qed

lemma client_send_to_all_peers_result:
  "peers_ok s as \<Longrightarrow>
     client_send_to_all_peers E data s = Some (s\<lparr>ps_sent := ps_sent s @ flood s as data\<rparr>)"
  using send_prefix [of s as "length as"] by (auto simp: client_send_to_all_peers_def elim!: peers_okE)

lemma connect_to_peers_run:
  assumes "peers_ok s as" and "\<forall>a \<in> set as. dialable E (peer_at s a)"
  shows "\<exists>s'. connect_to_peers E s = Some (int (length (filter (\<lambda>a. dial_fails E (peer_at s a)) as)), s') \<and>
    peers_ok s' as \<and> (\<forall>a \<in> set as. peer_at s' a = dialled E (peer_at s a))"
proof -
  have "list_size (ps_list s) = int (length as)" using assms(1) by (rule peers_okE)
  with connect_prefix [OF assms, of "length as"] show ?thesis by (auto simp: connect_to_peers_def)
qed

lemma parse_peers_run:
  assumes "peers_ok s as" and "blocks_ok E"
    and "tokens (CHR '' '') msg = map entry_text aps" and "\<forall>ap \<in> set aps. good_entry ap" and "msg \<noteq> []"
  shows "\<exists>s' bs. parse_peers E s msg = Some (0, s') \<and> peers_ok s' bs \<and>
    map (peer_text s') bs = map (\<lambda>(a, p). (Some a, Some p, 0)) aps \<and>
    ps_sent s' = ps_sent s \<and> ps_closed s' = ps_closed s @ closed_fds s as"
proof -
  from clean_peers_list_result [OF assms(1)] obtain s0 where
    s0: "clean_peers_list s = Some s0" "peers_ok s0 []" "ps_sent s0 = ps_sent s"
      "ps_closed s0 = ps_closed s @ closed_fds s as" by blast
  have ne: "\<not> length msg < 1" using assms(5) by (cases msg) auto
  show ?thesis
  proof (cases aps)
    case Nil
    with assms(3) have "strtok (CHR '' '') msg = None" by (auto dest: tokens_NilD)
    with s0 ne Nil show ?thesis
      by (intro exI [of _ s0] exI [of _ "[]"]) (simp add: parse_peers_def parse_loop.simps [of E None])
  next
    case (Cons ap rest)
    with assms(3) obtain r where
      r: "strtok (CHR '' '') msg = Some (entry_text ap, r)" "tokens (CHR '' '') r = map entry_text rest"
      by (auto elim: tokens_ConsD)
    from parse_loop_result [OF s0(2) assms(2) _ r(2), of ap] assms(4) Cons obtain s' bs where
      "parse_loop E (Some (entry_text ap)) r s0 = Some s'" "peers_ok s' bs"
      "map (peer_text s') bs = map (\<lambda>(a, p). (Some a, Some p, 0)) aps"
      "ps_sent s' = ps_sent s0" "ps_closed s' = ps_closed s0" by auto
    with s0 ne r(1) show ?thesis
      by (intro exI [of _ s'] exI [of _ bs]) (simp add: parse_peers_def)
  qed
qed

section \<open>The invariant is kept\<close>

text \<open>Whatever the message and the network do: when an operation returns, the list is well formed.\<close>

definition peers_inv :: "pstate \<Rightarrow> bool" where
  "peers_inv s \<longleftrightarrow> (\<exists>as. peers_ok s as)"

lemma peers_inv_sent [simp]: "peers_inv (s\<lparr>ps_sent := l\<rparr>) = peers_inv s"
  by (simp add: peers_inv_def)

lemma peers_inv_closed [simp]: "peers_inv (s\<lparr>ps_closed := l\<rparr>) = peers_inv s"
  by (simp add: peers_inv_def peers_ok_def)

lemma add_peer_inv: "add_peer E s ip port = Some s' \<Longrightarrow> peers_inv s \<Longrightarrow> peers_inv s'"
  using peers_ok_new by (fastforce simp: peers_inv_def add_peer_def Let_def bind_eq_Some_conv)

lemma parse_loop_inv:
  assumes "parse_loop E tok rest s = Some s'" and "peers_inv s"
  shows "peers_inv s'"
proof -
  have "peers_inv s \<longrightarrow> peers_inv s'"
  proof (rule parse_loop.raw_induct [where P = "\<lambda>E tok rest s s'. peers_inv s \<longrightarrow> peers_inv s'", OF _ assms(1)])
    fix f E tok rest s s'
    assume IH: "\<And>E tok rest s s'. f E tok rest s = Some s' \<Longrightarrow> peers_inv s \<longrightarrow> peers_inv s'"
      and run: "(case tok of
        None \<Rightarrow> Some s
      | Some t \<Rightarrow>
          (case strtok (CHR '':'') t of
             None \<Rightarrow> f E (Some t) rest s
           | Some (ip_addr, r) \<Rightarrow>
               (case strtok (CHR '':'') r of
                  None \<Rightarrow> f E (Some (takeWhile (\<lambda>c. c = CHR '':'') t @ ip_addr)) rest s
                | Some (port, save) \<Rightarrow> do {
                    let ip_port_tok = strtok (CHR '' '') save;
                    s \<leftarrow> add_peer E s ip_addr port;
                    (case strtok (CHR '' '') rest of
                       None \<Rightarrow> f E None [] s
                     | Some (t', rest') \<Rightarrow> f E (Some t') rest' s)
                  }))) = Some (s' :: pstate)"
    show "peers_inv s \<longrightarrow> peers_inv s'"
      using run IH by (auto split: option.splits simp: bind_eq_Some_conv) (blast intro: add_peer_inv)+
  qed
  with assms(2) show ?thesis by blast
qed

lemma parse_peers_inv:
  assumes "parse_peers E s msg = Some (r, s')" and "peers_inv s"
  shows "peers_inv s'"
proof -
  from assms(2) obtain as where "peers_ok s as" by (auto simp: peers_inv_def)
  from clean_peers_list_result [OF this] obtain s0 where
    s0: "clean_peers_list s = Some s0" "peers_ok s0 []" by blast
  then have "peers_inv s0" by (auto simp: peers_inv_def)
  with assms s0(1) show ?thesis
    by (auto simp: parse_peers_def bind_eq_Some_conv split: if_splits option.splits dest: parse_loop_inv)
qed

lemma connect_nth_inv: "connect_nth E i fs = Some fs' \<Longrightarrow> peers_inv (snd fs) \<Longrightarrow> peers_inv (snd fs')"
  by (cases fs) (auto simp: connect_nth_def peers_inv_def bind_eq_Some_conv split: if_splits
    intro!: exI peers_ok_upd elim!: peers_ok_dom)

lemma connect_to_peers_inv: "connect_to_peers E s = Some (n, s') \<Longrightarrow> peers_inv s \<Longrightarrow> peers_inv s'"
  using mfold_keeps [of "\<lambda>fs. peers_inv (snd fs)" "connect_nth E", OF connect_nth_inv]
  by (fastforce simp: connect_to_peers_def)

section \<open>Examples\<close>

definition ex_peer :: peer where
  "ex_peer = \<lparr>peer_id = 0, peer_address = replicate NI_MAXHOST NUL, peer_port = replicate NI_MAXSERV NUL,
     peer_fd = 0, open_con = 0, ttl = 0\<rparr>"

text \<open>Only the host 10.0.0.1 answers.\<close>

definition ex_hosts :: net where
  "ex_hosts = \<lparr>n_getaddrinfo = (\<lambda>h _. Some [if h = Some ''10.0.0.1'' then 0 else 1]),
     n_socket = (\<lambda>a. int a + 3), n_setsockopt = (\<lambda>_. 0), n_bind = (\<lambda>_ _. 0),
     n_connect = (\<lambda>_ a. if a = 0 then 0 else -1)\<rparr>"

definition ex_penv :: penv where
  "ex_penv = \<lparr>pe_net = ex_hosts, pe_send = (\<lambda>_ data. int (length data)), pe_blk = (\<lambda>_. ex_peer)\<rparr>"

definition ex_pstate :: pstate where
  "ex_pstate = \<lparr>ps_peers = Map.empty, ps_list = list_create ex_blocks, ps_next = 0, ps_id = 0,
     ps_sent = [], ps_closed = []\<rparr>"

lemma ex_penv_ok: "blocks_ok ex_penv"
  by (simp add: blocks_ok_def ex_penv_def ex_peer_def)

lemma ex_pstate_ok: "peers_ok ex_pstate []"
  using lst.create [OF zeroed_ex_blocks] by (simp add: peers_ok_def ex_pstate_def)

definition ex_entries :: "(string \<times> string) list" where
  "ex_entries = [(''10.0.0.1'', ''4758''), (''10.0.0.2'', ''4759'')]"

lemma ex_entries_good: "\<forall>ap \<in> set ex_entries. good_entry ap"
  by (simp add: ex_entries_def good_entry_def good_word_def NI_MAXHOST_def NI_MAXSERV_def)

lemma ex_peers:
  "\<exists>s bs. peers_ok s bs \<and> map (peer_text s) bs = map (\<lambda>(a, p). (Some a, Some p, 0)) ex_entries"
proof -
  let ?e = "(''10.0.0.2'', ''4759'')"
  have "\<forall>ap \<in> set ((''10.0.0.1'', ''4758'') # [?e]). good_entry ap"
    using ex_entries_good by (simp add: ex_entries_def)
  moreover have "tokens (CHR '' '') (join (CHR '' '') [entry_text ?e]) = map entry_text [?e]"
    using ex_entries_good entry_tokens(3,4) [of ?e] tokens_join [of "[entry_text ?e]" "CHR '' ''"]
    by (simp add: ex_entries_def)
  ultimately show ?thesis
    using parse_loop_result [OF ex_pstate_ok ex_penv_ok] unfolding ex_entries_def by fastforce
qed

section \<open>Properties\<close>

text \<open>
  C22: a list of peers in the form \<open>address:port address:port\<close>, with any spaces between the
  entries, replaces the peer list: afterwards the list holds one closed peer per entry, with exactly
  its address and port and in the order of the message, the structs of the previous peers are freed,
  and the sockets of the open ones are closed in order.
\<close>

theorem parse_peers_result:
  assumes "peers_ok s as" and "blocks_ok E"
    and "tokens (CHR '' '') msg = map entry_text aps" and "\<forall>ap \<in> set aps. good_entry ap" and "msg \<noteq> []"
  shows "\<exists>s' bs. parse_peers E s msg = Some (0, s') \<and> peers_ok s' bs \<and>
    map (peer_text s') bs = map (\<lambda>(a, p). (Some a, Some p, 0)) aps \<and>
    ps_sent s' = ps_sent s \<and> ps_closed s' = ps_closed s @ closed_fds s as"
  by (rule parse_peers_run [OF assms])

theorem parse_peers_result_witness:
  "\<exists>s' bs. parse_peers ex_penv ex_pstate ''10.0.0.1:4758 10.0.0.2:4759'' = Some (0, s') \<and> peers_ok s' bs \<and>
     map (peer_text s') bs = [(Some ''10.0.0.1'', Some ''4758'', 0), (Some ''10.0.0.2'', Some ''4759'', 0)]"
proof -
  have "tokens (CHR '' '') (join (CHR '' '') (map entry_text ex_entries)) = map entry_text ex_entries"
    using ex_entries_good entry_tokens(3,4) by (intro tokens_join) auto
  then have "tokens (CHR '' '') ''10.0.0.1:4758 10.0.0.2:4759'' = map entry_text ex_entries"
    by (simp add: ex_entries_def entry_text_def)
  from parse_peers_result [OF ex_pstate_ok ex_penv_ok this ex_entries_good] obtain s' bs where
    run: "parse_peers ex_penv ex_pstate ''10.0.0.1:4758 10.0.0.2:4759'' = Some (0, s')" "peers_ok s' bs"
    and eq: "map (peer_text s') bs = map (\<lambda>(a, p). (Some a, Some p, 0)) ex_entries" by blast
  have "map (peer_text s') bs = [(Some ''10.0.0.1'', Some ''4758'', 0), (Some ''10.0.0.2'', Some ''4759'', 0)]"
    unfolding eq by (simp add: ex_entries_def)
  then show ?thesis
    by - (rule exI [of _ s'], rule exI [of _ bs], rule conjI [OF run(1) conjI [OF run(2)]], assumption)
qed

text \<open>
  C23: an entry without an address or without a port is not skipped: whatever else the message
  says, \<open>parse_peers\<close> never returns from a message with such an entry (the \<open>continue\<close> of the error
  branch examines the same entry again).
\<close>

theorem parse_peers_hangs:
  assumes "w \<in> set (tokens (CHR '' '') msg)" and "length (tokens (CHR '':'') w) < 2"
  shows "parse_peers E s msg = None"
proof (rule ccontr)
  assume "parse_peers E s msg \<noteq> None"
  moreover have "\<not> length msg < 1" using assms(1) by (cases msg) auto
  ultimately obtain s0 s' where run: "(case strtok (CHR '' '') msg of
      None \<Rightarrow> parse_loop E None [] s0
    | Some (t, rest) \<Rightarrow> parse_loop E (Some t) rest s0) = Some s'"
    by (auto simp: parse_peers_def bind_eq_Some_conv)
  obtain t rest where t: "strtok (CHR '' '') msg = Some (t, rest)"
    using assms(1) by (cases "strtok (CHR '' '') msg") (auto simp: tokens.simps [of _ msg])
  with run have "parse_loop E (Some t) rest s0 = Some s'" by simp
  from parse_loop_returns [OF this, unfolded entries_complete_def] t assms show False
    by (auto simp: tokens.simps [of _ msg])
qed

theorem parse_peers_hangs_witness: "parse_peers ex_penv ex_pstate ''10.0.0.1:4758 10.0.0.2'' = None"
proof -
  have "tokens (CHR '' '') (join (CHR '' '') [''10.0.0.1:4758'', ''10.0.0.2'']) = [''10.0.0.1:4758'', ''10.0.0.2'']"
    by (rule tokens_join) simp
  then have "''10.0.0.2'' \<in> set (tokens (CHR '' '') ''10.0.0.1:4758 10.0.0.2'')" by simp
  moreover have "tokens (CHR '':'') (join (CHR '':'') [''10.0.0.2'']) = [''10.0.0.2'']"
    by (rule tokens_join) simp
  then have "length (tokens (CHR '':'') ''10.0.0.2'') < 2" by simp
  ultimately show ?thesis by (rule parse_peers_hangs)
qed

text \<open>
  C24: \<open>connect_to_peers\<close> dials every peer that is not open, leaves the others alone and returns the
  number of failures; but it marks every dialled peer open, with the descriptor -1 after a failure,
  so that a second call dials nobody and reports no failure.
\<close>

theorem connect_to_peers_result:
  assumes "peers_ok s as" and "\<forall>a \<in> set as. dialable E (peer_at s a)"
  shows "\<exists>s'. connect_to_peers E s = Some (int (length (filter (\<lambda>a. dial_fails E (peer_at s a)) as)), s') \<and>
    peers_ok s' as \<and> (\<forall>a \<in> set as. peer_at s' a = dialled E (peer_at s a) \<and> open_con (peer_at s' a) \<noteq> 0) \<and>
    map_option fst (connect_to_peers E s') = Some 0"
proof -
  from connect_to_peers_run [OF assms] obtain s' where
    s': "connect_to_peers E s = Some (int (length (filter (\<lambda>a. dial_fails E (peer_at s a)) as)), s')"
    "peers_ok s' as" "\<forall>a \<in> set as. peer_at s' a = dialled E (peer_at s a)" by blast
  have opens: "\<forall>a \<in> set as. open_con (peer_at s' a) \<noteq> 0" using s'(3) by (simp add: dialled_def)
  then have "\<forall>a \<in> set as. dialable E (peer_at s' a)" by (simp add: dialable_def)
  from connect_to_peers_run [OF s'(2) this] opens have "map_option fst (connect_to_peers E s') = Some 0"
    by (auto simp: dial_fails_def filter_empty_conv)
  with s' opens show ?thesis by blast
qed

theorem connect_to_peers_result_witness:
  "\<exists>s s' as. peers_ok s as \<and> connect_to_peers ex_penv s = Some (1, s') \<and> peer_fd (peer_at s' (as ! 1)) = -1 \<and>
     open_con (peer_at s' (as ! 1)) = 1"
proof -
  from ex_peers obtain s bs where s: "peers_ok s bs"
    "map (peer_text s) bs = map (\<lambda>(a, p). (Some a, Some p, 0)) ex_entries" by blast
  then obtain a b where bs: "bs = [a, b]" by (auto simp: ex_entries_def map_eq_Cons_conv)
  let ?p = "peer_at s a" and ?q = "peer_at s b"
  have p: "open_con ?p = 0" "cstr (peer_address ?p) = Some ''10.0.0.1''" "cstr (peer_port ?p) = Some ''4758''"
    and q: "open_con ?q = 0" "cstr (peer_address ?q) = Some ''10.0.0.2''" "cstr (peer_port ?q) = Some ''4759''"
    using s(2) bs by (simp_all add: ex_entries_def peer_text_def)
  have d: "dial ex_penv ?p = Some 3" "dial ex_penv ?q = Some (-1)"
    using p q by (simp_all add: dial_def connect_to_host_def ex_penv_def ex_hosts_def)
  then have "\<forall>x \<in> set bs. dialable ex_penv (peer_at s x)" using p q bs by (simp add: dialable_def)
  from connect_to_peers_result [OF s(1) this] obtain s' where
    s': "connect_to_peers ex_penv s = Some (int (length (filter (\<lambda>x. dial_fails ex_penv (peer_at s x)) bs)), s')"
    "\<forall>x \<in> set bs. peer_at s' x = dialled ex_penv (peer_at s x)" by blast
  from s' p q d bs have "connect_to_peers ex_penv s = Some (1, s')" "peer_at s' b = ?q\<lparr>peer_fd := -1, open_con := 1\<rparr>"
    by (simp_all add: dial_fails_def dialled_def)
  with s(1) bs show ?thesis by (intro exI [of _ s] exI [of _ s'] exI [of _ bs]) simp
qed

end
