(* ===== verification/Client.thy ===== *)
theory Client
  imports Enc KeyTable PeerTable
begin

text \<open>
  The client's messages (\<open>ac-client-server/client_server.c\<close>): what the user types
  (\<open>input_handle\<close>, \<open>input_send_msg\<close>, \<open>str_rand\<close>), what other clients send (\<open>client_handle\<close>,
  \<open>client_parse_msg\<close>), what the name server sends (\<open>name_server_handle\<close>), and \<open>update_port\<close>.

  The state holds the memory with the blocks that the tables point into (receive buffers, padded
  messages, directory entries), the two hash tables, the peers, the cipher contexts, the connections
  and the decrypted messages that were printed. Parameters (hash tables, OpenSSL, the allocator,
  sockets, time and random numbers) are fields of an environment.
\<close>

section \<open>State and environment\<close>

definition BUFFER_SIZE :: nat where "BUFFER_SIZE = 1500"

definition MESSAGE_LENGTH :: nat where "MESSAGE_LENGTH = 1350"

record conn =
  conn_id :: int
  conn_fd :: int
  conn_open :: int

record ('t, 'kt, 'c) client =
  cs_mem :: heap
  cs_seen :: 't
  cs_keys :: 'kt
  cs_peers :: pstate
  cs_ctx :: "'c rsa_ctx"
  cs_conns :: "nat \<rightharpoonup> conn"
  cs_list :: "nat clist"
  cs_conn_id :: int
  cs_shown :: "string list"

record ('t, 'kt, 'c, 'pub, 'priv) cenv =
  ce_hash :: "('t, message_hash) ghash"
  ce_key_hash :: "('kt, 'pub rsa_key) ghash"
  ce_evp :: "('c, 'pub, 'priv) evp"
  ce_private :: 'priv
  ce_malloc :: "nat \<Rightarrow> bytes"
  ce_struct :: message_encrypted
  ce_peers :: penv
  ce_time :: int
  ce_rand :: "nat \<Rightarrow> nat"

section \<open>What the user types\<close>

text \<open>\<open>rnd i\<close> is the result of the \<open>i\<close>-th call of \<open>rand\<close>.\<close>

definition str_rand :: "(nat \<Rightarrow> nat) \<Rightarrow> bytes \<Rightarrow> nat \<Rightarrow> bytes option" where
  "str_rand rnd dest len = do {
     dest \<leftarrow> mfold (\<lambda>i dest. put_byte dest i (char_of (48 + rnd i mod 72))) [0..<len] dest;
     put_byte dest len NUL
   }"

definition strchr :: "string \<Rightarrow> char \<Rightarrow> nat option" where
  "strchr s d = (if d \<in> set s then Some (length (takeWhile (\<lambda>c. c \<noteq> d) s)) else None)"

definition pad_message :: "('t, 'kt, 'c, 'pub, 'priv) cenv \<Rightarrow> string \<Rightarrow> bytes option" where
  "pad_message E encoded = do {
     let encoded_len = length encoded;
     padded \<leftarrow> strncpy (ce_malloc E MESSAGE_LENGTH) encoded MESSAGE_LENGTH;
     if encoded_len < MESSAGE_LENGTH then do {
       let pad_len = MESSAGE_LENGTH - encoded_len - 1;
       pad_str \<leftarrow> str_rand (ce_rand E) (ce_malloc E (pad_len + 1)) pad_len;
       padded \<leftarrow> strncat padded '' '' 2;
       p \<leftarrow> cstr pad_str;
       strncat padded p (pad_len + 1)
     }
     else Some padded
   }"

text \<open>
  \<open>a\<close> is the address of the block for the padded message. The search in the table after the
  insertion is only printed. An input without a colon dereferences NULL.
\<close>

definition input_send_msg ::
  "('t, 'kt, 'c, 'pub, 'priv) cenv \<Rightarrow> nat \<Rightarrow> ('t, 'kt, 'c) client \<Rightarrow> string \<Rightarrow>
     (int \<times> ('t, 'kt, 'c) client) option" where
  "input_send_msg E a s input = do {
     first_colon \<leftarrow> strchr input (CHR '':'');
     let name = take first_colon input;
     let msg = drop (first_colon + 1) input;
     (case key_get_by_name (ce_key_hash E) (cs_mem s) (cs_keys s) name of
        None \<Rightarrow> Some (1, s)
      | Some pub_key \<Rightarrow> do {
          (enc, ctx) \<leftarrow> msg_encrypt_encode (ce_evp E) (ce_malloc E) (ce_struct E) msg (cs_ctx s) pub_key;
          let s = s\<lparr>cs_ctx := ctx\<rparr>;
          (case enc of
             None \<Rightarrow> Some (1, s)
           | Some encoded_msg \<Rightarrow> do {
               encoded \<leftarrow> cstr encoded_msg;
               padded_msg \<leftarrow> pad_message E encoded;
               let mem = (cs_mem s)(a \<mapsto> padded_msg);
               t \<leftarrow> client_hash_add_msg (ce_hash E) mem (ce_time E) (cs_seen s) a;
               seen \<leftarrow> client_has_seen_msg (ce_hash E) mem t a;
               text \<leftarrow> text_at mem a;
               peers \<leftarrow> client_send_to_all_peers (ce_peers E) text (cs_peers s);
               Some (0, s\<lparr>cs_mem := mem(a := None), cs_seen := t, cs_peers := peers\<rparr>)
             })
        })
   }"

text \<open>
  One line of input: what \<open>getline\<close> read, with its newline, or -1 (\<open>None\<close>), when the code writes
  before the buffer. The last byte is overwritten, newline or not.
\<close>

definition input_line ::
  "('t, 'kt, 'c, 'pub, 'priv) cenv \<Rightarrow> nat \<Rightarrow> ('t, 'kt, 'c) client \<Rightarrow> bytes option \<Rightarrow>
     ('t, 'kt, 'c) client option" where
  "input_line E a s r =
     (case r of
        None \<Rightarrow> None
      | Some line \<Rightarrow> do {
          input \<leftarrow> cstr (butlast line @ [NUL]);
          (res, s) \<leftarrow> input_send_msg E a s input;
          Some s
        })"

section \<open>What other clients send\<close>

text \<open>
  The part of \<open>client_parse_msg\<close> under the mutex and the relay; \<open>k\<close> is the address of the message.
  The result says whether the message is new.
\<close>

definition client_relay_msg ::
  "('t, 'kt, 'c, 'pub, 'priv) cenv \<Rightarrow> nat \<Rightarrow> nat \<Rightarrow> ('t, 'kt, 'c) client \<Rightarrow>
     (bool \<times> ('t, 'kt, 'c) client) option" where
  "client_relay_msg E k len s = do {
     seen \<leftarrow> client_has_seen_msg (ce_hash E) (cs_mem s) (cs_seen s) k;
     if seen \<noteq> 0 then Some (False, s)
     else do {
       t \<leftarrow> client_hash_add_msg (ce_hash E) (cs_mem s) (ce_time E) (cs_seen s) k;
       b \<leftarrow> cs_mem s k;
       data \<leftarrow> read_bytes b (int len);
       peers \<leftarrow> client_send_to_all_peers (ce_peers E) data (cs_peers s);
       Some (True, s\<lparr>cs_seen := t, cs_peers := peers\<rparr>)
     }
   }"

definition client_read_msg ::
  "('t, 'kt, 'c, 'pub, 'priv) cenv \<Rightarrow> nat \<Rightarrow> ('t, 'kt, 'c) client \<Rightarrow> ('t, 'kt, 'c) client option" where
  "client_read_msg E k s = do {
     msg \<leftarrow> text_at (cs_mem s) k;
     (dec, ctx) \<leftarrow> msg_decode_decrypt (ce_evp E) (ce_malloc E) (ce_struct E) msg (cs_ctx s) (ce_private E);
     let s = s\<lparr>cs_ctx := ctx\<rparr>;
     (case dec of
        None \<Rightarrow> Some s
      | Some decoded_msg \<Rightarrow> do {
          d \<leftarrow> cstr decoded_msg;
          Some (s\<lparr>cs_shown := cs_shown s @ [d]\<rparr>)
        })
   }"

definition client_parse_msg ::
  "('t, 'kt, 'c, 'pub, 'priv) cenv \<Rightarrow> nat \<Rightarrow> nat \<Rightarrow> ('t, 'kt, 'c) client \<Rightarrow> ('t, 'kt, 'c) client option" where
  "client_parse_msg E k len s = do {
     (fresh, s) \<leftarrow> client_relay_msg E k len s;
     if fresh then client_read_msg E k s else Some s
   }"

text \<open>\<open>accept\<close> returned \<open>fd\<close>; the struct is at the fresh address \<open>c\<close> and holds \<open>blk\<close>.\<close>

definition accept_conn :: "('t, 'kt, 'c) client \<Rightarrow> nat \<Rightarrow> int \<Rightarrow> conn \<Rightarrow> ('t, 'kt, 'c) client option" where
  "accept_conn s c fd blk =
     (if fd = -1 then Some s
      else Some (s\<lparr>cs_conns := (cs_conns s)(c \<mapsto> blk\<lparr>conn_id := cs_conn_id s, conn_fd := fd, conn_open := 1\<rparr>),
        cs_conn_id := cs_conn_id s + 1\<rparr>))"

text \<open>The thread's receive buffer is the block \<open>k\<close>.\<close>

definition conn_start :: "('t, 'kt, 'c, 'pub, 'priv) cenv \<Rightarrow> nat \<Rightarrow> ('t, 'kt, 'c) client \<Rightarrow> ('t, 'kt, 'c) client" where
  "conn_start E k s = s\<lparr>cs_mem := (cs_mem s)(k \<mapsto> ce_malloc E (BUFFER_SIZE + 1))\<rparr>"

definition recv_into :: "bytes \<Rightarrow> received \<Rightarrow> (nat \<times> bytes) option" where
  "recv_into buffer r =
     (case r of
        Failed \<Rightarrow> None
      | Received d \<Rightarrow> do {
          buffer \<leftarrow> write_at buffer 0 d;
          buffer \<leftarrow> put_byte buffer (length d) NUL;
          Some (length d, buffer)
        })"

definition conn_msg ::
  "('t, 'kt, 'c, 'pub, 'priv) cenv \<Rightarrow> nat \<Rightarrow> ('t, 'kt, 'c) client \<Rightarrow> received \<Rightarrow> ('t, 'kt, 'c) client option" where
  "conn_msg E k s r = do {
     buffer \<leftarrow> cs_mem s k;
     (res, buffer) \<leftarrow> recv_into buffer r;
     client_parse_msg E k res (s\<lparr>cs_mem := (cs_mem s)(k \<mapsto> buffer)\<rparr>)
   }"

text \<open>The end of \<open>client_handle\<close>: nothing ever adds a client to the list it is removed from.\<close>

definition conn_end :: "nat \<Rightarrow> nat \<Rightarrow> ('t, 'kt, 'c) client \<Rightarrow> ('t, 'kt, 'c) client option" where
  "conn_end k c s = do {
     cn \<leftarrow> cs_conns s c;
     (r, l) \<leftarrow> list_remove (cs_list s) c;
     Some (s\<lparr>cs_conns := (cs_conns s)(c \<mapsto> cn\<lparr>conn_fd := -1, conn_open := 0\<rparr>), cs_list := l,
       cs_peers := (cs_peers s)\<lparr>ps_closed := ps_closed (cs_peers s) @ [conn_fd cn]\<rparr>,
       cs_mem := (cs_mem s)(k := None)\<rparr>)
   }"

section \<open>The name server\<close>

definition name_server_msg ::
  "('t, 'kt, 'c, 'pub, 'priv) cenv \<Rightarrow> bytes \<Rightarrow> ('t, 'kt, 'c) client \<Rightarrow> received \<Rightarrow>
     (bytes \<times> ('t, 'kt, 'c) client) option" where
  "name_server_msg E buffer s r = do {
     (res, buffer) \<leftarrow> recv_into buffer r;
     txt \<leftarrow> cstr buffer;
     if str_starts_with txt ''PEERS '' then do {
       (r, peers) \<leftarrow> parse_peers (ce_peers E) (cs_peers s) (drop 6 txt);
       (failed, peers) \<leftarrow> connect_to_peers (ce_peers E) peers;
       Some (buffer, s\<lparr>cs_peers := peers\<rparr>)
     }
     else Some (buffer, s)
   }"

text \<open>The message that \<open>update_port\<close> sends: the whole block.\<close>

definition update_port_msg :: "(nat \<Rightarrow> bytes) \<Rightarrow> string \<Rightarrow> bytes option" where
  "update_port_msg malloc port = do {
     let msg_len = length ''PORTUPD '' + NI_MAXSERV + 1;
     msg \<leftarrow> strncpy (malloc msg_len) ''PORTUPD '' msg_len;
     msg \<leftarrow> strncat msg port msg_len;
     read_bytes msg (int msg_len)
   }"

definition update_port ::
  "(int \<Rightarrow> bytes \<Rightarrow> int) \<Rightarrow> (nat \<Rightarrow> bytes) \<Rightarrow> (int \<times> bytes) list \<Rightarrow> int \<Rightarrow> string \<Rightarrow>
     (int \<times> (int \<times> bytes) list) option" where
  "update_port send malloc log socket_fd port = do {
     msg \<leftarrow> update_port_msg malloc port;
     Some (send_msg send log socket_fd msg)
   }"

section \<open>Padding\<close>

definition rand_text :: "(nat \<Rightarrow> nat) \<Rightarrow> nat \<Rightarrow> string" where
  "rand_text rnd n = map (\<lambda>i. char_of (48 + rnd i mod 72)) [0..<n]"

text \<open>The random characters are \<open>'0'\<close> to \<open>'w'\<close>: no space and no NUL.\<close>

lemma rand_char: "48 \<le> (of_char (char_of (48 + (n :: nat) mod 72)) :: nat) \<and> (of_char (char_of (48 + n mod 72)) :: nat) \<le> 119"
proof -
  have "n mod 72 < 72" by simp
  then show ?thesis by (simp add: take_bit_eq_mod)
qed

lemma rand_text_chars: "c \<in> set (rand_text rnd n) \<Longrightarrow> 48 \<le> (of_char c :: nat) \<and> (of_char c :: nat) \<le> 119"
  using rand_char by (auto simp: rand_text_def)

lemma rand_text_no: "NUL \<notin> set (rand_text rnd n)" "CHR '' '' \<notin> set (rand_text rnd n)"
  using rand_text_chars [of NUL rnd n] rand_text_chars [of "CHR '' ''" rnd n] by auto

lemma length_rand_text [simp]: "length (rand_text rnd n) = n"
  by (simp add: rand_text_def)

lemma str_rand_prefix:
  "n \<le> length dest \<Longrightarrow>
     mfold (\<lambda>i dest. put_byte dest i (char_of (48 + rnd i mod 72))) [0..<n] dest = Some (rand_text rnd n @ drop n dest)"
proof (induction n)
  case (Suc n)
  then obtain c r where r: "drop n dest = c # r" by (cases "drop n dest") auto
  then have "drop (Suc n) dest = r" by (metis drop_Suc drop_tl list.sel(3))
  with Suc r show ?case
    by (simp add: mfold_append put_byte_def list_update_append rand_text_def)
qed (simp add: rand_text_def)

lemma str_rand_result:
  assumes "n < length dest"
  shows "\<exists>b. str_rand rnd dest n = Some b \<and> cstr b = Some (rand_text rnd n) \<and> length b = length dest"
proof -
  from assms obtain c r where r: "drop n dest = c # r" by (cases "drop n dest") auto
  then have "str_rand rnd dest n = Some (rand_text rnd n @ NUL # r)"
    using assms str_rand_prefix [of n dest rnd] by (simp add: str_rand_def put_byte_def list_update_append)
  moreover have "length dest = n + length (drop n dest)" using assms by simp
  ultimately show ?thesis using rand_text_no(1) [of rnd n] r by simp
qed

definition padded :: "('t, 'kt, 'c, 'pub, 'priv) cenv \<Rightarrow> string \<Rightarrow> string" where
  "padded E enc = enc @ CHR '' '' # rand_text (ce_rand E) (MESSAGE_LENGTH - length enc - 1)"

lemma length_padded: "length enc < MESSAGE_LENGTH \<Longrightarrow> length (padded E enc) = MESSAGE_LENGTH"
  by (simp add: padded_def)

lemma padded_no_NUL: "NUL \<notin> set enc \<Longrightarrow> NUL \<notin> set (padded E enc)"
  using rand_text_no(1) by (simp add: padded_def)

lemma pad_message_result:
  assumes nul: "NUL \<notin> set enc" and len: "length enc < MESSAGE_LENGTH"
    and mem: "\<forall>n. n \<le> length (ce_malloc E n)"
  shows "if length (ce_malloc E MESSAGE_LENGTH) = MESSAGE_LENGTH then pad_message E enc = None
    else \<exists>b. pad_message E enc = Some b \<and> cstr b = Some (padded E enc)"
proof -
  let ?blk = "ce_malloc E MESSAGE_LENGTH" and ?p = "MESSAGE_LENGTH - length enc - 1"
  have blk: "MESSAGE_LENGTH \<le> length ?blk" using mem by blast
  from strncpy_fits [OF nul len blk] obtain b1 where
    b1: "strncpy ?blk enc MESSAGE_LENGTH = Some b1" "cstr b1 = Some enc" "length b1 = length ?blk" by blast
  have "?p < length (ce_malloc E (?p + 1))" using mem [rule_format, of "?p + 1"] by linarith
  from str_rand_result [OF this] obtain r where
    r: "str_rand (ce_rand E) (ce_malloc E (?p + 1)) ?p = Some r" "cstr r = Some (rand_text (ce_rand E) ?p)" by blast
  have run: "pad_message E enc = strncat b1 '' '' 2 \<bind> (\<lambda>b. strncat b (rand_text (ce_rand E) ?p) (?p + 1))"
    using len b1(1) r by (simp add: pad_message_def Let_def)
  show ?thesis
  proof (cases "length enc + 1 < length ?blk")
    case True
    then obtain b2 where b2: "strncat b1 '' '' 2 = Some b2" "cstr b2 = Some (enc @ '' '')" "length b2 = length ?blk"
      using strncat_step [OF b1(2), of "'' ''" 2] b1(3) by auto
    have "length (enc @ '' '') + length (rand_text (ce_rand E) ?p) = MESSAGE_LENGTH" using len by simp
    with strncat_step [OF b2(2) rand_text_no(1), of "ce_rand E" ?p "?p + 1"] b2(1,3) run blk show ?thesis
      by (auto simp: padded_def)
  next
    case False
    with blk len have "length ?blk = MESSAGE_LENGTH" by simp
    with False strncat_step [OF b1(2), of "'' ''" 2] b1(3) run show ?thesis by simp
  qed
qed

section \<open>Receiving\<close>

lemma recv_into_block:
  assumes "length d \<le> BUFFER_SIZE" and "BUFFER_SIZE < length buffer"
  shows "\<exists>r. recv_into buffer (Received d) = Some (length d, d @ NUL # r) \<and> BUFFER_SIZE < length (d @ NUL # r)"
proof -
  obtain b where b: "write_at buffer 0 d = Some b" "length b = length buffer" "take (length d) b = d"
    using write_at_in [of 0 d buffer] assms by auto
  obtain c r where r: "drop (length d) b = c # r"
    using b(2) assms by (cases "drop (length d) b") auto
  then have "b = d @ c # r" using b(3) by (metis append_take_drop_id)
  then have "put_byte b (length d) NUL = Some (d @ NUL # r)" by (simp add: put_byte_def)
  moreover have "BUFFER_SIZE < length (d @ NUL # r)" using \<open>b = d @ c # r\<close> b(2) assms(2) by simp
  ultimately show ?thesis using b(1) by (simp add: recv_into_def)
qed

lemma recv_into_text:
  assumes "length d \<le> BUFFER_SIZE" and "BUFFER_SIZE < length buffer"
  shows "\<exists>b. recv_into buffer (Received d) = Some (length d, b) \<and> cstr b = Some (takeWhile (\<lambda>c. c \<noteq> NUL) d) \<and>
    BUFFER_SIZE < length b"
proof -
  have "cstr (d @ NUL # r) = Some (takeWhile (\<lambda>c. c \<noteq> NUL) d)" for r
    by (cases "NUL \<in> set d") (auto simp: cstr_def takeWhile_absent takeWhile_stop)
  with recv_into_block [OF assms] show ?thesis by blast
qed

lemma recv_into_result:
  assumes "length d \<le> BUFFER_SIZE" and "BUFFER_SIZE < length buffer" and "NUL \<notin> set d"
  shows "\<exists>b. recv_into buffer (Received d) = Some (length d, b) \<and> cstr b = Some d \<and> take (length d) b = d \<and>
    BUFFER_SIZE < length b"
  using recv_into_block [OF assms(1,2)] assms(3) by fastforce

definition entry_for :: "('t, 'kt, 'c, 'pub, 'priv) cenv \<Rightarrow> string \<Rightarrow> message_hash" where
  "entry_for E d = \<lparr>mh_msg = d, purge_time = ce_time E + MESSAGE_PURGE_TIME\<rparr>"

text \<open>A message that the table does not find is entered, relayed to the open peers, and read.\<close>

lemma conn_msg_result:
  assumes buf: "cs_mem s k = Some buffer" "BUFFER_SIZE < length buffer"
    and d: "length d \<le> BUFFER_SIZE" "NUL \<notin> set d" and ok: "peers_ok (cs_peers s) as"
  obtains b where "cstr b = Some d" "BUFFER_SIZE < length b"
    "conn_msg E k s (Received d) = (let mem = (cs_mem s)(k \<mapsto> b) in
       if g_lookup (ce_hash E) (cs_seen s) mem d \<noteq> None then Some (s\<lparr>cs_mem := mem\<rparr>)
       else client_read_msg E k (s\<lparr>cs_mem := mem,
         cs_seen := g_insert (ce_hash E) (cs_seen s) mem k (entry_for E d),
         cs_peers := (cs_peers s)\<lparr>ps_sent := ps_sent (cs_peers s) @ flood (cs_peers s) as d\<rparr>\<rparr>))"
proof -
  from recv_into_result [OF d(1) buf(2) d(2)] obtain b where
    b: "recv_into buffer (Received d) = Some (length d, b)" "cstr b = Some d" "take (length d) b = d"
      "BUFFER_SIZE < length b" by blast
  have t: "text_at ((cs_mem s)(k \<mapsto> b)) k = Some d" by (simp add: text_at_fresh b)
  have "read_bytes b (int (length d)) = Some d" using b(3,4) d(1) by (simp add: read_bytes_def)
  with buf(1) b(1) t client_send_to_all_peers_result [OF ok] show ?thesis
    by (intro that [OF b(2,4)])
      (simp add: conn_msg_def client_parse_msg_def client_relay_msg_def client_has_seen_msg_def
        client_hash_add_msg_def entry_for_def Let_def)
qed

lemma flood_sent [simp]: "flood (p\<lparr>ps_sent := l\<rparr>) as d = flood p as d"
  by (simp add: flood_def peer_at_def)

text \<open>A message that every context decodes without a fault, to a string or to an error.\<close>

definition readable :: "('t, 'kt, 'c, 'pub, 'priv) cenv \<Rightarrow> string \<Rightarrow> bool" where
  "readable E d \<longleftrightarrow> (\<forall>ctx. \<exists>r ctx'.
     msg_decode_decrypt (ce_evp E) (ce_malloc E) (ce_struct E) d ctx (ce_private E) = Some (r, ctx') \<and>
     (\<forall>p. r = Some p \<longrightarrow> cstr p \<noteq> None))"

lemma read_readable:
  assumes "readable E d" and "text_at (cs_mem s) k = Some d"
  shows "\<exists>ctx sh. client_read_msg E k s = Some (s\<lparr>cs_ctx := ctx, cs_shown := sh\<rparr>)"
proof -
  from assms(1) obtain r ctx' where
    r: "msg_decode_decrypt (ce_evp E) (ce_malloc E) (ce_struct E) d (cs_ctx s) (ce_private E) = Some (r, ctx')"
      "\<forall>p. r = Some p \<longrightarrow> cstr p \<noteq> None" unfolding readable_def by blast
  show ?thesis
  proof (cases r)
    case None
    with r assms(2) have "client_read_msg E k s = Some (s\<lparr>cs_ctx := ctx', cs_shown := cs_shown s\<rparr>)"
      by (simp add: client_read_msg_def)
    then show ?thesis by blast
  next
    case (Some p)
    with r obtain x where "cstr p = Some x" by auto
    with r Some assms(2) have "client_read_msg E k s = Some (s\<lparr>cs_ctx := ctx', cs_shown := cs_shown s @ [x]\<rparr>)"
      by (simp add: client_read_msg_def)
    then show ?thesis by blast
  qed
qed

text \<open>A message that every context decodes to the same output \<open>out\<close>.\<close>

definition reads_as :: "('t, 'kt, 'c, 'pub, 'priv) cenv \<Rightarrow> string \<Rightarrow> string list \<Rightarrow> bool" where
  "reads_as E d out \<longleftrightarrow> (\<forall>ctx. \<exists>r ctx'.
     msg_decode_decrypt (ce_evp E) (ce_malloc E) (ce_struct E) d ctx (ce_private E) = Some (r, ctx') \<and>
     (case r of None \<Rightarrow> out = [] | Some p \<Rightarrow> \<exists>x. cstr p = Some x \<and> out = [x]))"

lemma read_as:
  assumes "reads_as E d out" and "text_at (cs_mem s) k = Some d"
  shows "\<exists>ctx. client_read_msg E k s = Some (s\<lparr>cs_ctx := ctx, cs_shown := cs_shown s @ out\<rparr>)"
proof -
  from assms(1) obtain r ctx' where
    r: "msg_decode_decrypt (ce_evp E) (ce_malloc E) (ce_struct E) d (cs_ctx s) (ce_private E) = Some (r, ctx')"
      "case r of None \<Rightarrow> out = [] | Some p \<Rightarrow> \<exists>x. cstr p = Some x \<and> out = [x]" unfolding reads_as_def by blast
  with assms(2) have "client_read_msg E k s = Some (s\<lparr>cs_ctx := ctx', cs_shown := cs_shown s @ out\<rparr>)"
    by (cases r) (auto simp: client_read_msg_def)
  then show ?thesis by blast
qed

text \<open>What reading a message can show, in some context: at most one text.\<close>

definition outputs :: "('t, 'kt, 'c, 'pub, 'priv) cenv \<Rightarrow> string \<Rightarrow> string list set" where
  "outputs E d = {out. \<exists>ctx r ctx'.
     msg_decode_decrypt (ce_evp E) (ce_malloc E) (ce_struct E) d ctx (ce_private E) = Some (r, ctx') \<and>
     (case r of None \<Rightarrow> out = [] | Some p \<Rightarrow> \<exists>x. cstr p = Some x \<and> out = [x])}"

lemma outputs_short: "out \<in> outputs E d \<Longrightarrow> length out \<le> 1"
  by (auto simp: outputs_def split: option.splits)

lemma reads_as_outputs: "reads_as E d x \<Longrightarrow> out \<in> outputs E d \<Longrightarrow> out = x"
  unfolding reads_as_def outputs_def
proof -
  assume r: "\<forall>ctx. \<exists>r ctx'.
      msg_decode_decrypt (ce_evp E) (ce_malloc E) (ce_struct E) d ctx (ce_private E) = Some (r, ctx') \<and>
      (case r of None \<Rightarrow> x = [] | Some p \<Rightarrow> \<exists>y. cstr p = Some y \<and> x = [y])"
    and "out \<in> {out. \<exists>ctx r ctx'.
      msg_decode_decrypt (ce_evp E) (ce_malloc E) (ce_struct E) d ctx (ce_private E) = Some (r, ctx') \<and>
      (case r of None \<Rightarrow> out = [] | Some p \<Rightarrow> \<exists>y. cstr p = Some y \<and> out = [y])}"
  then obtain ctx r ctx' where
    1: "msg_decode_decrypt (ce_evp E) (ce_malloc E) (ce_struct E) d ctx (ce_private E) = Some (r, ctx')"
      "case r of None \<Rightarrow> out = [] | Some p \<Rightarrow> \<exists>y. cstr p = Some y \<and> out = [y]" by blast
  from r [rule_format, of ctx] 1(1) have "case r of None \<Rightarrow> x = [] | Some p \<Rightarrow> \<exists>y. cstr p = Some y \<and> x = [y]" by simp
  with 1(2) show "out = x" by (cases r) auto
qed

lemma read_outputs:
  assumes "readable E d" and "text_at (cs_mem s) k = Some d"
  shows "\<exists>ctx out. out \<in> outputs E d \<and>
    client_read_msg E k s = Some (s\<lparr>cs_ctx := ctx, cs_shown := cs_shown s @ out\<rparr>)"
proof -
  from assms(1) obtain r ctx' where
    r: "msg_decode_decrypt (ce_evp E) (ce_malloc E) (ce_struct E) d (cs_ctx s) (ce_private E) = Some (r, ctx')"
      "\<forall>p. r = Some p \<longrightarrow> cstr p \<noteq> None" unfolding readable_def by blast
  define out where "out = (case r of None \<Rightarrow> [] | Some p \<Rightarrow> [the (cstr p)])"
  have "out \<in> outputs E d"
    unfolding outputs_def using r by (cases r) (auto simp: out_def intro!: exI [of _ "cs_ctx s"])
  moreover have "client_read_msg E k s = Some (s\<lparr>cs_ctx := ctx', cs_shown := cs_shown s @ out\<rparr>)"
    using r assms(2) by (cases r) (auto simp: client_read_msg_def out_def)
  ultimately show ?thesis by blast
qed

text \<open>A well-formed message is readable, with the key or without.\<close>

lemma well_formed_readable:
  assumes "well_formed d" and "open_bounded (ce_evp E) (ce_private E)" and "\<forall>n. n \<le> length (ce_malloc E n)"
  shows "readable E d"
  using well_formed_decodes [OF assms] unfolding readable_def by blast

text \<open>A new message: it is entered and relayed, and what remains is reading it.\<close>

definition relayed :: "('t, 'kt, 'c, 'pub, 'priv) cenv \<Rightarrow> nat \<Rightarrow> bytes \<Rightarrow> string \<Rightarrow> nat list \<Rightarrow> ('t, 'kt, 'c) client \<Rightarrow>
     ('t, 'kt, 'c) client" where
  "relayed E k b d as s = s\<lparr>cs_mem := (cs_mem s)(k \<mapsto> b),
     cs_seen := g_insert (ce_hash E) (cs_seen s) ((cs_mem s)(k \<mapsto> b)) k (entry_for E d),
     cs_peers := (cs_peers s)\<lparr>ps_sent := ps_sent (cs_peers s) @ flood (cs_peers s) as d\<rparr>\<rparr>"

lemma conn_msg_fresh:
  assumes buf: "cs_mem s k = Some buffer" "BUFFER_SIZE < length buffer"
    and d: "length d \<le> BUFFER_SIZE" "NUL \<notin> set d" and ok: "peers_ok (cs_peers s) as"
    and new: "\<And>mem. (\<forall>a. a \<noteq> k \<longrightarrow> mem a = cs_mem s a) \<Longrightarrow> text_at mem k = Some d \<Longrightarrow>
      g_lookup (ce_hash E) (cs_seen s) mem d = None"
  shows "\<exists>b. cstr b = Some d \<and> BUFFER_SIZE < length b \<and> text_at (cs_mem (relayed E k b d as s)) k = Some d \<and>
    conn_msg E k s (Received d) = client_read_msg E k (relayed E k b d as s)"
proof -
  from conn_msg_result [OF buf d ok, of E] obtain b where
    b: "cstr b = Some d" "BUFFER_SIZE < length b"
    and run: "conn_msg E k s (Received d) = (let mem = (cs_mem s)(k \<mapsto> b) in
       if g_lookup (ce_hash E) (cs_seen s) mem d \<noteq> None then Some (s\<lparr>cs_mem := mem\<rparr>)
       else client_read_msg E k (s\<lparr>cs_mem := mem,
         cs_seen := g_insert (ce_hash E) (cs_seen s) mem k (entry_for E d),
         cs_peers := (cs_peers s)\<lparr>ps_sent := ps_sent (cs_peers s) @ flood (cs_peers s) as d\<rparr>\<rparr>))" by blast
  have "text_at ((cs_mem s)(k \<mapsto> b)) k = Some d" by (simp add: text_at_fresh b)
  with new [of "(cs_mem s)(k \<mapsto> b)"] run b show ?thesis by (auto simp: Let_def relayed_def)
qed

text \<open>A readable new message: the state afterwards, up to the context and the output.\<close>

lemma conn_msg_new:
  assumes "cs_mem s k = Some buffer" "BUFFER_SIZE < length buffer"
    and "length d \<le> BUFFER_SIZE" "NUL \<notin> set d" and "peers_ok (cs_peers s) as" and "readable E d"
    and "\<And>mem. (\<forall>a. a \<noteq> k \<longrightarrow> mem a = cs_mem s a) \<Longrightarrow> text_at mem k = Some d \<Longrightarrow>
      g_lookup (ce_hash E) (cs_seen s) mem d = None"
  shows "\<exists>b ctx sh. cstr b = Some d \<and> BUFFER_SIZE < length b \<and>
    conn_msg E k s (Received d) = Some (s\<lparr>cs_mem := (cs_mem s)(k \<mapsto> b),
      cs_seen := g_insert (ce_hash E) (cs_seen s) ((cs_mem s)(k \<mapsto> b)) k (entry_for E d),
      cs_peers := (cs_peers s)\<lparr>ps_sent := ps_sent (cs_peers s) @ flood (cs_peers s) as d\<rparr>,
      cs_ctx := ctx, cs_shown := sh\<rparr>)"
proof -
  from conn_msg_fresh [OF assms(1-5,7)] obtain b where b: "cstr b = Some d" "BUFFER_SIZE < length b"
    "text_at (cs_mem (relayed E k b d as s)) k = Some d"
    "conn_msg E k s (Received d) = client_read_msg E k (relayed E k b d as s)" by blast
  from read_readable [OF assms(6) b(3)] b show ?thesis unfolding relayed_def by auto
qed

text \<open>A message that the table finds changes the buffer only.\<close>

lemma conn_msg_seen:
  assumes buf: "cs_mem s k = Some buffer" "BUFFER_SIZE < length buffer"
    and d: "length d \<le> BUFFER_SIZE" "NUL \<notin> set d" and ok: "peers_ok (cs_peers s) as"
    and seen: "\<And>mem. (\<forall>a. a \<noteq> k \<longrightarrow> mem a = cs_mem s a) \<Longrightarrow> text_at mem k = Some d \<Longrightarrow>
      g_lookup (ce_hash E) (cs_seen s) mem d \<noteq> None"
  shows "\<exists>b. cstr b = Some d \<and> BUFFER_SIZE < length b \<and>
    conn_msg E k s (Received d) = Some (s\<lparr>cs_mem := (cs_mem s)(k \<mapsto> b)\<rparr>)"
proof -
  from conn_msg_result [OF buf d ok, of E] obtain b where
    b: "cstr b = Some d" "BUFFER_SIZE < length b"
    and run: "conn_msg E k s (Received d) = (let mem = (cs_mem s)(k \<mapsto> b) in
       if g_lookup (ce_hash E) (cs_seen s) mem d \<noteq> None then Some (s\<lparr>cs_mem := mem\<rparr>)
       else client_read_msg E k (s\<lparr>cs_mem := mem,
         cs_seen := g_insert (ce_hash E) (cs_seen s) mem k (entry_for E d),
         cs_peers := (cs_peers s)\<lparr>ps_sent := ps_sent (cs_peers s) @ flood (cs_peers s) as d\<rparr>\<rparr>))" by blast
  from seen [of "(cs_mem s)(k \<mapsto> b)"] b have "g_lookup (ce_hash E) (cs_seen s) ((cs_mem s)(k \<mapsto> b)) d \<noteq> None"
    by (simp add: text_at_fresh)
  with run b show ?thesis by (auto simp: Let_def)
qed

text \<open>While the keys are intact, the table finds exactly what it knows.\<close>

lemma intact_but:
  assumes "intact mem es" and "\<forall>a. a \<noteq> k \<longrightarrow> mem' a = mem a" and "k \<notin> fst ` set es"
  shows "intact mem' es"
proof -
  from assms(2) have "mem' = mem(k := mem' k)" by auto
  with intact_other [OF assms(1,3), of "mem' k"] show ?thesis by simp
qed

end
