(* ===== verification/Delivery.thy ===== *)
theory Delivery
  imports Client
begin

text \<open>
  What becomes of a message between the clients: sending typed input, relaying, and reading. The
  section on examples gives a small client for the witnesses.
\<close>

section \<open>Sizes on the wire\<close>

lemma wire_length:
  "length (wire w ek iv) = (length w + 2) div 3 * 4 + (length ek + 2) div 3 * 4 + (length iv + 2) div 3 * 4 + 2"
  by (simp add: wire_def length_b64)

text \<open>
  An upper bound for the text form of \<open>n\<close> sealed bytes and an encrypted key of \<open>k\<close> bytes, with an IV of 16
  bytes; \<open>input_send_msg\<close> needs it to be less than 1350. With keys of 4096 bits (\<open>keysmith\<close> makes
  these) 462 characters fit, with keys of 2048 bits 718.
\<close>

definition wire_size :: "nat \<Rightarrow> nat \<Rightarrow> nat" where
  "wire_size n k = (n + 3) div 3 * 4 + (k + 2) div 3 * 4 + 26"

lemma encoded_fits:
  assumes "length c = n" and "length ek \<le> k" and "length iv = 16"
  shows "length (wire (c @ [x]) ek iv) \<le> wire_size n k"
proof -
  have "(length ek + 2) div 3 \<le> (k + 2) div 3" using assms(2) by (intro div_le_mono) simp
  then have "(length ek + 2) div 3 * 4 \<le> (k + 2) div 3 * 4" by simp
  moreover have eq: "length (c @ [x]) + 2 = n + 3" "(length iv + 2) div 3 * 4 = 24" using assms(1,3) by simp_all
  ultimately show ?thesis unfolding wire_length wire_size_def eq by linarith
qed

lemma wire_size_4096:
  assumes "length msg \<le> 462"
  shows "wire_size (seal_len msg) 512 < MESSAGE_LENGTH"
proof -
  have "seal_len msg \<le> 464" using assms div_le_mono [of "length msg + 1" 463 16] by (simp add: seal_len_def)
  then have "(seal_len msg + 3) div 3 \<le> 155" using div_le_mono [of "seal_len msg + 3" 467 3] by simp
  then show ?thesis by (simp add: wire_size_def MESSAGE_LENGTH_def)
qed

lemma wire_size_2048:
  assumes "length msg \<le> 718"
  shows "wire_size (seal_len msg) 256 < MESSAGE_LENGTH"
proof -
  have "seal_len msg \<le> 720" using assms div_le_mono [of "length msg + 1" 719 16] by (simp add: seal_len_def)
  then have "(seal_len msg + 3) div 3 \<le> 241" using div_le_mono [of "seal_len msg + 3" 723 3] by simp
  then show ?thesis by (simp add: wire_size_def MESSAGE_LENGTH_def)
qed

section \<open>Sending\<close>

lemma strchr_colon: "d \<notin> set name \<Longrightarrow> strchr (name @ d # msg) d = Some (length name)"
  by (simp add: strchr_def takeWhile_stop)

text \<open>The run of \<open>input_send_msg\<close> up to the padding.\<close>

lemma input_send_run:
  assumes "CHR '':'' \<notin> set name"
    and "key_get_by_name (ce_key_hash E) (cs_mem s) (cs_keys s) name = Some pub"
    and "msg_encrypt_encode (ce_evp E) (ce_malloc E) (ce_struct E) msg (cs_ctx s) pub = Some (Some dest, ctx)"
    and "cstr dest = Some enc" and ok: "peers_ok (cs_peers s) as"
  shows "input_send_msg E a s (name @ CHR '':'' # msg) = do {
     b \<leftarrow> pad_message E enc;
     text \<leftarrow> cstr b;
     Some (0, s\<lparr>cs_ctx := ctx, cs_mem := (cs_mem s)(a := None),
       cs_seen := g_insert (ce_hash E) (cs_seen s) ((cs_mem s)(a \<mapsto> b)) a (entry_for E text),
       cs_peers := (cs_peers s)\<lparr>ps_sent := ps_sent (cs_peers s) @ flood (cs_peers s) as text\<rparr>\<rparr>)
   }"
proof -
  have split: "strchr (name @ CHR '':'' # msg) (CHR '':'') = Some (length name)"
    by (rule strchr_colon [OF assms(1)])
  show ?thesis
  proof (cases "pad_message E enc")
    case None
    with split assms(2-4) show ?thesis by (simp add: input_send_msg_def Let_def)
  next
    case (Some b)
    with split assms(2-4) client_send_to_all_peers_result [OF ok] show ?thesis
      by (cases "cstr b") (simp_all add: input_send_msg_def Let_def client_hash_add_msg_def
        client_has_seen_msg_def text_at_fresh entry_for_def)
  qed
qed

lemma input_send_encodes:
  assumes "input_send_msg E a s (name @ CHR '':'' # msg) = Some (0, s')" and "CHR '':'' \<notin> set name"
    and "key_get_by_name (ce_key_hash E) (cs_mem s) (cs_keys s) name = Some pub"
  obtains dest ctx enc where
    "msg_encrypt_encode (ce_evp E) (ce_malloc E) (ce_struct E) msg (cs_ctx s) pub = Some (Some dest, ctx)"
    "cstr dest = Some enc"
  using assms(1) that strchr_colon [OF assms(2), of msg] assms(3)
  by (auto simp: input_send_msg_def Let_def bind_eq_Some_conv split: option.splits)

lemma freed_not_intact: "(a, s, v) \<in> set es \<Longrightarrow> mem a = None \<Longrightarrow> \<not> intact mem es"
  by (fastforce simp: intact_def text_at_def)

text \<open>The message arrives: with the padding behind it, it is read and shown by the owner of the key.\<close>

lemma padded_reads_as:
  assumes op: "opens (ce_evp R) (ce_private R) ek iv c (msg @ [NUL])" and "ek \<noteq> []"
    and "length iv = EVP_MAX_IV_LENGTH" and "length msg < length c"
    and "\<forall>n. n \<le> length (ce_malloc R n)" and "NUL \<notin> set msg"
  shows "reads_as R (padded E (wire (c @ [x]) ek iv)) [msg]"
  unfolding reads_as_def
proof
  let ?t = "CHR '' '' # rand_text (ce_rand E) (MESSAGE_LENGTH - length (wire (c @ [x]) ek iv) - 1)"
  have t: "wire_tail ?t" "NUL \<notin> set ?t" using rand_text_no(1) by (simp_all add: wire_tail_def)
  fix ctx
  from decrypt_wire [OF assms(1-6) t, where x = x and res = "ce_struct R" and ctx = ctx] obtain b ctx' where
    "msg_decode_decrypt (ce_evp R) (ce_malloc R) (ce_struct R) (wire (c @ [x]) ek iv @ ?t) ctx (ce_private R) =
      Some (Some b, ctx')" "cstr b = Some msg" by blast
  then show "\<exists>r ctx'. msg_decode_decrypt (ce_evp R) (ce_malloc R) (ce_struct R) (padded E (wire (c @ [x]) ek iv)) ctx
      (ce_private R) = Some (r, ctx') \<and> (case r of None \<Rightarrow> [msg] = [] | Some p \<Rightarrow> \<exists>y. cstr p = Some y \<and> [msg] = [y])"
    by (simp add: padded_def)
qed

lemma wire_no_NUL: "NUL \<notin> set (wire w ek iv)"
  using cdc.no_NUL by (auto simp: wire_def)

section \<open>What is sent\<close>

text \<open>A client with the private key of \<open>pub\<close>.\<close>

definition owns_key :: "('t, 'kt, 'c, 'pub, 'priv) cenv \<Rightarrow> 'pub \<Rightarrow> ('t2, 'kt2, 'c, 'pub, 'priv) cenv \<Rightarrow> bool" where
  "owns_key E pub R \<longleftrightarrow> ce_evp R = ce_evp E \<and> evp_ok (ce_evp E) pub (ce_private R) \<and> (\<forall>n. n \<le> length (ce_malloc R n))"

lemma owner_reads:
  assumes "owns_key E pub R" and "\<forall>n. n \<le> length (ce_malloc E n)" and "NUL \<notin> set msg" and "cstr dest = Some enc"
    and "msg_encrypt_encode (ce_evp E) (ce_malloc E) (ce_struct E) msg (cs_ctx s) pub = Some (Some dest, ctx)"
  shows "reads_as R (padded E enc) [msg]"
proof -
  have R: "ce_evp R = ce_evp E" "evp_ok (ce_evp E) pub (ce_private R)" "\<forall>n. n \<le> length (ce_malloc R n)"
    using assms(1) by (simp_all add: owns_key_def)
  from encoded_wire [OF R(2) assms(2,5)] assms(4) R(1) obtain c x ek iv where w: "enc = wire (c @ [x]) ek iv"
    "ek \<noteq> []" "length iv = EVP_MAX_IV_LENGTH" "length msg < length c"
    "opens (ce_evp R) (ce_private R) ek iv c (msg @ [NUL])" by auto
  from padded_reads_as [OF w(5,2-4) R(3) assms(3)] show ?thesis unfolding w(1) .
qed

lemma encoded_length:
  assumes "evp_ok (ce_evp E) pub priv" and "\<forall>n. n \<le> length (ce_malloc E n)"
    and "wire_size (seal_len msg) (EVP_PKEY_size (ce_evp E) pub) < MESSAGE_LENGTH" and "cstr dest = Some enc"
    and "msg_encrypt_encode (ce_evp E) (ce_malloc E) (ce_struct E) msg (cs_ctx s) pub = Some (Some dest, ctx)"
  shows "length enc < MESSAGE_LENGTH \<and> well_formed (padded E enc)"
proof -
  from encoded_wire [OF assms(1,2,5)] assms(4) obtain c x ek iv where w: "enc = wire (c @ [x]) ek iv" "ek \<noteq> []"
    "length iv = EVP_MAX_IV_LENGTH" "length c = seal_len msg" "length ek \<le> EVP_PKEY_size (ce_evp E) pub" by auto
  let ?t = "CHR '' '' # rand_text (ce_rand E) (MESSAGE_LENGTH - length enc - 1)"
  have "wire_tail ?t \<and> NUL \<notin> set ?t" using rand_text_no(1) by (simp add: wire_tail_def)
  then have "well_formed (padded E enc)"
    unfolding well_formed_def padded_def using w(1-3) by (intro exI [of _ "c @ [x]"] exI [of _ ek] exI [of _ iv] exI [of _ ?t]) simp
  moreover have "length iv = 16" using w(3) by (simp add: EVP_MAX_IV_LENGTH_def)
  from encoded_fits [OF w(4,5) this, of x] assms(3) have "length enc < MESSAGE_LENGTH" unfolding w(1) by linarith
  ultimately show ?thesis by blast
qed

lemma sent_message:
  assumes mem: "\<forall>n. n \<le> length (ce_malloc E n)"
    and size: "wire_size (seal_len msg) (EVP_PKEY_size (ce_evp E) pub) < MESSAGE_LENGTH"
    and name: "CHR '':'' \<notin> set name" and msg: "NUL \<notin> set msg"
    and key: "key_get_by_name (ce_key_hash E) (cs_mem s) (cs_keys s) name = Some pub"
    and ps: "peers_ok (cs_peers s) as" and run: "input_send_msg E a s (name @ CHR '':'' # msg) = Some (0, s')"
    and ex: "evp_ok (ce_evp E) pub priv"
  shows "\<exists>data. ps_sent (cs_peers s') = ps_sent (cs_peers s) @ flood (cs_peers s) as data \<and>
    well_formed data \<and> length data \<le> BUFFER_SIZE \<and>
    (\<forall>R :: ('t, 'kt, 'c, 'pub, 'priv) cenv. owns_key E pub R \<longrightarrow> reads_as R data [msg])"
proof -
  from input_send_encodes [OF run name key] obtain dest ctx enc where
    e: "msg_encrypt_encode (ce_evp E) (ce_malloc E) (ce_struct E) msg (cs_ctx s) pub = Some (Some dest, ctx)"
      "cstr dest = Some enc" .
  from encoded_length [OF ex mem size e(2,1)] have fits: "length enc < MESSAGE_LENGTH" and wf: "well_formed (padded E enc)"
    by blast+
  from pad_message_result [OF cstr_no_NUL [OF e(2)] fits mem] input_send_run [OF name key e ps, of a] run
  have "ps_sent (cs_peers s') = ps_sent (cs_peers s) @ flood (cs_peers s) as (padded E enc)"
    by (auto split: if_splits)
  moreover have "length (padded E enc) \<le> BUFFER_SIZE"
    using length_padded [OF fits, of E] by (simp add: BUFFER_SIZE_def MESSAGE_LENGTH_def)
  moreover have "reads_as R (padded E enc) [msg]" if "owns_key E pub R" for R :: "('t, 'kt, 'c, 'pub, 'priv) cenv"
    by (rule owner_reads [OF that mem msg e(2,1)])
  ultimately show ?thesis using wf by blast
qed

section \<open>Examples\<close>

text \<open>The allocator returns a few bytes more than asked for, as real ones do.\<close>

definition ex_malloc :: "nat \<Rightarrow> bytes" where
  "ex_malloc n = replicate (n + 16) NUL"

lemma ex_malloc: "\<forall>n. n \<le> length (ex_malloc n)"
  by (simp add: ex_malloc_def)

lemma length_ex_malloc: "length (ex_malloc n) = n + 16"
  by (simp add: ex_malloc_def)

definition ex_cenv ::
  "((nat \<times> string \<times> message_hash) list, (nat \<times> string \<times> unit rsa_key) list, bytes, unit, unit) cenv" where
  "ex_cenv = \<lparr>ce_hash = glib_ghash, ce_key_hash = assoc_ghash, ce_evp = ex_evp, ce_private = (),
     ce_malloc = ex_malloc, ce_struct = ex_sealed 1, ce_peers = ex_penv, ce_time = 0, ce_rand = (\<lambda>i. i)\<rparr>"

lemma ex_cenv_simps [simp]:
  "ce_hash ex_cenv = glib_ghash" "ce_key_hash ex_cenv = assoc_ghash" "ce_evp ex_cenv = ex_evp"
  "ce_private ex_cenv = ()" "ce_malloc ex_cenv = ex_malloc" "ce_struct ex_cenv = ex_sealed 1"
  by (simp_all add: ex_cenv_def)

text \<open>A client with one open peer on socket 7, the key of bob, and receive buffers in blocks 1 and 2.\<close>

definition ex_client_at :: "pstate \<Rightarrow> ((nat \<times> string \<times> message_hash) list, (nat \<times> string \<times> unit rsa_key) list, bytes) client" where
  "ex_client_at ps = \<lparr>cs_mem = [1 \<mapsto> ex_malloc 1485, 2 \<mapsto> ex_malloc 1485], cs_seen = [],
     cs_keys = [(9, ''bob'', \<lparr>key_id = 0, rsa_name = ''bob'' @ [NUL], rsa_evp = ()\<rparr>)], cs_peers = ps,
     cs_ctx = ex_ctx, cs_conns = Map.empty, cs_list = list_create ex_blocks, cs_conn_id = 0, cs_shown = []\<rparr>"

lemma ex_client_simps [simp]:
  "cs_mem (ex_client_at ps) = [1 \<mapsto> ex_malloc 1485, 2 \<mapsto> ex_malloc 1485]" "cs_seen (ex_client_at ps) = []"
  "cs_peers (ex_client_at ps) = ps" "cs_ctx (ex_client_at ps) = ex_ctx" "cs_shown (ex_client_at ps) = []"
  by (simp_all add: ex_client_at_def)

lemma ex_open_peer: "\<exists>ps as p. peers_ok ps as \<and> p \<in> set as \<and> open_con (peer_at ps p) \<noteq> 0 \<and> flood ps as = (\<lambda>d. [(7, d)])"
proof -
  from ex_peers obtain s bs where s: "peers_ok s bs"
    "map (peer_text s) bs = map (\<lambda>(a, p). (Some a, Some p, 0)) ex_entries" by blast
  then obtain a b where bs: "bs = [a, b]" and closed: "open_con (peer_at s b) = 0"
    by (auto simp: ex_entries_def map_eq_Cons_conv peer_text_def)
  have ab: "a \<noteq> b" using s(1) bs by (auto elim!: peers_okE)
  let ?s = "s\<lparr>ps_peers := (ps_peers s)(a \<mapsto> ex_peer\<lparr>peer_fd := 7, open_con := 1\<rparr>)\<rparr>"
  have "peers_ok ?s bs" by (rule peers_ok_upd [OF s(1)]) (simp add: bs)
  moreover have "flood ?s bs = (\<lambda>d. [(7, d)])" using ab bs closed by (simp add: flood_def peer_at_def fun_eq_iff)
  moreover have "a \<in> set bs" "open_con (peer_at ?s a) \<noteq> 0" using bs by (simp_all add: peer_at_def)
  ultimately show ?thesis by blast
qed

lemma ex_encoded:
  assumes "length m \<le> 462"
  obtains dest ctx enc where "msg_encrypt_encode ex_evp ex_malloc (ex_sealed 1) m ex_ctx () = Some (Some dest, ctx)"
    "cstr dest = Some enc" "length enc < MESSAGE_LENGTH"
proof -
  obtain o2 where s: "seals ex_evp (rsa_encrypt_ctx ex_ctx) () (m @ [NUL]) (1, 1, 1) ex_ek
      (replicate 16 (CHR ''i'')) [] o2 []" using ex_seals by blast
  have room: "length (ex_malloc n) \<noteq> n" for n by (simp add: length_ex_malloc)
  have "length (ex_malloc (length m + 1 + EVP_MAX_IV_LENGTH)) \<noteq> seal_len m"
    using seal_len_bounds(2) [of m] by (simp add: length_ex_malloc EVP_MAX_IV_LENGTH_def)
  note room = this room
  obtain dest ctx where
    e: "msg_encrypt_encode ex_evp ex_malloc (ex_sealed 1) m ex_ctx () = Some (Some dest, ctx)"
    by (rule msg_encrypt_encode_result [OF ex_evp_ok ex_malloc s, of "ex_sealed 1"]) (use room in auto)
  from encoded_wire [OF ex_evp_ok ex_malloc e] obtain c x ek iv where
    w: "cstr dest = Some (wire (c @ [x]) ek iv)" "length iv = 16" "length c = seal_len m" "length ek \<le> 512"
    by (auto simp: EVP_MAX_IV_LENGTH_def ex_evp_def)
  from encoded_fits [OF w(3,4,2), of x] wire_size_4096 [OF assms] have "length (wire (c @ [x]) ek iv) < MESSAGE_LENGTH"
    by linarith
  from that [OF e w(1) this] show ?thesis .
qed

lemma ex_bob_key:
  "key_get_by_name (ce_key_hash ex_cenv) (cs_mem (ex_client_at ps)) (cs_keys (ex_client_at ps)) ''bob'' = Some ()"
  by (simp add: key_get_by_name_def ex_cenv_def ex_client_at_def assoc_ghash_def)

lemma ex_sent:
  assumes "peers_ok ps as"
  shows "\<exists>s'. input_send_msg ex_cenv 3 (ex_client_at ps) (''bob'' @ CHR '':'' # ''hi'') = Some (0, s')"
proof -
  obtain dest ctx enc where e: "msg_encrypt_encode ex_evp ex_malloc (ex_sealed 1) ''hi'' ex_ctx () = Some (Some dest, ctx)"
    "cstr dest = Some enc" "length enc < MESSAGE_LENGTH" by (rule ex_encoded [of "''hi''"]) simp_all
  have mem: "\<forall>n. n \<le> length (ce_malloc ex_cenv n)" using ex_malloc by (simp add: ex_cenv_def)
  from pad_message_result [OF cstr_no_NUL [OF e(2)] e(3) mem] obtain b where
    "pad_message ex_cenv enc = Some b" "cstr b = Some (padded ex_cenv enc)"
    by (auto simp: ex_cenv_def length_ex_malloc)
  with input_send_run [OF _ ex_bob_key [of ps], where msg = "''hi''" and a = 3] e assms show ?thesis by simp
qed

text \<open>Every short message has a text form that the example client can read.\<close>

lemma ex_message:
  assumes "length m \<le> 462" and "NUL \<notin> set m"
  shows "\<exists>d. well_formed d \<and> readable ex_cenv d \<and> NUL \<notin> set d \<and> length d \<le> BUFFER_SIZE \<and>
    map_option (map_option cstr \<circ> fst) (msg_decode_decrypt ex_evp ex_malloc (ex_sealed 1) d ex_ctx ()) = Some (Some (Some m))"
proof -
  obtain dest ctx enc where e: "msg_encrypt_encode ex_evp ex_malloc (ex_sealed 1) m ex_ctx () = Some (Some dest, ctx)"
    "cstr dest = Some enc" "length enc < MESSAGE_LENGTH" by (rule ex_encoded [OF assms(1)])
  from encoded_wire [OF ex_evp_ok ex_malloc e(1)] e(2) obtain c x ek iv where
    w: "enc = wire (c @ [x]) ek iv" "ek \<noteq> []" "length iv = EVP_MAX_IV_LENGTH" "length m < length c"
      "opens ex_evp () ek iv c (m @ [NUL])" by auto
  have "\<exists>b ctx'. msg_decode_decrypt ex_evp ex_malloc (ex_sealed 1) enc ctx () = Some (Some b, ctx') \<and> cstr b = Some m"
    for ctx :: "bytes rsa_ctx"
    using decrypt_wire [OF w(5,2-4) ex_malloc assms(2), where t = "[]" and x = x and res = "ex_sealed 1" and ctx = ctx]
    by (simp add: w(1) wire_tail_def)
  then have dec: "\<forall>ctx. \<exists>b ctx'. msg_decode_decrypt ex_evp ex_malloc (ex_sealed 1) enc ctx () = Some (Some b, ctx') \<and>
      cstr b = Some m" by blast
  then have "readable ex_cenv enc" unfolding readable_def ex_cenv_simps by fastforce
  moreover from dec have "map_option (map_option cstr \<circ> fst) (msg_decode_decrypt ex_evp ex_malloc (ex_sealed 1) enc ex_ctx ()) =
      Some (Some (Some m))" by fastforce
  moreover have "length enc \<le> BUFFER_SIZE" using e(3) by (simp add: MESSAGE_LENGTH_def BUFFER_SIZE_def)
  moreover have "well_formed enc" unfolding well_formed_def w(1) using w(2,3)
    by (intro exI [of _ "c @ [x]"] exI [of _ ek] exI [of _ iv] exI [of _ "[]"]) (simp add: wire_tail_def)
  ultimately show ?thesis using wire_no_NUL w(1) by blast
qed

section \<open>Receiving a message again\<close>

text \<open>Overwriting a buffer with the text that it has as a key.\<close>

lemma intact_same:
  assumes "intact mem es" and "\<forall>x v. (j, x, v) \<in> set es \<longrightarrow> x = d" and "text_at mem' j = Some d"
    and "\<forall>a. a \<noteq> j \<longrightarrow> mem' a = mem a"
  shows "intact mem' es"
proof -
  have "text_at mem' a = Some x" if "(a, x, v) \<in> set es" for a x v
  proof (cases "a = j")
    case False
    with assms(4) have "text_at mem' a = text_at mem a" by (simp add: text_at_def)
    with assms(1) that show ?thesis by (auto simp: intact_def)
  qed (use that assms(2,3) in auto)
  then show ?thesis by (auto simp: intact_def)
qed

lemma conn_msg_again:
  assumes G: "ghash_ok (ce_hash E) ents" and intact: "intact (cs_mem s) (ents (cs_seen s))"
    and "known (ents (cs_seen s)) d \<noteq> None" and keys: "\<forall>x v. (j, x, v) \<in> set (ents (cs_seen s)) \<longrightarrow> x = d"
    and "\<exists>b. cs_mem s j = Some b \<and> BUFFER_SIZE < length b"
    and "length d \<le> BUFFER_SIZE" and "NUL \<notin> set d" and "peers_ok (cs_peers s) as"
  shows "\<exists>b. cstr b = Some d \<and> BUFFER_SIZE < length b \<and>
    conn_msg E j s (Received d) = Some (s\<lparr>cs_mem := (cs_mem s)(j \<mapsto> b)\<rparr>)"
proof -
  have look: "g_lookup (ce_hash E) (cs_seen s) mem d \<noteq> None"
    if "\<forall>a. a \<noteq> j \<longrightarrow> mem a = cs_mem s a" "text_at mem j = Some d" for mem
    using ghash_lookup [OF G intact_same [OF intact keys that(2,1)], of d] assms(3) by simp
  from assms(5) obtain b where "cs_mem s j = Some b" "BUFFER_SIZE < length b" by blast
  from conn_msg_seen [OF this assms(6-8) look] show ?thesis by blast
qed

section \<open>Properties\<close>

text \<open>
  C30: sending typed input \<open>name:message\<close> to a name whose key is known, when the message encrypts to a
  text shorter than 1350 characters: the padded message has exactly 1350 characters and is sent to
  every open peer; its terminator does not fit into the 1350 bytes the code allocates, so with an
  allocator that returns no byte more the call writes out of bounds. Otherwise the sent text is in
  the table of seen messages, but the block of its key is freed, which the table does not allow.
\<close>

theorem input_send_outcome:
  assumes "\<forall>n. n \<le> length (ce_malloc E n)" and "CHR '':'' \<notin> set name"
    and "key_get_by_name (ce_key_hash E) (cs_mem s) (cs_keys s) name = Some pub"
    and "msg_encrypt_encode (ce_evp E) (ce_malloc E) (ce_struct E) msg (cs_ctx s) pub = Some (Some dest, ctx)"
    and "cstr dest = Some enc" and "length enc < MESSAGE_LENGTH" and "peers_ok (cs_peers s) as"
    and "ghash_ok (ce_hash E) ents" and "intact (cs_mem s) (ents (cs_seen s))" and "cs_mem s a = None"
    and "known (ents (cs_seen s)) (padded E enc) = None"
  shows "if length (ce_malloc E MESSAGE_LENGTH) = MESSAGE_LENGTH
    then input_send_msg E a s (name @ CHR '':'' # msg) = None
    else \<exists>s'. input_send_msg E a s (name @ CHR '':'' # msg) = Some (0, s') \<and> length (padded E enc) = 1350 \<and>
      ps_sent (cs_peers s') = ps_sent (cs_peers s) @ flood (cs_peers s) as (padded E enc) \<and>
      known (ents (cs_seen s')) (padded E enc) \<noteq> None \<and> \<not> intact (cs_mem s') (ents (cs_seen s'))"
proof (cases "length (ce_malloc E MESSAGE_LENGTH) = MESSAGE_LENGTH")
  case True
  with pad_message_result [OF cstr_no_NUL [OF assms(5)] assms(6,1)]
    input_send_run [OF assms(2-5,7), of a] show ?thesis by simp
next
  case False
  from pad_message_result [OF cstr_no_NUL [OF assms(5)] assms(6,1)] False obtain b where
    b: "pad_message E enc = Some b" "cstr b = Some (padded E enc)" by auto
  let ?mem = "(cs_mem s)(a \<mapsto> b)" and ?d = "padded E enc"
  have "ents (g_insert (ce_hash E) (cs_seen s) ?mem a (entry_for E ?d)) = (a, ?d, entry_for E ?d) # ents (cs_seen s)"
    using ghash_insert [OF assms(8) intact_fresh [OF assms(9,10)] _ assms(11)] b(2) by (simp add: text_at_fresh)
  then show ?thesis
    using False input_send_run [OF assms(2-5,7), of a] b length_padded [OF assms(6), of E]
      freed_not_intact [of a ?d "entry_for E ?d" _ "(cs_mem s)(a := None)"]
    by (simp add: MESSAGE_LENGTH_def text_at_def)
qed

theorem input_send_outcome_witness:
  "\<exists>ps s'. input_send_msg ex_cenv 3 (ex_client_at ps) ''bob:hi'' = Some (0, s') \<and>
     \<not> intact (cs_mem s') (cs_seen s')"
proof -
  from ex_open_peer obtain ps as where ps: "peers_ok ps as" by blast
  obtain dest ctx enc where e: "msg_encrypt_encode ex_evp ex_malloc (ex_sealed 1) ''hi'' ex_ctx () = Some (Some dest, ctx)"
    "cstr dest = Some enc" "length enc < MESSAGE_LENGTH" by (rule ex_encoded [of "''hi''"]) simp_all
  from input_send_outcome [of ex_cenv "''bob''" "ex_client_at ps", OF _ _ ex_bob_key _ e(2,3), of "''hi''" ctx as "\<lambda>t. t" 3]
    ps e(1) glib_ghash_ok ex_malloc show ?thesis
    by (auto simp: ex_cenv_def ex_client_at_def length_ex_malloc MESSAGE_LENGTH_def)
qed

text \<open>
  C3: a message is delivered: when \<open>input_send_msg\<close> returns 0 for the name of a known key and a message whose
  text form fits (\<open>wire_size\<close>: up to 462 characters with a key of 4096 bits), then what was sent to
  the open peers makes every client with the matching private key show exactly the message, if it
  receives the message whole and for the first time, into a buffer that is no key of its table of
  seen messages, and its table is in order.
\<close>

theorem message_delivered:
  assumes "\<forall>n. n \<le> length (ce_malloc E n)" and "\<forall>n. n \<le> length (ce_malloc R n)"
    and "evp_ok (ce_evp E) pub (ce_private R)" and "ce_evp R = ce_evp E"
    and "wire_size (seal_len msg) (EVP_PKEY_size (ce_evp E) pub) < MESSAGE_LENGTH" and "ghash_ok (ce_hash R) ents"
    and "CHR '':'' \<notin> set name" and "NUL \<notin> set msg"
    and "key_get_by_name (ce_key_hash E) (cs_mem s) (cs_keys s) name = Some pub"
    and "peers_ok (cs_peers s) as" and "input_send_msg E a s (name @ CHR '':'' # msg) = Some (0, s')"
  shows "\<exists>data. ps_sent (cs_peers s') = ps_sent (cs_peers s) @ flood (cs_peers s) as data \<and>
    (\<forall>r k buffer bs. cs_mem r k = Some buffer \<and> BUFFER_SIZE < length buffer \<and> peers_ok (cs_peers r) bs \<and>
      intact (cs_mem r) (ents (cs_seen r)) \<and> k \<notin> fst ` set (ents (cs_seen r)) \<and> known (ents (cs_seen r)) data = None \<longrightarrow>
      (\<exists>r'. conn_msg R k r (Received data) = Some r' \<and> cs_shown r' = cs_shown r @ [msg]))"
proof -
  have own: "owns_key E pub R" using assms(2-4) by (simp add: owns_key_def)
  from sent_message [OF assms(1,5,7-11,3)] own obtain data where
    sent: "ps_sent (cs_peers s') = ps_sent (cs_peers s) @ flood (cs_peers s) as data"
    and "well_formed data" and len: "length data \<le> BUFFER_SIZE" and reads: "reads_as R data [msg]" by blast
  note data = well_formed_no_NUL [OF this(2)] len
  have "\<exists>r'. conn_msg R k r (Received data) = Some r' \<and> cs_shown r' = cs_shown r @ [msg]"
    if r: "cs_mem r k = Some buffer" "BUFFER_SIZE < length buffer" "peers_ok (cs_peers r) bs"
      "intact (cs_mem r) (ents (cs_seen r))" "k \<notin> fst ` set (ents (cs_seen r))" "known (ents (cs_seen r)) data = None"
    for r k buffer bs
  proof -
    have "g_lookup (ce_hash R) (cs_seen r) mem data = None" if "\<forall>a. a \<noteq> k \<longrightarrow> mem a = cs_mem r a" for mem
      unfolding ghash_lookup [OF assms(6) intact_but [OF r(4) that r(5)]] by (rule r(6))
    from conn_msg_fresh [OF r(1,2) data(2,1) r(3) this] obtain b where
      b: "text_at (cs_mem (relayed R k b data bs r)) k = Some data"
      and run: "conn_msg R k r (Received data) = client_read_msg R k (relayed R k b data bs r)" by blast
    from read_as [OF reads b] run show ?thesis by (auto simp: relayed_def)
  qed
  with sent show ?thesis by blast
qed

theorem message_delivered_witness:
  "\<exists>ps s' data r'. input_send_msg ex_cenv 3 (ex_client_at ps) (''bob'' @ CHR '':'' # ''hi'') = Some (0, s') \<and>
     (7, data) \<in> set (ps_sent (cs_peers s')) \<and>
     conn_msg ex_cenv 1 (ex_client_at ps) (Received data) = Some r' \<and> cs_shown r' = [''hi'']"
proof -
  from ex_open_peer obtain ps as where ps: "peers_ok ps as" "flood ps as = (\<lambda>d. [(7, d)])" by blast
  from ex_sent [OF ps(1)] obtain s' where
    s': "input_send_msg ex_cenv 3 (ex_client_at ps) (''bob'' @ CHR '':'' # ''hi'') = Some (0, s')" ..
  have size: "wire_size (seal_len ''hi'') (EVP_PKEY_size (ce_evp ex_cenv) ()) < MESSAGE_LENGTH"
    using wire_size_4096 [of "''hi''"] by (simp add: ex_evp_def)
  have "CHR '':'' \<notin> set ''bob''" "NUL \<notin> set ''hi''" "peers_ok (cs_peers (ex_client_at ps)) as"
    "\<forall>n. n \<le> length (ce_malloc ex_cenv n)" "evp_ok (ce_evp ex_cenv) () (ce_private ex_cenv)"
    "ghash_ok (ce_hash ex_cenv) (\<lambda>t. t)"
    using ps(1) ex_malloc ex_evp_ok glib_ghash_ok by (simp_all add: ex_client_at_def)
  from message_delivered [OF this(4,4,5) refl size this(6,1,2) ex_bob_key this(3) s'] obtain data where
    "ps_sent (cs_peers s') = ps_sent (cs_peers (ex_client_at ps)) @ flood (cs_peers (ex_client_at ps)) as data"
    and get: "\<And>r k buffer bs. cs_mem r k = Some buffer \<Longrightarrow> BUFFER_SIZE < length buffer \<Longrightarrow> peers_ok (cs_peers r) bs \<Longrightarrow>
      intact (cs_mem r) (cs_seen r) \<Longrightarrow> k \<notin> fst ` set (cs_seen r) \<Longrightarrow> known (cs_seen r) data = None \<Longrightarrow>
      \<exists>r'. conn_msg ex_cenv k r (Received data) = Some r' \<and> cs_shown r' = cs_shown r @ [''hi'']" by blast
  moreover from get [of "ex_client_at ps" 1 "ex_malloc 1485" as] ps(1) have
    r': "\<exists>r'. conn_msg ex_cenv 1 (ex_client_at ps) (Received data) = Some r' \<and> cs_shown r' = [''hi'']"
    by (simp add: length_ex_malloc BUFFER_SIZE_def)
  ultimately have "(7, data) \<in> set (ps_sent (cs_peers s'))" using ps(2) by simp
  with s' show ?thesis using r' by blast
qed

text \<open>
  Flooding: a message that the client has not seen, received on a connection whose buffer holds
  no key of the table, is sent once to every open peer; when it then arrives again, on the same
  connection or on another one whose buffer holds no key, it is neither sent nor shown again.
\<close>

lemma relayed_once:
  assumes "ghash_ok (ce_hash E) ents" and "intact (cs_mem s) (ents (cs_seen s))" and "k \<notin> fst ` set (ents (cs_seen s))"
    and "cs_mem s k = Some buffer" and "BUFFER_SIZE < length buffer" and "peers_ok (cs_peers s) as"
    and "NUL \<notin> set d" and "length d \<le> BUFFER_SIZE" and "known (ents (cs_seen s)) d = None" and "readable E d"
  shows "\<exists>s'. conn_msg E k s (Received d) = Some s' \<and>
    ps_sent (cs_peers s') = ps_sent (cs_peers s) @ flood (cs_peers s) as d \<and>
    (\<forall>j b. j = k \<or> j \<notin> fst ` set (ents (cs_seen s)) \<and> cs_mem s j = Some b \<and> BUFFER_SIZE < length b \<longrightarrow>
      (\<exists>mem. conn_msg E j s' (Received d) = Some (s'\<lparr>cs_mem := mem\<rparr>)))"
proof -
  have look: "g_lookup (ce_hash E) (cs_seen s) mem d = None" if "\<forall>a. a \<noteq> k \<longrightarrow> mem a = cs_mem s a" for mem
    unfolding ghash_lookup [OF assms(1) intact_but [OF assms(2) that assms(3)]] by (rule assms(9))
  from conn_msg_new [OF assms(4,5,8,7,6,10) look] obtain b ctx sh where b: "cstr b = Some d" "BUFFER_SIZE < length b"
    and run: "conn_msg E k s (Received d) = Some (s\<lparr>cs_mem := (cs_mem s)(k \<mapsto> b),
      cs_seen := g_insert (ce_hash E) (cs_seen s) ((cs_mem s)(k \<mapsto> b)) k (entry_for E d),
      cs_peers := (cs_peers s)\<lparr>ps_sent := ps_sent (cs_peers s) @ flood (cs_peers s) as d\<rparr>,
      cs_ctx := ctx, cs_shown := sh\<rparr>)" (is "_ = Some ?s'") by blast
  define s' where "s' = ?s'"
  have mem: "cs_mem s' = (cs_mem s)(k \<mapsto> b)" and ok: "peers_ok (cs_peers s') as"
    and sent: "ps_sent (cs_peers s') = ps_sent (cs_peers s) @ flood (cs_peers s) as d"
    and run: "conn_msg E k s (Received d) = Some s'" using assms(6) run by (simp_all add: s'_def)
  note fresh = intact_other [OF assms(2,3), of "Some b"]
  have t: "text_at ((cs_mem s)(k \<mapsto> b)) k = Some d" by (simp add: text_at_fresh b)
  have ents: "ents (cs_seen s') = (k, d, entry_for E d) # ents (cs_seen s)"
    using ghash_insert [OF assms(1) fresh t assms(9), of "entry_for E d"] by (simp add: s'_def)
  have "intact (cs_mem s') (ents (cs_seen s'))" "known (ents (cs_seen s')) d \<noteq> None"
    unfolding ents mem using fresh t by simp_all
  note again = conn_msg_again [OF assms(1) this(1,2) _ _ assms(8,7) ok]
  have "\<exists>mem. conn_msg E j s' (Received d) = Some (s'\<lparr>cs_mem := mem\<rparr>)"
    if j: "j = k \<or> j \<notin> fst ` set (ents (cs_seen s)) \<and> cs_mem s j = Some b' \<and> BUFFER_SIZE < length b'" for j b'
  proof -
    have "\<forall>x v. (j, x, v) \<in> set (ents (cs_seen s')) \<longrightarrow> x = d" unfolding ents using j assms(3) by force
    moreover have "\<exists>b. cs_mem s' j = Some b \<and> BUFFER_SIZE < length b" unfolding mem using j b(2) by auto
    ultimately show ?thesis using again by blast
  qed
  with run sent show ?thesis by blast
qed

text \<open>A new message on a table that compares keys as GLib does, by the current text of the pointers.\<close>

definition glib_find :: "message_hash entries \<Rightarrow> heap \<Rightarrow> string \<Rightarrow> (nat \<times> string \<times> message_hash) option" where
  "glib_find es mem d = find (\<lambda>(k, s', v). s' = d \<and> text_at mem k = Some d) es"

lemma conn_msg_glib:
  assumes G: "ce_hash E = glib_ghash" and "cs_mem s k = Some b" and "BUFFER_SIZE < length b"
    and "length d \<le> BUFFER_SIZE" and "NUL \<notin> set d" and "peers_ok (cs_peers s) as" and "readable E d"
    and new: "\<And>mem. \<forall>a. a \<noteq> k \<longrightarrow> mem a = cs_mem s a \<Longrightarrow> glib_find (cs_seen s) mem d = None"
  shows "\<exists>x s'. cstr x = Some d \<and> BUFFER_SIZE < length x \<and> conn_msg E k s (Received d) = Some s' \<and>
    cs_mem s' = (cs_mem s)(k \<mapsto> x) \<and> cs_seen s' = (k, d, entry_for E d) # cs_seen s \<and>
    cs_peers s' = (cs_peers s)\<lparr>ps_sent := ps_sent (cs_peers s) @ flood (cs_peers s) as d\<rparr>"
proof -
  have "g_lookup (ce_hash E) (cs_seen s) mem d = None" if "\<forall>a. a \<noteq> k \<longrightarrow> mem a = cs_mem s a" for mem
    using new [OF that] by (simp add: G glib_ghash_def glib_find_def)
  from conn_msg_new [OF assms(2-7) this] obtain x ctx sh where x: "cstr x = Some d" "BUFFER_SIZE < length x"
    and run: "conn_msg E k s (Received d) = Some (s\<lparr>cs_mem := (cs_mem s)(k \<mapsto> x),
      cs_seen := g_insert (ce_hash E) (cs_seen s) ((cs_mem s)(k \<mapsto> x)) k (entry_for E d),
      cs_peers := (cs_peers s)\<lparr>ps_sent := ps_sent (cs_peers s) @ flood (cs_peers s) as d\<rparr>,
      cs_ctx := ctx, cs_shown := sh\<rparr>)" by blast
  have "g_insert (ce_hash E) (cs_seen s) ((cs_mem s)(k \<mapsto> x)) k (entry_for E d) = (k, d, entry_for E d) # cs_seen s"
    using x(1) by (simp add: G glib_ghash_def text_at_fresh)
  with x run show ?thesis by (intro exI [of _ x]) simp
qed

text \<open>
  C18: but the table keeps a pointer into the receive buffer, so the next message on the same
  connection overwrites the key of the previous one. The table is then used outside its contract,
  and with a table that compares keys as GLib does the first message is forgotten: when it arrives
  again, from another client, it is sent to all peers a second time.
\<close>

theorem overwritten_key_forgotten:
  assumes "ce_hash E = glib_ghash" and "intact (cs_mem s) (cs_seen s)" and "k \<notin> fst ` set (cs_seen s)" and "j \<noteq> k"
    and "j \<notin> fst ` set (cs_seen s)" and "cs_mem s k = Some b1" and "cs_mem s j = Some b2"
    and "BUFFER_SIZE < length b1" and "BUFFER_SIZE < length b2" and "peers_ok (cs_peers s) as"
    and "NUL \<notin> set d1" and "length d1 \<le> BUFFER_SIZE" and "known (cs_seen s) d1 = None" and "readable E d1"
    and "NUL \<notin> set d2" and "length d2 \<le> BUFFER_SIZE" and "known (cs_seen s) d2 = None" and "readable E d2"
    and "d1 \<noteq> d2"
  shows "\<exists>s1 s2 s3. conn_msg E k s (Received d1) = Some s1 \<and> intact (cs_mem s1) (cs_seen s1) \<and>
    conn_msg E k s1 (Received d2) = Some s2 \<and> \<not> intact (cs_mem s2) (cs_seen s2) \<and>
    conn_msg E j s2 (Received d1) = Some s3 \<and> ps_sent (cs_peers s3) = ps_sent (cs_peers s) @
      flood (cs_peers s) as d1 @ flood (cs_peers s) as d2 @ flood (cs_peers s) as d1"
proof -
  let ?es = "cs_seen s"
  have old: "glib_find ?es mem d = None" if "known ?es d = None" for d mem
    using that by (force simp: glib_find_def find_None_iff known_None)
  have n1: "glib_find ?es mem d1 = None" for mem by (rule old [OF assms(13)])
  from conn_msg_glib [OF assms(1,6,8,12,11,10,14) n1] obtain x1 s1 where x1: "cstr x1 = Some d1" "BUFFER_SIZE < length x1"
    and s1: "conn_msg E k s (Received d1) = Some s1" "cs_mem s1 = (cs_mem s)(k \<mapsto> x1)"
      "cs_seen s1 = (k, d1, entry_for E d1) # ?es"
      "cs_peers s1 = (cs_peers s)\<lparr>ps_sent := ps_sent (cs_peers s) @ flood (cs_peers s) as d1\<rparr>" by blast
  have ok1: "intact (cs_mem s1) (cs_seen s1)"
    using intact_other [OF assms(2,3)] x1(1) by (simp add: s1 text_at_fresh)
  have m1: "cs_mem s1 k = Some x1" and p1: "peers_ok (cs_peers s1) as" using assms(10) by (simp_all add: s1)
  have n2: "glib_find (cs_seen s1) mem d2 = None" for mem
    using assms(19) old [OF assms(17)] by (simp add: s1 glib_find_def)
  from conn_msg_glib [OF assms(1) m1 x1(2) assms(16,15) p1 assms(18) n2] obtain x2 s2 where x2: "cstr x2 = Some d2"
    and s2: "conn_msg E k s1 (Received d2) = Some s2" "cs_mem s2 = (cs_mem s)(k \<mapsto> x2)"
      "cs_seen s2 = (k, d2, entry_for E d2) # (k, d1, entry_for E d1) # ?es"
      "cs_peers s2 = (cs_peers s)\<lparr>ps_sent := ps_sent (cs_peers s) @ flood (cs_peers s) as d1 @ flood (cs_peers s) as d2\<rparr>"
    by (auto simp: s1)
  have broken: "\<not> intact (cs_mem s2) (cs_seen s2)" using x2 assms(19) by (simp add: s2 text_at_fresh)
  have n3: "glib_find (cs_seen s2) mem d1 = None" if m: "\<forall>a. a \<noteq> j \<longrightarrow> mem a = cs_mem s2 a" for mem
  proof -
    have "mem k = Some x2" using m assms(4) by (simp add: s2)
    then have "text_at mem k = Some d2" using x2 by (simp add: text_at_def)
    then show ?thesis using assms(19) old [OF assms(13)] by (simp add: glib_find_def s2)
  qed
  have m2: "cs_mem s2 j = Some b2" and p2: "peers_ok (cs_peers s2) as" using assms(4,7,10) by (simp_all add: s2)
  from conn_msg_glib [OF assms(1) m2 assms(9,12,11) p2 assms(14) n3] obtain s3 where
    "conn_msg E j s2 (Received d1) = Some s3" "ps_sent (cs_peers s3) = ps_sent (cs_peers s) @
      flood (cs_peers s) as d1 @ flood (cs_peers s) as d2 @ flood (cs_peers s) as d1" by (auto simp: s2)
  with s1(1) ok1 s2(1) broken show ?thesis by blast
qed

theorem overwritten_key_forgotten_witness:
  "\<exists>ps d1 d2 s1 s2 s3. conn_msg ex_cenv 1 (ex_client_at ps) (Received d1) = Some s1 \<and>
     conn_msg ex_cenv 1 s1 (Received d2) = Some s2 \<and> conn_msg ex_cenv 2 s2 (Received d1) = Some s3 \<and>
     ps_sent (cs_peers s3) = ps_sent ps @ [(7, d1), (7, d2), (7, d1)]"
proof -
  from ex_open_peer obtain ps as where ps: "peers_ok ps as" "flood ps as = (\<lambda>d. [(7, d)])" by blast
  from ex_message [of "''hi''"] obtain d1 where d1: "readable ex_cenv d1" "NUL \<notin> set d1" "length d1 \<le> BUFFER_SIZE"
    "map_option (map_option cstr \<circ> fst) (msg_decode_decrypt ex_evp ex_malloc (ex_sealed 1) d1 ex_ctx ()) =
      Some (Some (Some ''hi''))" by auto
  from ex_message [of "''ho''"] obtain d2 where d2: "readable ex_cenv d2" "NUL \<notin> set d2" "length d2 \<le> BUFFER_SIZE"
    "map_option (map_option cstr \<circ> fst) (msg_decode_decrypt ex_evp ex_malloc (ex_sealed 1) d2 ex_ctx ()) =
      Some (Some (Some ''ho''))" by auto
  have "d1 \<noteq> d2" using d1(4) d2(4) by auto
  from overwritten_key_forgotten [of ex_cenv "ex_client_at ps" 1 2 "ex_malloc 1485" "ex_malloc 1485" as d1 d2]
    this d1 d2 ps obtain s1 s2 s3 where
    "conn_msg ex_cenv 1 (ex_client_at ps) (Received d1) = Some s1" "conn_msg ex_cenv 1 s1 (Received d2) = Some s2"
    "conn_msg ex_cenv 2 s2 (Received d1) = Some s3"
    "ps_sent (cs_peers s3) = ps_sent ps @ [(7, d1), (7, d2), (7, d1)]"
    by (auto simp: length_ex_malloc BUFFER_SIZE_def)
  then show ?thesis by blast
qed

text \<open>
  C19: a message of fewer than three words crashes every client that receives it, but only after it
  has been relayed: while the table is in order, an unseen one is first sent to all open peers, and
  then the decoder dereferences NULL.
\<close>

theorem short_message_relayed_then_crash:
  assumes "ghash_ok (ce_hash E) ents" and "intact (cs_mem s) (ents (cs_seen s))" and "k \<notin> fst ` set (ents (cs_seen s))"
    and "cs_mem s k = Some buffer" and "BUFFER_SIZE < length buffer" and "peers_ok (cs_peers s) as"
    and "NUL \<notin> set d" and "length d \<le> BUFFER_SIZE" and "known (ents (cs_seen s)) d = None"
    and "length (tokens (CHR '' '') d) < 3" and "\<forall>n. n \<le> length (ce_malloc E n)"
  shows "\<exists>b s'. recv_into buffer (Received d) = Some (length d, b) \<and>
    client_relay_msg E k (length d) (s\<lparr>cs_mem := (cs_mem s)(k \<mapsto> b)\<rparr>) = Some (True, s') \<and>
    ps_sent (cs_peers s') = ps_sent (cs_peers s) @ flood (cs_peers s) as d \<and>
    client_read_msg E k s' = None \<and> conn_msg E k s (Received d) = None"
proof -
  from recv_into_result [OF assms(8,5,7)] obtain b where
    b: "recv_into buffer (Received d) = Some (length d, b)" "cstr b = Some d" "take (length d) b = d"
      "BUFFER_SIZE < length b" by blast
  let ?mem = "(cs_mem s)(k \<mapsto> b)"
  have t: "text_at ?mem k = Some d" by (simp add: text_at_fresh b)
  have "g_lookup (ce_hash E) (cs_seen s) ?mem d = None"
    unfolding ghash_lookup [OF assms(1) intact_other [OF assms(2,3)]] by (rule assms(9))
  moreover have "read_bytes b (int (length d)) = Some d" using b(3,4) assms(8) by (simp add: read_bytes_def)
  ultimately obtain s' where relay: "client_relay_msg E k (length d) (s\<lparr>cs_mem := ?mem\<rparr>) = Some (True, s')"
    "ps_sent (cs_peers s') = ps_sent (cs_peers s) @ flood (cs_peers s) as d" "cs_mem s' = ?mem"
    using t client_send_to_all_peers_result [OF assms(6)]
    by (simp add: client_relay_msg_def client_has_seen_msg_def client_hash_add_msg_def)
  have "length d + 2 \<le> length (ce_malloc E (length d + 2))" using assms(11) by blast
  with strncpy_fits [OF assms(7), of "length d + 2" "ce_malloc E (length d + 2)"] obtain c where
    "strncpy (ce_malloc E (length d + 2)) d (length d + 2) = Some c" "cstr c = Some d" by auto
  moreover have "parse_str_encrypted_msg (ce_malloc E) d (ce_struct E) = None"
    using parse_str_total [OF assms(11,7), of "ce_struct E"] assms(10) by simp
  ultimately have "client_read_msg E k s' = None" using t relay(3) by (simp add: client_read_msg_def msg_decode_decrypt_def)
  with relay b(1) assms(4) show ?thesis by (auto simp: conn_msg_def client_parse_msg_def)
qed

theorem short_message_relayed_then_crash_witness:
  "\<exists>ps. conn_msg ex_cenv 1 (ex_client_at ps) (Received ''hello'') = None"
proof -
  from ex_open_peer obtain ps as where ps: "peers_ok ps as" by blast
  have "ghash_ok (ce_hash ex_cenv) (\<lambda>t. t)" using glib_ghash_ok by simp
  moreover have "length (tokens (CHR '' '') ''hello'') < 3" by (simp add: tokens.simps strtok_def)
  moreover have "\<forall>n. n \<le> length (ce_malloc ex_cenv n)" using ex_malloc by simp
  ultimately show ?thesis
    using short_message_relayed_then_crash [of ex_cenv "\<lambda>t. t" "ex_client_at ps" 1 "ex_malloc 1485" as "''hello''"] ps
    by (force simp: length_ex_malloc BUFFER_SIZE_def)
qed

end
