(* ===== verification/ClientLoop.thy ===== *)
theory ClientLoop
  imports Delivery Machine
begin

text \<open>
  The threads of the client as a step relation: \<open>listen_for_clients\<close>, one \<open>client_handle\<close> per
  connection, \<open>name_server_handle\<close> and \<open>input_handle\<close> of \<open>ac-client-server/client_server.c\<close>.

  A step is the reaction to one event; the threads run in any order. \<open>cw_buf\<close> gives the receive
  buffer of each running \<open>client_handle\<close>. The time and the random numbers may differ in each step.
  Interleavings inside a reaction (the relay of a message between two others, say) are not modelled.
\<close>

section \<open>The threads\<close>

record ('t, 'kt, 'c) cworld =
  cw_client :: "('t, 'kt, 'c) client"
  cw_buf :: "nat \<rightharpoonup> nat"

definition at_time :: "('t, 'kt, 'c, 'pub, 'priv) cenv \<Rightarrow> int \<Rightarrow> (nat \<Rightarrow> nat) \<Rightarrow> ('t, 'kt, 'c, 'pub, 'priv) cenv" where
  "at_time E now rnd = E\<lparr>ce_time := now, ce_rand := rnd\<rparr>"

definition with_client ::
  "('t, 'kt, 'c) cworld \<Rightarrow> (nat \<rightharpoonup> nat) \<Rightarrow> ('t, 'kt, 'c) client option \<Rightarrow> ('t, 'kt, 'c) cworld option" where
  "with_client w bufs = map_option (\<lambda>s. w\<lparr>cw_client := s, cw_buf := bufs\<rparr>)"

text \<open>What \<open>recv\<close> may give: an error, or some bytes that fit.\<close>

definition recv_ok :: "received \<Rightarrow> bool" where
  "recv_ok r \<longleftrightarrow> (case r of Failed \<Rightarrow> True | Received d \<Rightarrow> d \<noteq> [] \<and> length d \<le> BUFFER_SIZE)"

inductive client_step ::
  "('t, 'kt, 'c, 'pub, 'priv) cenv \<Rightarrow> ('t, 'kt, 'c) cworld \<Rightarrow> ('t, 'kt, 'c) cworld option \<Rightarrow> bool" for E where
  accept: "cs_conns (cw_client w) c = None \<Longrightarrow>
    client_step E w (with_client w (cw_buf w) (accept_conn (cw_client w) c fd blk))"
| start: "cs_conns (cw_client w) c = Some cn \<Longrightarrow> conn_open cn \<noteq> 0 \<Longrightarrow> cw_buf w c = None \<Longrightarrow>
    cs_mem (cw_client w) k = None \<Longrightarrow>
    client_step E w (with_client w ((cw_buf w)(c \<mapsto> k)) (Some (conn_start E k (cw_client w))))"
| receive: "cw_buf w c = Some k \<Longrightarrow> recv_ok r \<Longrightarrow>
    client_step E w (with_client w (cw_buf w) (conn_msg (at_time E now rnd) k (cw_client w) r))"
| finish: "cw_buf w c = Some k \<Longrightarrow>
    client_step E w (with_client w ((cw_buf w)(c := None)) (conn_end k c (cw_client w)))"
| server: "BUFFER_SIZE < length buffer \<Longrightarrow> recv_ok r \<Longrightarrow>
    client_step E w (with_client w (cw_buf w) (map_option snd (name_server_msg E buffer (cw_client w) r)))"
| input: "cs_mem (cw_client w) a = None \<Longrightarrow>
    client_step E w (with_client w (cw_buf w) (input_line (at_time E now rnd) a (cw_client w) line))"

inductive_cases client_stepE: "client_step E w w'"

text \<open>The client after \<open>main\<close> has set it up: keys \<open>kt\<close> in memory \<open>mem\<close>, no peers, nothing seen.\<close>

definition init_client ::
  "('t, 'kt, 'c, 'pub, 'priv) cenv \<Rightarrow> (nat \<Rightarrow> nat list_elm) \<Rightarrow> (nat \<Rightarrow> nat list_elm) \<Rightarrow> heap \<Rightarrow> 'kt \<Rightarrow> 'c rsa_ctx \<Rightarrow>
     ('t, 'kt, 'c) cworld" where
  "init_client E m1 m2 mem kt ctx = \<lparr>cw_client = \<lparr>cs_mem = mem, cs_seen = client_create_hash_table (ce_hash E),
     cs_keys = kt, cs_peers = \<lparr>ps_peers = Map.empty, ps_list = list_create m1, ps_next = 0, ps_id = 0,
       ps_sent = [], ps_closed = []\<rparr>,
     cs_ctx = ctx, cs_conns = Map.empty, cs_list = list_create m2, cs_conn_id = 0, cs_shown = []\<rparr>,
     cw_buf = Map.empty\<rparr>"

abbreviation client_reachable ::
  "('t, 'kt, 'c, 'pub, 'priv) cenv \<Rightarrow> ('t, 'kt, 'c) cworld \<Rightarrow> ('t, 'kt, 'c) cworld \<Rightarrow> bool" where
  "client_reachable E \<equiv> reach (client_step E)"

lemmas client_reach = reach.step [where stp = "client_step E" for E]

section \<open>The invariant\<close>

definition buffers_ok :: "(nat \<rightharpoonup> nat) \<Rightarrow> ('t, 'kt, 'c) client \<Rightarrow> bool" where
  "buffers_ok bufs s \<longleftrightarrow> (\<forall>c k. bufs c = Some k \<longrightarrow> cs_conns s c \<noteq> None \<and>
     (\<exists>b. cs_mem s k = Some b \<and> BUFFER_SIZE < length b) \<and> (\<forall>c'. bufs c' = Some k \<longrightarrow> c' = c))"

definition client_inv :: "('t, 'kt, 'c) cworld \<Rightarrow> bool" where
  "client_inv w \<longleftrightarrow> peers_inv (cs_peers (cw_client w)) \<and> lrep (cs_list (cw_client w)) [] \<and>
     buffers_ok (cw_buf w) (cw_client w)"

lemma send_to_all_inv:
  assumes "client_send_to_all_peers P data s = Some s'" and "peers_inv s"
  shows "peers_inv s'"
proof -
  from assms(2) obtain as where "peers_ok s as" by (auto simp: peers_inv_def)
  from client_send_to_all_peers_result [OF this, of P data] assms show ?thesis by auto
qed

lemma recv_into_length: "recv_into buffer r = Some (n, b) \<Longrightarrow> length b = length buffer"
  by (auto simp: recv_into_def write_at_def put_byte_def Let_def bind_eq_Some_conv split: received.splits if_splits)

text \<open>A received message changes the buffer, the tables, the peers' log, and the output.\<close>

lemma relay_keeps:
  assumes "client_relay_msg E k len s = Some (fresh, s')" and "peers_inv (cs_peers s)"
  shows "peers_inv (cs_peers s') \<and> s' = s\<lparr>cs_seen := cs_seen s', cs_peers := cs_peers s'\<rparr>"
  using assms
  by (auto simp: client_relay_msg_def bind_eq_Some_conv dest: send_to_all_inv split: if_splits)

lemma read_keeps: "client_read_msg E k s = Some s' \<Longrightarrow> s' = s\<lparr>cs_ctx := cs_ctx s', cs_shown := cs_shown s'\<rparr>"
  by (auto simp: client_read_msg_def Let_def bind_eq_Some_conv split: option.splits)

lemma conn_msg_keeps:
  assumes "conn_msg E k s r = Some s'" and "cs_mem s k = Some b" and "BUFFER_SIZE < length b"
    and "peers_inv (cs_peers s)"
  shows "peers_inv (cs_peers s') \<and> cs_list s' = cs_list s \<and> cs_conns s' = cs_conns s \<and>
    (\<exists>b. cs_mem s' = (cs_mem s)(k \<mapsto> b) \<and> BUFFER_SIZE < length b)"
proof -
  from assms(1,2) obtain n b' fresh s1 where b': "recv_into b r = Some (n, b')"
    and s1: "client_relay_msg E k n (s\<lparr>cs_mem := (cs_mem s)(k \<mapsto> b')\<rparr>) = Some (fresh, s1)"
    and s': "(if fresh then client_read_msg E k s1 else Some s1) = Some s'"
    by (auto simp: conn_msg_def client_parse_msg_def bind_eq_Some_conv)
  from recv_into_length [OF b'] assms(3) have "BUFFER_SIZE < length b'" by simp
  moreover have "cs_mem s1 = (cs_mem s)(k \<mapsto> b') \<and> peers_inv (cs_peers s1) \<and> cs_list s1 = cs_list s \<and> cs_conns s1 = cs_conns s"
    using relay_keeps [OF s1] assms(4) by (cases s1) simp
  moreover have "cs_mem s' = cs_mem s1 \<and> cs_peers s' = cs_peers s1 \<and> cs_list s' = cs_list s1 \<and> cs_conns s' = cs_conns s1"
    using s' by (cases fresh) (auto dest!: read_keeps, (metis client.select_convs client.surjective client.update_convs)+)
  ultimately show ?thesis by auto
qed

lemma name_server_msg_keeps:
  assumes "name_server_msg E buffer s r = Some (b, s')" and "peers_inv (cs_peers s)"
  shows "peers_inv (cs_peers s') \<and> s' = s\<lparr>cs_peers := cs_peers s'\<rparr>"
  using assms
  by (auto simp: name_server_msg_def bind_eq_Some_conv split: if_splits
      dest: parse_peers_inv connect_to_peers_inv)

text \<open>A line of input leaves the memory as it was, except for the block that it allocates and frees.\<close>

lemma input_line_keeps:
  assumes "input_line E a s line = Some s'" and "peers_inv (cs_peers s)"
  shows "peers_inv (cs_peers s') \<and> cs_list s' = cs_list s \<and> cs_conns s' = cs_conns s \<and>
    (cs_mem s' = cs_mem s \<or> cs_mem s' = (cs_mem s)(a := None))"
  using assms
  by (auto simp: input_line_def input_send_msg_def Let_def bind_eq_Some_conv
      dest!: send_to_all_inv split: if_splits option.splits)

lemma buffersD:
  assumes "buffers_ok bufs s" and "bufs c = Some k"
  shows "cs_conns s c \<noteq> None" and "\<exists>b. cs_mem s k = Some b \<and> BUFFER_SIZE < length b"
    and "bufs c' = Some k \<Longrightarrow> c' = c"
  using assms unfolding buffers_ok_def by blast+

lemma buffers_ok_buf:
  assumes "buffers_ok bufs s" and "bufs c = Some k" and "cs_conns s' = cs_conns s"
    and "cs_mem s' = (cs_mem s)(k \<mapsto> b)" and "BUFFER_SIZE < length b"
  shows "buffers_ok bufs s'"
  using assms by (auto simp: buffers_ok_def)

lemma buffers_ok_start:
  assumes ok: "buffers_ok bufs s" and cn: "cs_conns s c = Some cn" and k: "cs_mem s k = None" and b: "BUFFER_SIZE < length b"
  shows "buffers_ok (bufs(c \<mapsto> k)) (s\<lparr>cs_mem := (cs_mem s)(k \<mapsto> b)\<rparr>)"
  unfolding buffers_ok_def
proof (intro allI impI)
  have new: "bufs c' \<noteq> Some k" for c' using buffersD(2) [OF ok] k by force
  fix c' k' assume m: "(bufs(c \<mapsto> k)) c' = Some k'"
  show "cs_conns (s\<lparr>cs_mem := (cs_mem s)(k \<mapsto> b)\<rparr>) c' \<noteq> None \<and>
    (\<exists>b'. cs_mem (s\<lparr>cs_mem := (cs_mem s)(k \<mapsto> b)\<rparr>) k' = Some b' \<and> BUFFER_SIZE < length b') \<and>
    (\<forall>c''. (bufs(c \<mapsto> k)) c'' = Some k' \<longrightarrow> c'' = c')"
  proof (cases "c' = c")
    case True
    with m cn b new show ?thesis by simp
  next
    case False
    with m have old: "bufs c' = Some k'" by simp
    with new have "k' \<noteq> k" by blast
    with buffersD [OF ok old] False show ?thesis by simp
  qed
qed

lemma conn_end_result:
  assumes "lrep (cs_list s) []" and "cs_conns s c = Some cn"
  shows "\<exists>l. lrep l [] \<and> conn_end k c s = Some (s\<lparr>cs_conns := (cs_conns s)(c \<mapsto> cn\<lparr>conn_fd := -1, conn_open := 0\<rparr>),
    cs_list := l, cs_peers := (cs_peers s)\<lparr>ps_closed := ps_closed (cs_peers s) @ [conn_fd cn]\<rparr>,
    cs_mem := (cs_mem s)(k := None)\<rparr>)"
  using lst.remove_absent [OF assms(1), of c] assms(2) by (auto simp: conn_end_def)

lemma with_client_Some:
  "Some w' = with_client w bufs r \<longleftrightarrow> (\<exists>s. r = Some s \<and> w' = w\<lparr>cw_client := s, cw_buf := bufs\<rparr>)"
  by (cases r) (auto simp: with_client_def)

lemma client_invI:
  "peers_inv (cs_peers s) \<Longrightarrow> lrep (cs_list s) [] \<Longrightarrow> buffers_ok bufs s \<Longrightarrow>
     client_inv (w\<lparr>cw_client := s, cw_buf := bufs\<rparr>)"
  by (simp add: client_inv_def)

lemma conn_start_peers: "cs_peers (conn_start E k s) = cs_peers s" "cs_list (conn_start E k s) = cs_list s"
  by (simp_all add: conn_start_def)

lemma client_invD:
  assumes "client_inv w"
  shows "peers_inv (cs_peers (cw_client w))" and "lrep (cs_list (cw_client w)) []" and "buffers_ok (cw_buf w) (cw_client w)"
  using assms by (simp_all add: client_inv_def)

lemma client_receive_inv:
  assumes w: "client_inv w" and buf: "cw_buf w c = Some k" and s: "conn_msg E k (cw_client w) r = Some s"
  shows "client_inv (w\<lparr>cw_client := s, cw_buf := cw_buf w\<rparr>)"
proof -
  note inv = client_invD [OF w]
  from buffersD(2) [OF inv(3) buf] obtain b where "cs_mem (cw_client w) k = Some b" "BUFFER_SIZE < length b" by blast
  from conn_msg_keeps [OF s this inv(1)] obtain b' where b': "peers_inv (cs_peers s)" "cs_list s = cs_list (cw_client w)"
    "cs_conns s = cs_conns (cw_client w)" "cs_mem s = (cs_mem (cw_client w))(k \<mapsto> b')" "BUFFER_SIZE < length b'" by blast
  have "buffers_ok (cw_buf w) s" by (rule buffers_ok_buf [OF inv(3) buf b'(3-5)])
  with b' inv(2) show ?thesis by (intro client_invI) simp_all
qed

lemma client_finish_inv:
  assumes w: "client_inv w" and buf: "cw_buf w c = Some k" and s: "conn_end k c (cw_client w) = Some s"
  shows "client_inv (w\<lparr>cw_client := s, cw_buf := (cw_buf w)(c := None)\<rparr>)"
proof -
  let ?s = "cw_client w"
  note inv = client_invD [OF w]
  from buffersD(1) [OF inv(3) buf] obtain cn where "cs_conns ?s c = Some cn" by blast
  from conn_end_result [OF inv(2) this, of k] s obtain l where l: "lrep l []"
    "s = ?s\<lparr>cs_conns := (cs_conns ?s)(c \<mapsto> cn\<lparr>conn_fd := -1, conn_open := 0\<rparr>), cs_list := l,
       cs_peers := (cs_peers ?s)\<lparr>ps_closed := ps_closed (cs_peers ?s) @ [conn_fd cn]\<rparr>,
       cs_mem := (cs_mem ?s)(k := None)\<rparr>" by auto
  have "buffers_ok ((cw_buf w)(c := None)) s"
    using inv(3) buf l(2) by (fastforce simp: buffers_ok_def)
  then show ?thesis using inv(1) l by (intro client_invI) simp_all
qed

lemma client_step_inv:
  assumes "client_step E w (Some w')" and "client_inv w" and "\<forall>n. n \<le> length (ce_malloc E n)"
  shows "client_inv w'"
proof -
  let ?s = "cw_client w"
  from assms(2) have inv: "peers_inv (cs_peers ?s)" "lrep (cs_list ?s) []" "buffers_ok (cw_buf w) ?s"
    by (simp_all add: client_inv_def)
  from assms(1) show ?thesis
  proof (cases rule: client_step.cases)
    case (accept c fd blk)
    then obtain s where s: "accept_conn ?s c fd blk = Some s" and w': "w' = w\<lparr>cw_client := s, cw_buf := cw_buf w\<rparr>"
      by (auto simp: with_client_Some)
    have "buffers_ok (cw_buf w) s" using inv(3) s by (auto simp: accept_conn_def buffers_ok_def split: if_splits)
    then show ?thesis unfolding w' using inv s by (intro client_invI) (auto simp: accept_conn_def split: if_splits)
  next
    case (start c cn k)
    have "BUFFER_SIZE < length (ce_malloc E (BUFFER_SIZE + 1))" using assms(3) Suc_le_lessD by (metis Suc_eq_plus1)
    with buffers_ok_start [OF inv(3)] start have "buffers_ok ((cw_buf w)(c \<mapsto> k)) (conn_start E k ?s)"
      by (simp add: conn_start_def)
    moreover have "w' = w\<lparr>cw_client := conn_start E k ?s, cw_buf := (cw_buf w)(c \<mapsto> k)\<rparr>"
      using start(1,2) by (simp add: with_client_def)
    ultimately show ?thesis using inv(1,2) by (simp add: client_inv_def conn_start_peers)
  next
    case (receive c k r now rnd)
    then obtain s where s: "conn_msg (at_time E now rnd) k ?s r = Some s"
      and w': "w' = w\<lparr>cw_client := s, cw_buf := cw_buf w\<rparr>" by (auto simp: with_client_Some)
    from client_receive_inv [OF assms(2) receive(2) s] show ?thesis unfolding w' .
  next
    case (finish c k)
    then obtain s where s: "conn_end k c ?s = Some s" and w': "w' = w\<lparr>cw_client := s, cw_buf := (cw_buf w)(c := None)\<rparr>"
      by (auto simp: with_client_Some)
    from client_finish_inv [OF assms(2) finish(2) s] show ?thesis unfolding w' .
  next
    case (server buffer r)
    then obtain b s where s: "name_server_msg E buffer ?s r = Some (b, s)"
      and w': "w' = w\<lparr>cw_client := s, cw_buf := cw_buf w\<rparr>" by (auto simp: with_client_Some)
    from name_server_msg_keeps [OF s inv(1)] have p: "peers_inv (cs_peers s)" "s = ?s\<lparr>cs_peers := cs_peers s\<rparr>" by auto
    then have "cs_list s = cs_list ?s" "cs_conns s = cs_conns ?s" "cs_mem s = cs_mem ?s" by (metis client.select_convs client.surjective client.update_convs)+
    then show ?thesis unfolding w' using inv p(1) by (intro client_invI) (simp_all add: buffers_ok_def)
  next
    case (input a now rnd line)
    then obtain s where s: "input_line (at_time E now rnd) a ?s line = Some s"
      and w': "w' = w\<lparr>cw_client := s, cw_buf := cw_buf w\<rparr>" by (auto simp: with_client_Some)
    have "(cs_mem ?s)(a := None) = cs_mem ?s" using input by auto
    with input_line_keeps [OF s inv(1)] have "peers_inv (cs_peers s)" "cs_list s = cs_list ?s"
      "cs_conns s = cs_conns ?s" "cs_mem s = cs_mem ?s" by auto
    then show ?thesis unfolding w' using inv by (intro client_invI) (simp_all add: buffers_ok_def)
  qed
qed

interpretation cl: kept "\<lambda>w (_ :: unit). client_step E w" "\<lambda>w. client_inv w \<and> (\<forall>n. n \<le> length (ce_malloc E n))" for E
  by unfold_locales (auto intro: client_step_inv)

lemma client_reachable_client_inv:
  "client_reachable E w0 w \<Longrightarrow> client_inv w0 \<Longrightarrow> \<forall>n. n \<le> length (ce_malloc E n) \<Longrightarrow> client_inv w"
  using cl.reach_keeps [of E w0 w] by simp

text \<open>The table of public keys, and the memory that it points into: no thread writes to it.\<close>

definition keys_stay :: "heap \<Rightarrow> 'kt \<Rightarrow> ('t, 'kt, 'c) cworld \<Rightarrow> bool" where
  "keys_stay mem kt w \<longleftrightarrow> cs_keys (cw_client w) = kt \<and> mem \<subseteq>\<^sub>m cs_mem (cw_client w) \<and>
     (\<forall>c k. cw_buf w c = Some k \<longrightarrow> mem k = None)"

lemma conn_msg_keys:
  assumes "conn_msg E k s r = Some s'"
  shows "cs_keys s' = cs_keys s \<and> (\<forall>a. a \<noteq> k \<longrightarrow> cs_mem s' a = cs_mem s a)"
proof -
  from assms obtain b' fresh s1 n where s1: "client_relay_msg E k n (s\<lparr>cs_mem := (cs_mem s)(k \<mapsto> b')\<rparr>) = Some (fresh, s1)"
    and s': "(if fresh then client_read_msg E k s1 else Some s1) = Some s'"
    by (auto simp: conn_msg_def client_parse_msg_def bind_eq_Some_conv)
  from s1 have "cs_keys s1 = cs_keys s \<and> cs_mem s1 = (cs_mem s)(k \<mapsto> b')"
    by (auto simp: client_relay_msg_def bind_eq_Some_conv split: if_splits)
  moreover have "cs_keys s' = cs_keys s1 \<and> cs_mem s' = cs_mem s1"
    using s' by (cases fresh) (auto simp: client_read_msg_def Let_def bind_eq_Some_conv split: option.splits)
  ultimately show ?thesis by simp
qed

lemma input_line_keys:
  assumes "input_line E a s line = Some s'"
  shows "cs_keys s' = cs_keys s \<and> (\<forall>a'. a' \<noteq> a \<longrightarrow> cs_mem s' a' = cs_mem s a')"
  using assms by (auto simp: input_line_def input_send_msg_def Let_def bind_eq_Some_conv split: if_splits option.splits)

lemma map_le_other: "mem \<subseteq>\<^sub>m m \<Longrightarrow> mem k = None \<Longrightarrow> \<forall>a. a \<noteq> k \<longrightarrow> m' a = m a \<Longrightarrow> mem \<subseteq>\<^sub>m m'"
  unfolding map_le_def by (metis domIff)

lemma map_le_None: "mem \<subseteq>\<^sub>m m \<Longrightarrow> m k = None \<Longrightarrow> mem k = None"
  by (metis domIff map_le_def)

lemma client_step_keys:
  assumes "client_step E w (Some w')" and "keys_stay mem kt w"
  shows "keys_stay mem kt w'"
proof -
  from assms(2) have k: "cs_keys (cw_client w) = kt" "mem \<subseteq>\<^sub>m cs_mem (cw_client w)"
    "\<And>c k. cw_buf w c = Some k \<Longrightarrow> mem k = None" by (auto simp: keys_stay_def)
  from assms(1) show ?thesis
  proof (cases rule: client_step.cases)
    case (accept c fd blk)
    then show ?thesis using k by (auto simp: with_client_Some keys_stay_def accept_conn_def split: if_splits)
  next
    case (start c cn a)
    note free = map_le_None [OF k(2) start(5)]
    have "mem \<subseteq>\<^sub>m cs_mem (conn_start E a (cw_client w))"
      by (rule map_le_other [OF k(2) free]) (simp add: conn_start_def)
    then show ?thesis using start(1) k free by (auto simp: with_client_Some keys_stay_def conn_start_def)
  next
    case (receive c a r now rnd)
    then obtain s where s: "conn_msg (at_time E now rnd) a (cw_client w) r = Some s"
      and w': "w' = w\<lparr>cw_client := s, cw_buf := cw_buf w\<rparr>" by (auto simp: with_client_Some)
    from conn_msg_keys [OF s] map_le_other [OF k(2,3), OF receive(2)] k show ?thesis by (simp add: w' keys_stay_def)
  next
    case (finish c a)
    then obtain s where s: "conn_end a c (cw_client w) = Some s"
      and w': "w' = w\<lparr>cw_client := s, cw_buf := (cw_buf w)(c := None)\<rparr>" by (auto simp: with_client_Some)
    from s have e: "cs_keys s = cs_keys (cw_client w)" "\<forall>a'. a' \<noteq> a \<longrightarrow> cs_mem s a' = cs_mem (cw_client w) a'"
      by (auto simp: conn_end_def bind_eq_Some_conv)
    from map_le_other [OF k(2,3) e(2), OF finish(2)] e(1) k show ?thesis by (simp add: w' keys_stay_def)
  next
    case (server buffer r)
    then obtain b s where s: "name_server_msg E buffer (cw_client w) r = Some (b, s)"
      and w': "w' = w\<lparr>cw_client := s, cw_buf := cw_buf w\<rparr>" by (auto simp: with_client_Some)
    from s have "cs_keys s = cs_keys (cw_client w)" "cs_mem s = cs_mem (cw_client w)"
      by (auto simp: name_server_msg_def bind_eq_Some_conv split: if_splits)
    with k show ?thesis by (simp add: w' keys_stay_def)
  next
    case (input a now rnd line)
    then obtain s where s: "input_line (at_time E now rnd) a (cw_client w) line = Some s"
      and w': "w' = w\<lparr>cw_client := s, cw_buf := cw_buf w\<rparr>" by (auto simp: with_client_Some)
    from input_line_keys [OF s] map_le_other [OF k(2) map_le_None [OF k(2) input(2)]] k
    show ?thesis by (simp add: w' keys_stay_def)
  qed
qed

interpretation clk: kept "\<lambda>w (_ :: unit). client_step E w" "keys_stay mem kt" for E mem kt
  by unfold_locales (rule client_step_keys)

lemma client_reachable_keys:
  "client_reachable E w0 w \<Longrightarrow> keys_stay mem kt w0 \<Longrightarrow> keys_stay mem kt w"
  using clk.reach_keeps [of E w0 w] by simp

lemma init_client_inv:
  assumes "zeroed m1" and "zeroed m2"
  shows "client_inv (init_client E m1 m2 mem kt ctx)"
proof -
  have "peers_inv (cs_peers (cw_client (init_client E m1 m2 mem kt ctx)))"
    unfolding peers_inv_def peers_ok_def init_client_def using lst.create [OF assms(1)] by (intro exI [of _ "[]"]) simp
  then show ?thesis using lst.create [OF assms(2)] by (simp add: client_inv_def init_client_def buffers_ok_def)
qed

section \<open>Properties\<close>

text \<open>
  C11: in every reachable state of the client, whatever arrives from the network or the keyboard and
  in whatever order: the peer list is well formed and its entries are exactly the live peer structs,
  each once; the list of connected clients is always empty, as nothing is ever added to it; every
  running connection has a receive buffer of its own with room for 1500 bytes and a terminator; and
  ending a connection never faults.
\<close>

theorem client_reachable_inv:
  assumes "zeroed m1" and "zeroed m2" and "\<forall>n. n \<le> length (ce_malloc E n)"
    and "client_reachable E (init_client E m1 m2 mem kt ctx) w"
  shows "(\<exists>xs. lrep (ps_list (cs_peers (cw_client w))) xs \<and> distinct (map fst xs) \<and>
      (\<forall>a. ps_peers (cs_peers (cw_client w)) a \<noteq> None \<longleftrightarrow> a \<in> set (map fst xs))) \<and>
    lrep (cs_list (cw_client w)) [] \<and>
    (\<forall>c k. cw_buf w c = Some k \<longrightarrow> (\<exists>b. cs_mem (cw_client w) k = Some b \<and> 1500 < length b) \<and>
      (\<forall>c'. cw_buf w c' = Some k \<longrightarrow> c' = c) \<and> conn_end k c (cw_client w) \<noteq> None)"
proof -
  from client_reachable_client_inv [OF assms(4) init_client_inv [OF assms(1,2)] assms(3)] have
    inv: "peers_inv (cs_peers (cw_client w))" "lrep (cs_list (cw_client w)) []" "buffers_ok (cw_buf w) (cw_client w)"
    by (simp_all add: client_inv_def)
  have "conn_end k c (cw_client w) \<noteq> None" if "cw_buf w c = Some k" for c k
  proof -
    from inv(3) that obtain cn where "cs_conns (cw_client w) c = Some cn" unfolding buffers_ok_def by blast
    from conn_end_result [OF inv(2) this, of k] show ?thesis by auto
  qed
  moreover from inv(1) have "\<exists>xs. lrep (ps_list (cs_peers (cw_client w))) xs \<and> distinct (map fst xs) \<and>
      (\<forall>a. ps_peers (cs_peers (cw_client w)) a \<noteq> None \<longleftrightarrow> a \<in> set (map fst xs))"
    unfolding peers_inv_def peers_ok_def by blast
  ultimately show ?thesis using inv(2,3) by (simp add: buffers_ok_def BUFFER_SIZE_def)
qed

theorem client_reachable_inv_witness:
  "\<exists>w. client_reachable ex_cenv (init_client ex_cenv ex_blocks ex_blocks Map.empty [] ex_ctx) w \<and>
     cw_buf w 0 = Some 5 \<and> conn_end 5 0 (cw_client w) \<noteq> None"
proof -
  let ?w0 = "init_client ex_cenv ex_blocks ex_blocks Map.empty [] ex_ctx" and ?blk = "\<lparr>conn_id = 0, conn_fd = 0, conn_open = 0\<rparr>"
  let ?s1 = "(cw_client ?w0)\<lparr>cs_conns := [0 \<mapsto> \<lparr>conn_id = 0, conn_fd = 4, conn_open = 1\<rparr>], cs_conn_id := 1\<rparr>"
  let ?w1 = "?w0\<lparr>cw_client := ?s1, cw_buf := cw_buf ?w0\<rparr>"
  let ?w2 = "?w1\<lparr>cw_client := conn_start ex_cenv 5 ?s1, cw_buf := (cw_buf ?w1)(0 \<mapsto> 5)\<rparr>"
  have "accept_conn (cw_client ?w0) 0 4 ?blk = Some ?s1" by (simp add: accept_conn_def init_client_def)
  then have 1: "with_client ?w0 (cw_buf ?w0) (accept_conn (cw_client ?w0) 0 4 ?blk) = Some ?w1"
    by (simp add: with_client_def)
  have "client_step ex_cenv ?w0 (with_client ?w0 (cw_buf ?w0) (accept_conn (cw_client ?w0) 0 4 ?blk))"
    by (rule client_step.accept) (simp add: init_client_def)
  with reach.init [of "client_step ex_cenv" ?w0] 1 have r1: "client_reachable ex_cenv ?w0 ?w1"
    by (auto intro: client_reach)
  have "client_step ex_cenv ?w1 (with_client ?w1 ((cw_buf ?w1)(0 \<mapsto> 5)) (Some (conn_start ex_cenv 5 (cw_client ?w1))))"
    by (rule client_step.start [where cn = "\<lparr>conn_id = 0, conn_fd = 4, conn_open = 1\<rparr>"]) (simp_all add: init_client_def)
  then have "client_step ex_cenv ?w1 (Some ?w2)" by (simp add: with_client_def)
  with r1 have r2: "client_reachable ex_cenv ?w0 ?w2" by (rule client_reach)
  have mem: "\<forall>n. n \<le> length (ce_malloc ex_cenv n)" using ex_malloc by simp
  have "cw_buf ?w2 0 = Some 5" by simp
  with client_reachable_inv [OF zeroed_ex_blocks zeroed_ex_blocks mem r2] r2 show ?thesis by blast
qed

end
