(* ===== verification/Protocol.thy ===== *)
theory Protocol
  imports ServerLoop ClientLoop
begin

text \<open>
  The messages between the two programs: what the client's \<open>update_port\<close> sends, the server's
  \<open>client_handle\<close> reads, and what the server's \<open>manage_graph\<close> sends, the client's
  \<open>name_server_handle\<close> reads.
\<close>

section \<open>PORTUPD\<close>

lemma update_port_msg_result:
  assumes "NUL \<notin> set port" and "length port < NI_MAXSERV" and "\<forall>n. n \<le> length (malloc n)"
  shows "\<exists>d. update_port_msg malloc port = Some d \<and> length d = 41 \<and> msg_text d = ''PORTUPD '' @ port"
proof -
  have run: "update_port_msg malloc port = do {
      msg \<leftarrow> strncpy (malloc 41) ''PORTUPD '' 41; msg \<leftarrow> strncat msg port 41; read_bytes msg 41 }"
    by (simp add: update_port_msg_def NI_MAXSERV_def)
  have blk: "41 \<le> length (malloc 41)" using assms(3) by blast
  obtain m1 where m1: "strncpy (malloc 41) ''PORTUPD '' 41 = Some m1" "cstr m1 = Some ''PORTUPD ''"
    "length m1 = length (malloc 41)" using strncpy_fits [of "''PORTUPD ''" 41 "malloc 41"] blk by auto
  obtain m2 where m2: "strncat m1 port 41 = Some m2" "cstr m2 = Some (''PORTUPD '' @ port)" "length m2 = length m1"
    using strncat_step [OF m1(2) assms(1), of 41] assms(2) m1(3) blk by (auto simp: NI_MAXSERV_def split: if_splits)
  have "length (''PORTUPD '' @ port) < 41" "41 \<le> length m2" using assms(2) m1(3) m2(3) blk by (simp_all add: NI_MAXSERV_def)
  from read_bytes_text [OF m2(2) this] m1(1) m2(1) show ?thesis
    unfolding run msg_text_def by simp
qed

section \<open>PEERS\<close>

lemma good_word_no_NUL: "good_entry ap \<Longrightarrow> NUL \<notin> set (entry_text ap)"
  by (auto simp: good_entry_def good_word_def entry_text_def)

text \<open>Networks on which every connection attempt has an outcome.\<close>

definition net_total :: "net \<Rightarrow> bool" where
  "net_total N \<longleftrightarrow> (\<forall>a p. connect_to_host N a p \<noteq> None)"

lemma name_server_msg_peers:
  assumes "peers_ok (cs_peers r) as" and "blocks_ok (ce_peers P)" and "net_total (pe_net (ce_peers P))"
    and aps: "aps \<noteq> []" "\<forall>ap \<in> set aps. good_entry ap"
    and len: "length (''PEERS '' @ join (CHR '' '') (map entry_text aps)) \<le> BUFFER_SIZE" and buf: "BUFFER_SIZE < length buffer"
  shows "\<exists>b q bs. name_server_msg P buffer r (Received (''PEERS '' @ join (CHR '' '') (map entry_text aps))) =
      Some (b, r\<lparr>cs_peers := q\<rparr>) \<and> peers_ok q bs \<and>
    map (\<lambda>a. (cstr (peer_address (peer_at q a)), cstr (peer_port (peer_at q a)))) bs =
      map (\<lambda>(a, p). (Some a, Some p)) aps \<and> (\<forall>a \<in> set bs. open_con (peer_at q a) \<noteq> 0)"
proof -
  let ?j = "join (CHR '' '') (map entry_text aps)"
  have nul: "NUL \<notin> set (''PEERS '' @ ?j)" using set_join [of "CHR '' ''" "map entry_text aps"] good_word_no_NUL aps(2) by fastforce
  from recv_into_result [OF len buf nul] obtain b where
    b: "recv_into buffer (Received (''PEERS '' @ ?j)) = Some (length (''PEERS '' @ ?j), b)" "cstr b = Some (''PEERS '' @ ?j)" by blast
  have toks: "tokens (CHR '' '') ?j = map entry_text aps" using aps(2) entry_tokens(3,4) by (intro tokens_join) auto
  have ne: "?j \<noteq> []" using toks aps(1) by auto
  from parse_peers_run [OF assms(1,2) toks aps(2) ne] obtain q0 bs where
    q0: "parse_peers (ce_peers P) (cs_peers r) ?j = Some (0, q0)" "peers_ok q0 bs"
      "map (peer_text q0) bs = map (\<lambda>(a, p). (Some a, Some p, 0)) aps" by blast
  have strings: "cstr (peer_address (peer_at q0 a)) \<noteq> None \<and> cstr (peer_port (peer_at q0 a)) \<noteq> None" if "a \<in> set bs" for a
  proof -
    have "peer_text q0 a \<in> set (map (\<lambda>(a, p). (Some a, Some p, 0)) aps)" unfolding q0(3) [symmetric] using that by simp
    then show ?thesis by (auto simp: peer_text_def)
  qed
  then have "\<forall>a \<in> set bs. dialable (ce_peers P) (peer_at q0 a)"
    using assms(3) by (auto simp: dialable_def dial_def net_total_def)
  from connect_to_peers_run [OF q0(2) this] obtain n q where
    q: "connect_to_peers (ce_peers P) q0 = Some (n, q)" "peers_ok q bs"
      "\<forall>a \<in> set bs. peer_at q a = dialled (ce_peers P) (peer_at q0 a)" by blast
  have addr: "peer_address (dialled E p) = peer_address p" "peer_port (dialled E p) = peer_port p" for E p
    by (simp_all add: dialled_def)
  have "map (\<lambda>a. (cstr (peer_address (peer_at q a)), cstr (peer_port (peer_at q a)))) bs =
      map (\<lambda>(a, p, i). (a, p)) (map (peer_text q0) bs)" using q(3) by (simp add: peer_text_def addr)
  also have "\<dots> = map (\<lambda>(a, p). (Some a, Some p)) aps" unfolding q0(3) by (simp add: case_prod_beta)
  finally have texts: "map (\<lambda>a. (cstr (peer_address (peer_at q a)), cstr (peer_port (peer_at q a)))) bs =
      map (\<lambda>(a, p). (Some a, Some p)) aps" .
  have "name_server_msg P buffer r (Received (''PEERS '' @ ?j)) = Some (b, r\<lparr>cs_peers := q\<rparr>)"
    using b q0(1) q(1) by (simp add: name_server_msg_def str_starts_with_prefix)
  moreover have "\<forall>a \<in> set bs. open_con (peer_at q a) \<noteq> 0" using q(3) by (simp add: dialled_def)
  ultimately show ?thesis using q(2) texts by blast
qed

section \<open>Properties\<close>

text \<open>
  C26: the port message between the programs: what the client's \<open>update_port\<close> sends for a one-word
  port of fewer than 32 characters, received whole, makes the server set exactly this port for the
  sending client and redistribute the peers.
\<close>

theorem portupd_protocol:
  assumes "port \<noteq> []" and "CHR '' '' \<notin> set port" and "NUL \<notin> set port" and "length port < NI_MAXSERV"
    and "\<forall>n. n \<le> length (malloc n)"
    and "srv_clients s c = Some cl" and "length (cl_port cl) = NI_MAXSERV" and "cstr (cl_address cl) \<noteq> None"
    and "length buffer = SERVER_MAX_MESSAGE + 1"
  shows "\<exists>d r field b. update_port send malloc log fd port = Some (r, log @ [(fd, d)]) \<and> cstr field = Some port \<and>
    client_msg E s c buffer (Received d) =
      finish_msg E (s\<lparr>srv_clients := (srv_clients s)(c \<mapsto> cl\<lparr>cl_port := field\<rparr>)\<rparr>) b"
proof -
  from update_port_msg_result [OF assms(3-5)] obtain d where
    d: "update_port_msg malloc port = Some d" "length d = 41" "msg_text d = ''PORTUPD '' @ port" by blast
  have "length d \<le> SERVER_MAX_MESSAGE" by (simp add: d(2) SERVER_MAX_MESSAGE_def)
  from portupd_text [OF assms(6-8,1-3,9) d(3) this, of E] assms(4) d(1) show ?thesis
    by (auto simp: update_port_def send_msg_def)
qed

theorem portupd_protocol_witness:
  "\<exists>d r field b. update_port (\<lambda>_ _. 41) (\<lambda>n. replicate n NUL) [] 5 ''6000'' = Some (r, [(5, d)]) \<and>
     cstr field = Some ''6000'' \<and> client_msg ex_env (ex_server 3) 1 (replicate 513 NUL) (Received d) =
       finish_msg ex_env (ex_server 3\<lparr>srv_clients := (srv_clients (ex_server 3))(1 \<mapsto> ex_client 1\<lparr>cl_port := field\<rparr>)\<rparr>) b"
proof -
  have "srv_clients (ex_server 3) 1 = Some (ex_client 1)" by (simp add: ex_server_def)
  moreover have "length (cl_port (ex_client 1)) = NI_MAXSERV" "cstr (cl_address (ex_client 1)) \<noteq> None"
    by (simp_all add: ex_client_def NI_MAXSERV_def cstr_def)
  ultimately show ?thesis
    using portupd_protocol [of "''6000''" "\<lambda>n. replicate n NUL" "ex_server 3" 1 "ex_client 1" "replicate 513 NUL" "\<lambda>_ _. 41" "[]" 5 ex_env]
    by (simp add: NI_MAXSERV_def SERVER_MAX_MESSAGE_def)
qed

text \<open>
  C8: the peers message between the programs: with five or more clients whose addresses and ports
  are words, when \<open>manage_graph\<close> returns, what it sent to a client, received whole, gives that client
  a peer list with the address and port of every other client exactly twice, all marked open.
\<close>

theorem peers_protocol:
  assumes "server_ok s cs" and "mem_ok E" and "5 \<le> length cs" and "manage_graph E s = Some s'"
    and "\<forall>c \<in> set cs. good_entry (name c) \<and> entry s c = entry_text (name c)" and "c \<in> set cs"
    and "peers_ok (cs_peers r) as" and "blocks_ok (ce_peers P)" and "net_total (pe_net (ce_peers P))"
    and "BUFFER_SIZE < length buffer"
  shows "\<exists>d b q bs ns. (cl_fd (the (srv_clients s c)), d) \<in> set (srv_sent s') \<and>
    name_server_msg P buffer r (Received d) = Some (b, r\<lparr>cs_peers := q\<rparr>) \<and> peers_ok q bs \<and>
    map (\<lambda>a. (cstr (peer_address (peer_at q a)), cstr (peer_port (peer_at q a)))) bs =
      map (\<lambda>k. (Some (fst (name k)), Some (snd (name k)))) ns \<and>
    mset ns = mset (remove1 c cs) + mset (remove1 c cs) \<and> (\<forall>a \<in> set bs. open_con (peer_at q a) \<noteq> 0)"
proof -
  from assms(3) have "cs \<noteq> []" by auto
  from manage_graph_lines [OF assms(1,2) this] obtain ps where
    ps: "5 \<le> length cs \<longrightarrow> (\<forall>c \<in> set cs. mset (ps c) = mset (remove1 c cs) + mset (remove1 c cs))"
    and run: "manage_graph E s = (if length cs = 1 then Some s
       else if \<forall>c \<in> set cs. line_fits E (map (entry s) (ps c))
       then Some (send_lines s cs (\<lambda>c. map (entry s) (ps c))) else None)" by metis
  from run assms(3,4) have fits: "line_fits E (map (entry s) (ps c))"
    and s': "s' = send_lines s cs (\<lambda>c. map (entry s) (ps c))" using assms(6) by (auto split: if_splits)
  have ms: "mset (ps c) = mset (remove1 c cs) + mset (remove1 c cs)" using ps assms(3,6) by blast
  from peers_size [OF assms(6) ms] have sub: "set (ps c) \<subseteq> set cs" and "length (ps c) = 2 * (length cs - 1)" by blast+
  with assms(3) have ne: "map name (ps c) \<noteq> []" by auto
  have eq: "map (entry s) (ps c) = map entry_text (map name (ps c))" using sub assms(5) by auto
  have good: "\<forall>ap \<in> set (map name (ps c)). good_entry ap" using sub assms(5) by auto
  let ?d = "''PEERS '' @ join (CHR '' '') (map entry_text (map name (ps c)))"
  have "length ?d \<le> BUFFER_SIZE"
    using fits unfolding eq by (simp add: line_fits_def SERVER_MAX_MESSAGE_def BUFFER_SIZE_def)
  from name_server_msg_peers [OF assms(7-9) ne good this assms(10)] obtain b q bs where
    "name_server_msg P buffer r (Received ?d) = Some (b, r\<lparr>cs_peers := q\<rparr>)" "peers_ok q bs"
    "map (\<lambda>a. (cstr (peer_address (peer_at q a)), cstr (peer_port (peer_at q a)))) bs =
      map (\<lambda>k. (Some (fst (name k)), Some (snd (name k)))) (ps c)" "\<forall>a \<in> set bs. open_con (peer_at q a) \<noteq> 0"
    by (auto simp: case_prod_beta comp_def)
  moreover have "(cl_fd (the (srv_clients s c)), ?d) \<in> set (srv_sent s')"
    unfolding s' send_lines_def using assms(6) by (simp add: eq [symmetric] image_iff) (metis eq map_map)
  ultimately show ?thesis using ms by blast
qed

theorem peers_protocol_witness:
  "\<exists>s' d b q bs. manage_graph ex_env (ex_server 5) = Some s' \<and> (5, d) \<in> set (srv_sent s') \<and>
     name_server_msg ex_cenv (replicate 1501 NUL) (ex_client_at ex_pstate) (Received d) =
       Some (b, (ex_client_at ex_pstate)\<lparr>cs_peers := q\<rparr>) \<and> peers_ok q bs \<and> length bs = 8"
proof -
  let ?name = "\<lambda>_ :: nat. (''255.255.255.255'', ''65535'')"
  have "\<exists>s'. manage_graph ex_env (ex_server 5) = Some s'"
    using manage_graph_small [OF ex_server_ok ex_env_ok, of 5] by (auto simp: ex_server_entry)
  then obtain s' where s': "manage_graph ex_env (ex_server 5) = Some s'" ..
  have names: "\<forall>c \<in> set [0..<5]. good_entry (?name c) \<and> entry (ex_server 5) c = entry_text (?name c)"
    by (simp add: ex_server_entry entry_text_def good_entry_def good_word_def NI_MAXHOST_def NI_MAXSERV_def)
  have net: "net_total (pe_net (ce_peers ex_cenv))"
    by (simp add: net_total_def connect_to_host_def ex_cenv_def ex_penv_def ex_hosts_def Let_def)
  have ok: "peers_ok (cs_peers (ex_client_at ex_pstate)) []" "blocks_ok (ce_peers ex_cenv)"
    using ex_pstate_ok ex_penv_ok by (simp_all add: ex_cenv_def)
  have buf: "BUFFER_SIZE < length (replicate 1501 NUL)" by (simp add: BUFFER_SIZE_def)
  have c: "2 \<in> set [0..<5 :: nat]" "5 \<le> length [0..<5 :: nat]" by simp_all
  from peers_protocol [OF ex_server_ok ex_env_ok c(2) s' names c(1) ok net buf] obtain d b q bs ns where r: "(cl_fd (the (srv_clients (ex_server 5) 2)), d) \<in> set (srv_sent s')"
    "name_server_msg ex_cenv (replicate 1501 NUL) (ex_client_at ex_pstate) (Received d) =
      Some (b, (ex_client_at ex_pstate)\<lparr>cs_peers := q\<rparr>)" "peers_ok q bs"
    "map (\<lambda>a. (cstr (peer_address (peer_at q a)), cstr (peer_port (peer_at q a)))) bs =
      map (\<lambda>k. (Some (fst (?name k)), Some (snd (?name k)))) ns"
    "mset ns = mset (remove1 2 [0..<5]) + mset (remove1 2 [0..<5])"
    by blast
  have "length bs = length ns" using arg_cong [OF r(4), of length] by simp
  also have "\<dots> = 8" using peers_size(1) [OF c(1) r(5)] by simp
  finally show ?thesis using s' r(1-3) by (auto simp: ex_server_fd)
qed

end
