(* ===== verification/RsaContext.thy ===== *)
theory RsaContext
  imports Enc KeyTable
begin

text \<open>
  What \<open>ac-lib/enc.c\<close> has besides sealing and opening (\<open>Enc\<close>) and reading key files (\<open>KeyTable\<close>): creating
  and freeing a context, generating a key pair, and printing a sealed message; and the clean-up of the
  key table (\<open>ac-client-server/key_table.c\<close>) and of the client (\<open>cleanup_crypto\<close>). No running thread calls
  them, except \<open>client_create_rsa_ctx\<close>, which \<open>init_crypto\<close> calls.
\<close>

section \<open>Contexts\<close>

text \<open>\<open>blk\<close> is what \<open>malloc\<close> returned, \<open>c0\<close> a context after \<open>EVP_CIPHER_CTX_init\<close>.\<close>

definition client_create_rsa_ctx :: "'c \<Rightarrow> 'c rsa_ctx option \<Rightarrow> 'c rsa_ctx option" where
  "client_create_rsa_ctx c0 blk =
     (case blk of
        None \<Rightarrow> None
      | Some r \<Rightarrow> Some (r\<lparr>rsa_encrypt_ctx := c0, rsa_decrypt_ctx := c0\<rparr>))"

definition client_clean_rsa_ctx :: "(nat \<rightharpoonup> 'c rsa_ctx) \<Rightarrow> nat \<Rightarrow> int \<times> (nat \<rightharpoonup> 'c rsa_ctx)" where
  "client_clean_rsa_ctx mem a = (1, mem(a := None))"

text \<open>\<open>cleanup_crypto\<close> also frees OpenSSL's tables (\<open>client_cleanup_crypto\<close>), which are not part of the model.\<close>

definition cleanup_crypto :: "(nat \<rightharpoonup> 'c rsa_ctx) \<Rightarrow> nat \<Rightarrow> (nat \<rightharpoonup> 'c rsa_ctx)" where
  "cleanup_crypto mem ctx = mem(ctx := None)"

lemma create_clean:
  assumes "mem a = None" and "client_create_rsa_ctx c0 blk = Some r"
  shows "rsa_encrypt_ctx r = c0 \<and> rsa_decrypt_ctx r = c0 \<and> client_clean_rsa_ctx (mem(a \<mapsto> r)) a = (1, mem)"
  using assms by (auto simp: client_create_rsa_ctx_def client_clean_rsa_ctx_def split: option.splits)

section \<open>Generating a key pair\<close>

text \<open>OpenSSL's calls, by their results; \<open>kg_keygen\<close> also gives the key that it stores.\<close>

record 'k keygen =
  kg_new_ctx :: bool
  kg_init :: int
  kg_set_bits :: "int \<Rightarrow> int"
  kg_keygen :: "int \<times> 'k"

datatype block = Gen_key | Key_ctx

text \<open>The blocks that are allocated, after each call, as a list; freeing a block twice is a fault.\<close>

definition free_block :: "block \<Rightarrow> block list \<Rightarrow> block list option" where
  "free_block b live = (if b \<in> set live then Some (remove1 b live) else None)"

definition keygen_failure :: "block list \<Rightarrow> ('k option \<times> block list) option" where
  "keygen_failure live = do {
     live \<leftarrow> free_block Key_ctx live;
     live \<leftarrow> free_block Gen_key live;
     Some (None, live)
   }"

definition client_generate_rsa_pair :: "'k keygen \<Rightarrow> int \<Rightarrow> ('k option \<times> block list) option" where
  "client_generate_rsa_pair K key_size = do {
     let live = [Gen_key];
     if \<not> kg_new_ctx K then do { live \<leftarrow> free_block Gen_key live; Some (None, live) }
     else do {
       let live = Key_ctx # live;
       if kg_init K \<le> 0 then keygen_failure live
       else if kg_set_bits K key_size \<le> 0 then keygen_failure live
       else if fst (kg_keygen K) \<le> 0 then keygen_failure live
       else do {
         live \<leftarrow> free_block Key_ctx live;
         Some (Some (snd (kg_keygen K)), live)
       }
     }
   }"

text \<open>
  On every path each block is freed at most once, the context always, and the block of the key exactly if
  no key is returned; and a key is returned exactly if every call succeeds.
\<close>

lemma generate_rsa_pair_result:
  "client_generate_rsa_pair K key_size = Some (if kg_new_ctx K \<and> kg_init K > 0 \<and> kg_set_bits K key_size > 0 \<and> fst (kg_keygen K) > 0
     then (Some (snd (kg_keygen K)), [Gen_key]) else (None, []))"
  by (simp add: client_generate_rsa_pair_def keygen_failure_def free_block_def Let_def)

section \<open>Printing\<close>

definition hex_digit :: "nat \<Rightarrow> char" where
  "hex_digit n = ''0123456789ABCDEF'' ! n"

definition newline :: char where "newline = CHR 0x0A"

definition print_hex :: "bytes \<Rightarrow> int \<Rightarrow> string option" where
  "print_hex bs len = do {
     b \<leftarrow> read_bytes bs len;
     Some (concat (map (\<lambda>c. [hex_digit (uchar c div 16), hex_digit (uchar c mod 16)]) b) @ [newline])
   }"

fun show_nat :: "nat \<Rightarrow> string" where
  "show_nat n = (if n < 10 then [''0123456789'' ! n] else show_nat (n div 10) @ [''0123456789'' ! (n mod 10)])"

declare show_nat.simps [simp del]

definition show_int :: "int \<Rightarrow> string" where
  "show_int n = (if n < 0 then CHR ''-'' # show_nat (nat (- n)) else show_nat (nat n))"

definition print_msg_struct :: "message_encrypted \<Rightarrow> string option" where
  "print_msg_struct msg = do {
     em \<leftarrow> print_hex (encrypted_msg msg) (encrypted_msg_len msg);
     ek \<leftarrow> print_hex (encrypted_key msg) (encrypted_key_len msg);
     iv \<leftarrow> print_hex (init_vector msg) (init_vector_len msg);
     Some (''EM: '' @ em @ ''EK: '' @ ek @ ''IV: '' @ iv @
       ''EML '' @ show_int (encrypted_msg_len msg) @ [newline] @
       ''EKL '' @ show_int (encrypted_key_len msg) @ [newline] @
       ''IVL '' @ show_int (init_vector_len msg) @ [newline])
   }"

text \<open>Printing stays within the blocks exactly if the stored lengths do, and prints two digits per byte.\<close>

lemma print_hex_result:
  "print_hex bs len = None \<longleftrightarrow> int (length bs) < len"
  "0 \<le> len \<Longrightarrow> print_hex bs len = Some s \<Longrightarrow> int (length s) = 2 * len + 1"
proof -
  have "length (concat (map (\<lambda>c. [hex_digit (uchar c div 16), hex_digit (uchar c mod 16)]) b)) = 2 * length b" for b
    by (induction b) simp_all
  then show "0 \<le> len \<Longrightarrow> print_hex bs len = Some s \<Longrightarrow> int (length s) = 2 * len + 1"
    by (auto simp: print_hex_def read_bytes_def split: if_splits)
qed (auto simp: print_hex_def read_bytes_def)

lemma print_msg_struct_safe:
  "print_msg_struct msg = None \<longleftrightarrow> int (length (encrypted_msg msg)) < encrypted_msg_len msg \<or>
     int (length (encrypted_key msg)) < encrypted_key_len msg \<or> int (length (init_vector msg)) < init_vector_len msg"
  using print_hex_result(1) [of "encrypted_msg msg" "encrypted_msg_len msg"]
    print_hex_result(1) [of "encrypted_key msg" "encrypted_key_len msg"]
    print_hex_result(1) [of "init_vector msg" "init_vector_len msg"]
  by (simp add: print_msg_struct_def) (auto split: bind_splits)

section \<open>Cleaning up the key table\<close>

text \<open>
  What is allocated, by address: keys of the table are pointers that \<open>key_hash_free_key\<close> gives to \<open>free\<close>,
  which is defined on the start of a block that \<open>malloc\<close> returned and on NULL only.
\<close>

definition free_ptr :: "nat \<Rightarrow> nat set \<Rightarrow> nat set option" where
  "free_ptr a live = (if a \<in> live then Some (live - {a}) else None)"

definition key_hash_free_key :: "nat \<Rightarrow> nat set \<Rightarrow> nat set option" where
  "key_hash_free_key key live = free_ptr key live"

text \<open>A value is the address of an \<open>rsa_key_o\<close>, whose key is at \<open>key_of val\<close>.\<close>

definition key_hash_free_val :: "(nat \<Rightarrow> nat) \<Rightarrow> nat \<Rightarrow> nat set \<Rightarrow> nat set option" where
  "key_hash_free_val key_of val live = do {
     live \<leftarrow> free_ptr (key_of val) live;
     free_ptr val live
   }"

definition free_entry :: "(nat \<Rightarrow> nat) \<Rightarrow> nat \<times> nat \<Rightarrow> nat set \<Rightarrow> nat set option" where
  "free_entry key_of kv live = do {
     live \<leftarrow> key_hash_free_key (fst kv) live;
     key_hash_free_val key_of (snd kv) live
   }"

definition key_hash_cleanup :: "(nat \<Rightarrow> nat) \<Rightarrow> (nat \<times> nat) list \<Rightarrow> nat \<Rightarrow> nat set \<Rightarrow> nat set option" where
  "key_hash_cleanup key_of entries hash_table live = do {
     live \<leftarrow> mfold (free_entry key_of) entries live;
     free_ptr hash_table live
   }"

lemma free_entry_live: "free_entry key_of kv live = Some live' \<Longrightarrow> fst kv \<in> live \<and> live' \<subseteq> live"
  by (auto simp: free_entry_def key_hash_free_key_def key_hash_free_val_def free_ptr_def bind_eq_Some_conv split: if_splits)

text \<open>
  \<open>load_public_keys\<close> enters the name inside the entry that \<open>readdir\<close> returned, which is not a block that
  \<open>malloc\<close> returned: cleaning up a table with a key of that kind frees an invalid pointer.
\<close>

lemma key_hash_cleanup_faults:
  assumes "(name, val) \<in> set entries" and "name \<notin> live"
  shows "key_hash_cleanup key_of entries hash_table live = None"
proof -
  have "mfold (free_entry key_of) entries live = None"
    using assms
  proof (induction entries arbitrary: live)
    case (Cons kv entries)
    show ?case
    proof (cases "free_entry key_of kv live")
      case (Some live')
      with free_entry_live [OF Some] Cons.prems have "(name, val) \<in> set entries" "name \<notin> live'" by auto
      with Some Cons.IH show ?thesis by simp
    qed simp
  qed simp
  then show ?thesis by (simp add: key_hash_cleanup_def)
qed

end
