(* ===== verification/Startup.thy ===== *)
theory Startup
  imports Protocol RsaContext
begin

text \<open>
  Starting the programs: \<open>main\<close>, \<open>init_crypto\<close>, \<open>connect_to_name_server\<close> and the thread
  \<open>client_purge_msg_hash\<close> (which \<open>main\<close> does not start) of \<open>ac-client-server/client_server.c\<close>, and
  \<open>main\<close> of \<open>ac-name-server/name_server.c\<close>.

  A program that starts ends with an exit code, or hands over to its threads in the initial state of
  their step relation. Local buffers are not initialised: their contents are arguments.
\<close>

section \<open>The client\<close>

record name_server =
  ns_address :: bytes
  ns_port :: bytes
  ns_fd :: int
  ns_open :: int

text \<open>After a success the thread \<open>name_server_handle\<close> runs.\<close>

definition connect_to_name_server :: "net \<Rightarrow> name_server \<Rightarrow> (int \<times> name_server) option" where
  "connect_to_name_server N ns = do {
     a \<leftarrow> cstr (ns_address ns);
     p \<leftarrow> cstr (ns_port ns);
     socket_fd \<leftarrow> connect_to_host N a p;
     if socket_fd = -1 then Some (-1, ns)
     else Some (socket_fd, ns\<lparr>ns_fd := socket_fd, ns_open := 1\<rparr>)
   }"

text \<open>The files and the contents of the uninitialised buffers.\<close>

record ('pub, 'priv) start_env =
  su_files :: "('pub, 'priv) files"
  su_path :: bytes
  su_key :: bytes
  su_private_path :: bytes
  su_ns :: name_server
  su_port :: bytes

text \<open>
  \<open>c0\<close> is a context after \<open>EVP_CIPHER_CTX_init\<close> and \<open>ctx_blk\<close> the fresh block of the client's context. The
  results are the context, the private key and the public keys.
\<close>

definition init_crypto ::
  "('kt, 'pub rsa_key) ghash \<Rightarrow> ('pub, 'priv) start_env \<Rightarrow> heap \<Rightarrow> 'c \<Rightarrow> 'c rsa_ctx \<Rightarrow> string \<Rightarrow>
     ('c rsa_ctx \<times> 'priv \<times> 'kt keys) option" where
  "init_crypto G M mem c0 ctx_blk private_key_name = do {
     rsa_encrypt_ctx \<leftarrow> client_create_rsa_ctx c0 (Some ctx_blk);
     let public_key_hash_table = key_create_hash_table G;
     keys \<leftarrow> load_public_keys G (su_files M) (su_path M) (su_key M)
       \<lparr>k_mem = mem, k_table = public_key_hash_table, k_next = 0\<rparr>;
     private_key \<leftarrow> load_private_key (su_files M) (su_private_path M) private_key_name;
     Some (rsa_encrypt_ctx, private_key, keys)
   }"

datatype 'r run = Exit int | Running 'r

text \<open>
  The running client: its environment with the private key, the state after \<open>update_port\<close>, and the
  sockets of the peer server and the name server. That \<open>init_server\<close> failed is not checked.

  \<open>main\<close> creates the thread \<open>listen_for_clients\<close> before it connects to the name server, and
  \<open>connect_to_name_server\<close> creates \<open>name_server_handle\<close>: \<open>others1\<close> is what the first does (with the
  threads it creates) until the connection is made, \<open>others2\<close> what they do until the port is sent. If the
  connection fails, \<open>main\<close> returns, which ends all threads.
\<close>

type_synonym ('t, 'kt, 'c) others = "('t, 'kt, 'c) cworld \<Rightarrow> ('t, 'kt, 'c) cworld option"

definition set_sent :: "(int \<times> bytes) list \<Rightarrow> ('t, 'kt, 'c) cworld \<Rightarrow> ('t, 'kt, 'c) cworld" where
  "set_sent log w = w\<lparr>cw_client := (cw_client w)\<lparr>cs_peers := (cs_peers (cw_client w))\<lparr>ps_sent := log\<rparr>\<rparr>\<rparr>"

definition client_main ::
  "('t, 'kt, 'c, 'pub, 'priv) cenv \<Rightarrow> ('pub, 'priv) start_env \<Rightarrow> (nat \<Rightarrow> nat list_elm) \<Rightarrow> (nat \<Rightarrow> nat list_elm) \<Rightarrow>
     heap \<Rightarrow> 'c \<Rightarrow> 'c rsa_ctx \<Rightarrow> ('t, 'kt, 'c) others \<Rightarrow> ('t, 'kt, 'c) others \<Rightarrow> string list \<Rightarrow>
     (('t, 'kt, 'c, 'pub, 'priv) cenv \<times> ('t, 'kt, 'c) cworld \<times> int \<times> int) run option" where
  "client_main E M m1 m2 mem c0 ctx_blk others1 others2 argv =
     (case argv of
        _ # address # port # port_peers # private_key_name # _ \<Rightarrow> do {
          (ctx, private_key, keys) \<leftarrow> init_crypto (ce_key_hash E) M mem c0 ctx_blk private_key_name;
          a \<leftarrow> strncpy (ns_address (su_ns M)) address NI_MAXHOST;
          p \<leftarrow> strncpy (ns_port (su_ns M)) port NI_MAXSERV;
          pp \<leftarrow> strncpy (su_port M) port_peers NI_MAXSERV;
          peer_port \<leftarrow> cstr pp;
          let (server_fd, closed) = peer_init_server (pe_net (ce_peers E)) peer_port;
          let w = init_client E m1 m2 (k_mem keys) (k_table keys) ctx;
          let s = cw_client w;
          w \<leftarrow> others1 (w\<lparr>cw_client := s\<lparr>cs_peers := (cs_peers s)\<lparr>ps_closed := closed\<rparr>\<rparr>\<rparr>);
          (res, ns) \<leftarrow> connect_to_name_server (pe_net (ce_peers E)) ((su_ns M)\<lparr>ns_address := a, ns_port := p\<rparr>);
          if res = -1 then Some (Exit 0)
          else do {
            w \<leftarrow> others2 w;
            (res, log) \<leftarrow> update_port (pe_send (ce_peers E)) (ce_malloc E) (ps_sent (cs_peers (cw_client w))) (ns_fd ns) peer_port;
            Some (Running (E\<lparr>ce_private := private_key\<rparr>, set_sent log w, server_fd, ns_fd ns))
          }
        }
      | _ \<Rightarrow> Some (Exit 1))"

text \<open>The purge thread: one round for each time in the list, until \<open>running\<close> is cleared.\<close>

fun client_purge_msg_hash ::
  "('t, 'kt, 'c, 'pub, 'priv) cenv \<Rightarrow> int list \<Rightarrow> ('t, 'kt, 'c) client \<Rightarrow> ('t, 'kt, 'c) client" where
  "client_purge_msg_hash E [] s = s"
| "client_purge_msg_hash E (now # nows) s =
     (let (n, mem, t) = client_purge_msg (ce_hash E) (cs_mem s) now (cs_seen s) in
      client_purge_msg_hash E nows (s\<lparr>cs_mem := mem, cs_seen := t\<rparr>))"

section \<open>The name server\<close>

definition SERVER_DEF_PORT :: string where "SERVER_DEF_PORT = ''6958''"

text \<open>The listening socket, undefined when no address was found, and the initial state.\<close>

definition server_main :: "net \<Rightarrow> (nat \<Rightarrow> nat list_elm) \<Rightarrow> (int \<times> world) option" where
  "server_main N m = do {
     socket_fd \<leftarrow> fst (server_init_server N SERVER_DEF_PORT);
     Some (socket_fd, init_world m)
   }"

section \<open>Purging\<close>

lemma purge_result:
  assumes "ghash_ok G ents" and "client_purge_msg G mem now t = (n, mem', t')"
  shows "ents t' = filter (\<lambda>(k, s, v). now < purge_time v) (ents t)"
  using ghash_remove [OF assms(1), of t "purge_message now"] assms(2)
  by (auto simp: client_purge_msg_def purge_message_def not_le split: prod.splits)

text \<open>The thread leaves the messages that were fresh in every round, and nothing else changes.\<close>

lemma purge_rounds:
  assumes "ghash_ok (ce_hash E) ents"
  shows "ents (cs_seen (client_purge_msg_hash E nows s)) =
      filter (\<lambda>(k, s, v). \<forall>now \<in> set nows. now < purge_time v) (ents (cs_seen s)) \<and>
    cs_peers (client_purge_msg_hash E nows s) = cs_peers s \<and> cs_shown (client_purge_msg_hash E nows s) = cs_shown s"
proof (induction nows arbitrary: s)
  case (Cons now nows)
  obtain n mem t where r: "client_purge_msg (ce_hash E) (cs_mem s) now (cs_seen s) = (n, mem, t)"
    by (cases "client_purge_msg (ce_hash E) (cs_mem s) now (cs_seen s)")
  from Cons [of "s\<lparr>cs_mem := mem, cs_seen := t\<rparr>"] purge_result [OF assms r] show ?case
    by (simp add: r case_prod_beta conj_commute)
qed (simp add: case_prod_beta)

section \<open>Properties\<close>

text \<open>
  What a client needs to start: buffers of the declared sizes, an allocator, a directory of readable
  keys, a private key, and arguments that fit.
\<close>

definition can_start ::
  "('t, 'kt, 'c, 'pub, 'priv) cenv \<Rightarrow> ('pub, 'priv) start_env \<Rightarrow> string list \<Rightarrow> string \<Rightarrow> string \<Rightarrow> string \<Rightarrow>
     string \<Rightarrow> 'priv \<Rightarrow> bool" where
  "can_start E M names address port port_peers key_name priv \<longleftrightarrow>
     (\<forall>n. n \<le> length (ce_malloc E n)) \<and>
     length (su_path M) = full_path_len \<and> length (su_private_path M) = full_path_len \<and>
     KT_MAX_KEY_NAME_LEN \<le> length (su_key M) \<and> length (ns_address (su_ns M)) = NI_MAXHOST \<and>
     length (ns_port (su_ns M)) = NI_MAXSERV \<and> length (su_port M) = NI_MAXSERV \<and>
     fs_dir (su_files M) PUBLIC_KEY_DIR = Some names \<and> readdir_ok (su_files M) names \<and>
     (\<forall>d \<in> set names. dir_name d \<and> \<not> unreadable (su_files M) d) \<and>
     NUL \<notin> set key_name \<and> length key_name \<le> 270 \<and>
     client_open_priv_key (su_files M) (PRIVATE_KEY_DIR @ key_name) = Some priv \<and>
     NUL \<notin> set address \<and> length address < NI_MAXHOST \<and> NUL \<notin> set port \<and> length port < NI_MAXSERV \<and>
     NUL \<notin> set port_peers \<and> length port_peers < NI_MAXSERV"

lemma init_crypto_result:
  assumes "glib_like (ce_key_hash E) kents" and "can_start E M names a p pp key_name priv"
  shows "\<exists>keys. init_crypto (ce_key_hash E) M mem c0 blk key_name =
      Some (\<lparr>rsa_encrypt_ctx = c0, rsa_decrypt_ctx = c0\<rparr>, priv, keys) \<and>
    k_mem keys = dir_memory (su_files M) names mem \<and>
    (\<forall>m n. key_get_by_name (ce_key_hash E) m (k_table keys) n = keys_found (su_files M) names m n)"
proof -
  note c = assms(2) [unfolded can_start_def]
  let ?s = "\<lparr>k_mem = mem, k_table = key_create_hash_table (ce_key_hash E), k_next = 0\<rparr>"
  from c have load: "length (su_path M) = full_path_len" "KT_MAX_KEY_NAME_LEN \<le> length (su_key M)"
    "fs_dir (su_files M) PUBLIC_KEY_DIR = Some names" "readdir_ok (su_files M) names"
    "\<forall>d \<in> set names. dir_name d" "\<not> (\<exists>d \<in> set names. unreadable (su_files M) d)" by simp_all
  from load_public_keys_run [OF assms(1) _ load(1-5), of ?s] load(6) obtain keys where
    keys: "load_public_keys (ce_key_hash E) (su_files M) (su_path M) (su_key M) ?s = Some keys"
      "k_mem keys = dir_memory (su_files M) names mem"
      "\<forall>m n. key_get_by_name (ce_key_hash E) m (k_table keys) n = keys_found (su_files M) names m n" by auto
  have "load_private_key (su_files M) (su_private_path M) key_name = Some priv"
    using load_private_key_result [of "su_private_path M" key_name "su_files M"] c by simp
  with keys show ?thesis by (simp add: init_crypto_def client_create_rsa_ctx_def)
qed

text \<open>The client before its threads run; the other threads take steps and do not fault.\<close>

definition started ::
  "('t, 'kt, 'c, 'pub, 'priv) cenv \<Rightarrow> (nat \<Rightarrow> nat list_elm) \<Rightarrow> (nat \<Rightarrow> nat list_elm) \<Rightarrow> heap \<Rightarrow> 'kt \<Rightarrow> 'c \<Rightarrow> int list \<Rightarrow>
     ('t, 'kt, 'c) cworld" where
  "started E m1 m2 mem kt c0 closed = (let w = init_client E m1 m2 mem kt \<lparr>rsa_encrypt_ctx = c0, rsa_decrypt_ctx = c0\<rparr> in
     w\<lparr>cw_client := (cw_client w)\<lparr>cs_peers := (cs_peers (cw_client w))\<lparr>ps_closed := closed\<rparr>\<rparr>\<rparr>)"

definition takes_steps :: "('t, 'kt, 'c, 'pub, 'priv) cenv \<Rightarrow> ('t, 'kt, 'c) others \<Rightarrow> bool" where
  "takes_steps E acts \<longleftrightarrow> (\<forall>w. \<exists>w'. acts w = Some w' \<and> client_reachable E w w')"

lemma set_sent_keeps:
  "client_inv (set_sent log w) = client_inv w" "keys_stay mem kt (set_sent log w) = keys_stay mem kt w"
  "ps_sent (cs_peers (cw_client (set_sent log w))) = log"
proof -
  have "peers_inv (s\<lparr>ps_sent := log\<rparr>) = peers_inv s" for s by (simp add: peers_inv_def peers_ok_def)
  then show "client_inv (set_sent log w) = client_inv w" by (simp add: set_sent_def client_inv_def buffers_ok_def)
qed (simp_all add: set_sent_def keys_stay_def)

lemma started_ok:
  assumes "zeroed m1" and "zeroed m2"
  shows "client_inv (started E m1 m2 mem kt c0 closed)" and "keys_stay mem kt (started E m1 m2 mem kt c0 closed)"
proof -
  let ?w = "init_client E m1 m2 mem kt \<lparr>rsa_encrypt_ctx = c0, rsa_decrypt_ctx = c0\<rparr>"
  have "peers_inv ((cs_peers (cw_client ?w))\<lparr>ps_closed := closed\<rparr>) \<longleftrightarrow> peers_inv (cs_peers (cw_client ?w))"
    by (simp add: peers_inv_def peers_ok_def)
  with init_client_inv [OF assms, of E mem kt] show "client_inv (started E m1 m2 mem kt c0 closed)"
    by (simp add: started_def client_inv_def buffers_ok_def Let_def)
  show "keys_stay mem kt (started E m1 m2 mem kt c0 closed)" by (simp add: started_def keys_stay_def init_client_def)
qed

lemma takes_steps_keep:
  assumes "takes_steps E acts" and "client_inv w" and "keys_stay mem kt w" and "\<forall>n. n \<le> length (ce_malloc E n)"
  obtains w' where "acts w = Some w'" and "client_inv w'" and "keys_stay mem kt w'"
proof -
  from assms(1) obtain w' where w': "acts w = Some w'" "client_reachable E w w'" unfolding takes_steps_def by blast
  from client_reachable_client_inv [OF this(2) assms(2,4)] client_reachable_keys [OF this(2) assms(3)] w'(1) that
  show ?thesis by blast
qed

lemma client_main_run:
  assumes G: "glib_like (ce_key_hash E) kents" and M: "can_start E M names address port port_peers key_name priv"
    and m: "zeroed m1" "zeroed m2"
    and o: "takes_steps (E\<lparr>ce_private := priv\<rparr>) others1" "takes_steps (E\<lparr>ce_private := priv\<rparr>) others2"
    and host: "connect_to_host (pe_net (ce_peers E)) address port = Some fd"
  shows "\<exists>w d log server_fd. client_inv w \<and> keys_stay (dir_memory (su_files M) names mem) (cs_keys (cw_client w)) w \<and>
    (\<forall>m n. key_get_by_name (ce_key_hash E) m (cs_keys (cw_client w)) n = keys_found (su_files M) names m n) \<and>
    ps_sent (cs_peers (cw_client w)) = log @ [(fd, d)] \<and> length d = 41 \<and> msg_text d = ''PORTUPD '' @ port_peers \<and>
    client_main E M m1 m2 mem c0 blk others1 others2 [prog, address, port, port_peers, key_name] =
      Some (if fd = -1 then Exit 0 else Running (E\<lparr>ce_private := priv\<rparr>, w, server_fd, fd))"
proof -
  note c = M [unfolded can_start_def]
  from init_crypto_result [OF G M, of mem c0 blk] obtain keys where
    keys: "init_crypto (ce_key_hash E) M mem c0 blk key_name = Some (\<lparr>rsa_encrypt_ctx = c0, rsa_decrypt_ctx = c0\<rparr>, priv, keys)"
      "k_mem keys = dir_memory (su_files M) names mem"
      "\<forall>m n. key_get_by_name (ce_key_hash E) m (k_table keys) n = keys_found (su_files M) names m n" by blast
  obtain a where a: "strncpy (ns_address (su_ns M)) address NI_MAXHOST = Some a" "cstr a = Some address"
    using strncpy_fits [of address NI_MAXHOST "ns_address (su_ns M)"] c by auto
  obtain p where p: "strncpy (ns_port (su_ns M)) port NI_MAXSERV = Some p" "cstr p = Some port"
    using strncpy_fits [of port NI_MAXSERV "ns_port (su_ns M)"] c by auto
  obtain pp where pp: "strncpy (su_port M) port_peers NI_MAXSERV = Some pp" "cstr pp = Some port_peers"
    using strncpy_fits [of port_peers NI_MAXSERV "su_port M"] c by auto
  obtain server_fd closed where srv: "peer_init_server (pe_net (ce_peers E)) port_peers = (server_fd, closed)"
    by (cases "peer_init_server (pe_net (ce_peers E)) port_peers")
  have big: "NUL \<notin> set port_peers" "length port_peers < NI_MAXSERV" "\<forall>n. n \<le> length (ce_malloc E n)" using c by simp_all
  from update_port_msg_result [OF this] obtain d where
    d: "update_port_msg (ce_malloc E) port_peers = Some d" "length d = 41" "msg_text d = ''PORTUPD '' @ port_peers" by blast
  let ?w0 = "started E m1 m2 (k_mem keys) (k_table keys) c0 closed"
  have big': "\<forall>n. n \<le> length (ce_malloc (E\<lparr>ce_private := priv\<rparr>) n)" using big(3) by simp
  obtain w1 where w1: "others1 ?w0 = Some w1" "client_inv w1" "keys_stay (k_mem keys) (k_table keys) w1"
    by (rule takes_steps_keep [OF o(1) started_ok [OF m] big'])
  obtain w2 where w2: "others2 w1 = Some w2" "client_inv w2" "keys_stay (k_mem keys) (k_table keys) w2"
    by (rule takes_steps_keep [OF o(2) w1(2,3) big'])
  let ?log = "ps_sent (cs_peers (cw_client w2))"
  let ?w = "set_sent (?log @ [(fd, d)]) w2"
  have "client_main E M m1 m2 mem c0 blk others1 others2 [prog, address, port, port_peers, key_name] =
      Some (if fd = -1 then Exit 0 else Running (E\<lparr>ce_private := priv\<rparr>, ?w, server_fd, fd))"
    using w1(1) w2(1) d(1)
    by (simp add: client_main_def keys(1) a p pp srv connect_to_name_server_def host update_port_def send_msg_def started_def Let_def)
  moreover have "cs_keys (cw_client ?w) = k_table keys" using w2(3) by (simp add: set_sent_def keys_stay_def)
  ultimately show ?thesis using w2(2,3) d(2,3) keys(2,3)
    by (intro exI [of _ ?w] exI [of _ d] exI [of _ ?log] exI [of _ server_fd]) (simp add: set_sent_keeps)
qed

text \<open>
  C25: starting a client: with fewer than four arguments the program exits with 1. If the
  keys and arguments are in order, and the name server cannot be reached, it exits with 0; otherwise
  it connects and tells the name server its port, after whatever the threads that it has created by then have
  done and sent without a fault; its state satisfies the client's invariant, and the public keys that are
  found are those of the files whose directory entries \<open>readdir\<close> left in place. The message sent,
  received by a name server that knows the client, sets exactly this port for it.
\<close>

theorem client_start:
  assumes "glib_like (ce_key_hash E) kents" and "can_start E M names address port port_peers key_name priv"
    and "zeroed m1" and "zeroed m2"
    and "takes_steps (E\<lparr>ce_private := priv\<rparr>) others1" and "takes_steps (E\<lparr>ce_private := priv\<rparr>) others2"
    and "connect_to_host (pe_net (ce_peers E)) address port = Some fd"
    and "port_peers \<noteq> []" and "CHR '' '' \<notin> set port_peers"
  shows "(\<forall>argv. length argv < 5 \<longrightarrow> client_main E M m1 m2 mem c0 blk others1 others2 argv = Some (Exit 1)) \<and>
    (if fd = -1 then client_main E M m1 m2 mem c0 blk others1 others2 [prog, address, port, port_peers, key_name] = Some (Exit 0)
     else \<exists>d log w server_fd.
       client_main E M m1 m2 mem c0 blk others1 others2 [prog, address, port, port_peers, key_name] =
         Some (Running (E\<lparr>ce_private := priv\<rparr>, w, server_fd, fd)) \<and>
       ps_sent (cs_peers (cw_client w)) = log @ [(fd, d)] \<and> client_inv w \<and>
       (\<forall>n. key_get_by_name (ce_key_hash E) (cs_mem (cw_client w)) (cs_keys (cw_client w)) n =
         keys_found (su_files M) names (dir_memory (su_files M) names mem) n) \<and>
       (\<forall>S s c cl buffer. srv_clients s c = Some cl \<and> length (cl_port cl) = NI_MAXSERV \<and>
         cstr (cl_address cl) \<noteq> None \<and> length buffer = SERVER_MAX_MESSAGE + 1 \<longrightarrow>
         (\<exists>field b. cstr field = Some port_peers \<and> client_msg S s c buffer (Received d) =
            finish_msg S (s\<lparr>srv_clients := (srv_clients s)(c \<mapsto> cl\<lparr>cl_port := field\<rparr>)\<rparr>) b)))"
proof -
  have early: "client_main E M m1 m2 mem c0 blk others1 others2 argv = Some (Exit 1)" if "length argv < 5" for argv
    using that by (auto simp: client_main_def split: list.splits)
  from client_main_run [OF assms(1-7)] obtain w d log server_fd where
    keys: "keys_stay (dir_memory (su_files M) names mem) (cs_keys (cw_client w)) w"
      "\<forall>m n. key_get_by_name (ce_key_hash E) m (cs_keys (cw_client w)) n = keys_found (su_files M) names m n"
    and d: "length d = 41" "msg_text d = ''PORTUPD '' @ port_peers"
    and w: "client_inv w" "ps_sent (cs_peers (cw_client w)) = log @ [(fd, d)]"
    and run: "client_main E M m1 m2 mem c0 blk others1 others2 [prog, address, port, port_peers, key_name] =
      Some (if fd = -1 then Exit 0 else Running (E\<lparr>ce_private := priv\<rparr>, w, server_fd, fd))" by blast
  have "readdir_ok (su_files M) names" using assms(2) by (simp add: can_start_def)
  from keys_found_kept [OF this] keys have
    found: "\<forall>n. key_get_by_name (ce_key_hash E) (cs_mem (cw_client w)) (cs_keys (cw_client w)) n =
      keys_found (su_files M) names (dir_memory (su_files M) names mem) n" by (simp add: keys_stay_def)
  have "\<exists>field b. cstr field = Some port_peers \<and> client_msg S s c buffer (Received d) =
      finish_msg S (s\<lparr>srv_clients := (srv_clients s)(c \<mapsto> cl\<lparr>cl_port := field\<rparr>)\<rparr>) b"
    if "srv_clients s c = Some cl \<and> length (cl_port cl) = NI_MAXSERV \<and> cstr (cl_address cl) \<noteq> None \<and>
      length buffer = SERVER_MAX_MESSAGE + 1" for S s c cl buffer
  proof -
    have "length d \<le> SERVER_MAX_MESSAGE" "NUL \<notin> set port_peers" "length port_peers < NI_MAXSERV"
      using assms(2) by (simp_all add: can_start_def d(1) SERVER_MAX_MESSAGE_def)
    from portupd_text [OF _ _ _ assms(8,9) this(2) _ d(2) this(1), of s c cl buffer S] this(3) that show ?thesis by auto
  qed
  with early run w found show ?thesis by auto
qed

text \<open>
  A directory with the key of bob; every file holds the trivial key. Before the name server is reached, a peer
  connects.
\<close>

definition ex_start :: "(unit, unit) start_env" where
  "ex_start = \<lparr>su_files = \<lparr>fs_open = Some, fs_pem_pub = (\<lambda>_. Some ()), fs_pem_priv = (\<lambda>_. Some ()),
      fs_dir = (\<lambda>_. Some [''bob.pub'']), fs_entry = (\<lambda>d. (9, [9 \<mapsto> d @ [NUL]]))\<rparr>,
     su_path = replicate 282 (CHR ''?''), su_key = replicate 256 (CHR ''?''), su_private_path = replicate 282 (CHR ''?''),
     su_ns = \<lparr>ns_address = replicate 1025 (CHR ''?''), ns_port = replicate 32 (CHR ''?''), ns_fd = 0, ns_open = 0\<rparr>,
     su_port = replicate 32 (CHR ''?'')\<rparr>"

definition ex_glib_cenv ::
  "((nat \<times> string \<times> message_hash) list, (nat \<times> string \<times> unit rsa_key) list, bytes, unit, unit) cenv" where
  "ex_glib_cenv = ex_cenv\<lparr>ce_key_hash := glib_ghash\<rparr>"

definition ex_others :: "('t, 'kt, 'c) others" where
  "ex_others w = (if cs_conns (cw_client w) 0 = None
     then with_client w (cw_buf w) (accept_conn (cw_client w) 0 4 \<lparr>conn_id = 0, conn_fd = 0, conn_open = 0\<rparr>)
     else Some w)"

lemma ex_others_steps: "takes_steps E ex_others" "takes_steps E Some"
proof -
  have "\<exists>w'. ex_others w = Some w' \<and> client_reachable E w w'" for w
  proof (cases "cs_conns (cw_client w) 0 = None")
    case True
    from client_step.accept [OF this, of E 4 "\<lparr>conn_id = 0, conn_fd = 0, conn_open = 0\<rparr>"]
    show ?thesis using True reach.init [of "client_step E" w]
      by (fastforce simp: ex_others_def with_client_def accept_conn_def intro: client_reach)
  qed (auto simp: ex_others_def intro: reach.init)
  then show "takes_steps E ex_others" by (simp add: takes_steps_def)
qed (auto simp: takes_steps_def intro: reach.init)

lemma ex_can_start:
  assumes "NUL \<notin> set address" and "length address < 1025"
  shows "can_start ex_glib_cenv ex_start [''bob.pub''] address ''6958'' ''4758'' ''me.pem'' ()"
proof -
  have "\<not> unreadable (su_files ex_start) ''bob.pub''"
    by (simp add: unreadable_def client_open_pub_key_def ex_start_def)
  with assms show ?thesis
    by (simp add: can_start_def ex_glib_cenv_def ex_start_def ex_malloc full_path_len_def KT_MAX_KEY_NAME_LEN_def NI_MAXHOST_def
        NI_MAXSERV_def readdir_ok_def cstr_def dir_name_def client_open_priv_key_def)
qed

lemma ex_start_bob:
  "keys_found (su_files ex_start) [''bob.pub''] (dir_memory (su_files ex_start) [''bob.pub''] Map.empty) ''bob'' = Some ()"
  by (simp add: keys_found_def keys_of_def key_addr_def dir_memory_def after_entry_def ex_start_def client_open_pub_key_def
      strrchr_def text_at_def cstr_def)

theorem client_start_witness:
  "client_main ex_glib_cenv ex_start ex_blocks ex_blocks Map.empty (rsa_encrypt_ctx ex_ctx) ex_ctx ex_others Some
     [''client'', ''10.0.0.2'', ''6958'', ''4758'', ''me.pem''] = Some (Exit 0) \<and>
   client_main ex_glib_cenv ex_start ex_blocks ex_blocks Map.empty (rsa_encrypt_ctx ex_ctx) ex_ctx ex_others Some
     [''client'', ''10.0.0.1''] = Some (Exit 1) \<and>
   (\<exists>d w log server_fd. client_main ex_glib_cenv ex_start ex_blocks ex_blocks Map.empty (rsa_encrypt_ctx ex_ctx) ex_ctx ex_others Some
       [''client'', ''10.0.0.1'', ''6958'', ''4758'', ''me.pem''] =
       Some (Running (ex_glib_cenv\<lparr>ce_private := ()\<rparr>, w, server_fd, 3)) \<and>
     client_inv w \<and> ps_sent (cs_peers (cw_client w)) = log @ [(3, d)] \<and>
     key_get_by_name glib_ghash (cs_mem (cw_client w)) (cs_keys (cw_client w)) ''bob'' = Some () \<and>
     (\<exists>field b. cstr field = Some ''4758'' \<and> client_msg ex_env (ex_server 3) 1 (replicate 513 NUL) (Received d) =
        finish_msg ex_env (ex_server 3\<lparr>srv_clients := (srv_clients (ex_server 3))(1 \<mapsto> ex_client 1\<lparr>cl_port := field\<rparr>)\<rparr>) b))"
  (is "?exit0 \<and> ?exit1 \<and> ?run")
proof -
  have host: "connect_to_host (pe_net (ce_peers ex_glib_cenv)) ''10.0.0.2'' ''6958'' = Some (-1)"
    "connect_to_host (pe_net (ce_peers ex_glib_cenv)) ''10.0.0.1'' ''6958'' = Some 3"
    by (simp_all add: connect_to_host_def ex_glib_cenv_def ex_cenv_def ex_penv_def ex_hosts_def)
  have G: "ce_key_hash ex_glib_cenv = glib_ghash" "glib_like (ce_key_hash ex_glib_cenv) (\<lambda>t. t)"
    by (simp_all add: ex_glib_cenv_def glib_ghash_like)
  note start = client_start [OF G(2) ex_can_start zeroed_ex_blocks zeroed_ex_blocks ex_others_steps, of _ _ "Map.empty"
    "rsa_encrypt_ctx ex_ctx" ex_ctx "''client''"]
  have srv: "srv_clients (ex_server 3) 1 = Some (ex_client 1) \<and> length (cl_port (ex_client 1)) = NI_MAXSERV \<and>
    cstr (cl_address (ex_client 1)) \<noteq> None \<and> length (replicate 513 NUL) = SERVER_MAX_MESSAGE + 1"
    by (simp add: ex_server_def ex_client_def NI_MAXSERV_def cstr_def SERVER_MAX_MESSAGE_def)
  have fd: "(3 :: int) \<noteq> -1" by simp
  have ready: "NUL \<notin> set ''10.0.0.1''" "length ''10.0.0.1'' < 1025" "''4758'' \<noteq> []" "CHR '' '' \<notin> set ''4758''" by simp_all
  from conjunct2 [OF start [OF ready(1,2) host(2) ready(3,4)], unfolded if_not_P [OF fd] G(1)] obtain d log w server_fd where
    w: "client_main ex_glib_cenv ex_start ex_blocks ex_blocks Map.empty (rsa_encrypt_ctx ex_ctx) ex_ctx ex_others Some
        [''client'', ''10.0.0.1'', ''6958'', ''4758'', ''me.pem''] = Some (Running (ex_glib_cenv\<lparr>ce_private := ()\<rparr>, w, server_fd, 3))"
      "client_inv w" "ps_sent (cs_peers (cw_client w)) = log @ [(3, d)]"
      "\<forall>n. key_get_by_name glib_ghash (cs_mem (cw_client w)) (cs_keys (cw_client w)) n =
         keys_found (su_files ex_start) [''bob.pub''] (dir_memory (su_files ex_start) [''bob.pub''] Map.empty) n"
      "\<forall>S s c cl buffer. srv_clients s c = Some cl \<and> length (cl_port cl) = NI_MAXSERV \<and>
         cstr (cl_address cl) \<noteq> None \<and> length buffer = SERVER_MAX_MESSAGE + 1 \<longrightarrow>
         (\<exists>field b. cstr field = Some ''4758'' \<and> client_msg S s c buffer (Received d) =
            finish_msg S (s\<lparr>srv_clients := (srv_clients s)(c \<mapsto> cl\<lparr>cl_port := field\<rparr>)\<rparr>) b)" by blast
  have bob: "key_get_by_name glib_ghash (cs_mem (cw_client w)) (cs_keys (cw_client w)) ''bob'' = Some ()"
    using w(4) ex_start_bob by simp
  from w(5) srv have "\<exists>field b. cstr field = Some ''4758'' \<and> client_msg ex_env (ex_server 3) 1 (replicate 513 NUL) (Received d) =
      finish_msg ex_env (ex_server 3\<lparr>srv_clients := (srv_clients (ex_server 3))(1 \<mapsto> ex_client 1\<lparr>cl_port := field\<rparr>)\<rparr>) b" by blast
  with w(1-3) bob have "?run" by blast
  moreover have "?exit0" using start [OF _ _ host(1)] by simp
  moreover have "?exit1" using start [OF _ _ host(1)] by simp
  ultimately show ?thesis by blast
qed

end
