(* ===== verification/PeerKeys.thy ===== *)
theory PeerKeys
  imports Client
begin

text \<open>
  The exchange of peer keys (\<open>client_encode_public_key\<close>, \<open>client_send_peer_key\<close>,
  \<open>client_parse_public_key\<close>, \<open>peer_handle\<close> and \<open>peer_request_key\<close> of
  \<open>ac-client-server/client_server.c\<close>). No thread of the program runs it yet.

  A key is sent as the bytes of its struct, which holds pointers of the sender; \<open>n\<close> is \<open>sizeof(EVP_PKEY)\<close>.
  The receiver hands the bytes to OpenSSL's \<open>EVP_PKEY_copy_parameters\<close>, with a fresh block as the target
  that is not initialised. It is a parameter \<open>cp\<close> of the contents of target and source: \<open>None\<close> if it faults (as it may
  here, on pointers of another process and on the old content of the block), otherwise the content of the target;
  it copies parameters only, and its result code is only printed.
\<close>

section \<open>The code\<close>

definition client_encode_public_key :: "(nat \<Rightarrow> bytes) \<Rightarrow> nat \<Rightarrow> bytes \<Rightarrow> (int \<times> bytes) option" where
  "client_encode_public_key mem n public_key = do {
     (len, dest) \<leftarrow> Base64encode (mem (nat (Base64encode_len (int n)))) public_key (int n);
     printed \<leftarrow> cstr dest;
     Some (len, dest)
   }"

definition PEER_PUB_KEY_MSG :: string where "PEER_PUB_KEY_MSG = ''PUBKEY ''"

definition PEER_REQUEST_PUB_KEY_MSG :: string where "PEER_REQUEST_PUB_KEY_MSG = ''REQPUBKEY''"

definition client_send_peer_key ::
  "(int \<Rightarrow> bytes \<Rightarrow> int) \<Rightarrow> (nat \<Rightarrow> bytes) \<Rightarrow> nat \<Rightarrow> bytes \<Rightarrow> (int \<times> bytes) list \<Rightarrow> conn \<Rightarrow>
     (int \<times> (int \<times> bytes) list) option" where
  "client_send_peer_key send mem n peer_public_key log client = do {
     (len, encoded_key) \<leftarrow> client_encode_public_key mem n peer_public_key;
     if len < 1 then Some (0, log)
     else do {
       let key_msg_len = nat len + length PEER_PUB_KEY_MSG + 1;
       key_msg \<leftarrow> strncpy (mem key_msg_len) PEER_PUB_KEY_MSG key_msg_len;
       key \<leftarrow> cstr encoded_key;
       key_msg \<leftarrow> strncat key_msg key key_msg_len;
       data \<leftarrow> read_bytes key_msg (int key_msg_len);
       Some (send_msg send log (conn_fd client) data)
     }
   }"

text \<open>The inner \<open>None\<close> is NULL. The struct is copied without regard to the decoded length.\<close>

definition client_parse_public_key ::
  "(bytes \<Rightarrow> bytes \<Rightarrow> bytes option) \<Rightarrow> (nat \<Rightarrow> bytes) \<Rightarrow> nat \<Rightarrow> string \<Rightarrow> bytes option option" where
  "client_parse_public_key cp mem n encoded_key = do {
     k \<leftarrow> Base64decode_len (encoded_key @ [NUL]);
     (len, raw_key) \<leftarrow> Base64decode (mem (nat k)) (encoded_key @ [NUL]);
     if len < 1 then Some None
     else do {
       raw \<leftarrow> read_bytes raw_key (int n);
       tmp_key \<leftarrow> write_at (mem n) 0 raw;
       public_key \<leftarrow> cp (mem n) tmp_key;
       Some (Some public_key)
     }
   }"

text \<open>One message in \<open>peer_handle\<close>; \<open>key\<close> is the field \<open>public_key\<close> of the peer.\<close>

definition peer_msg ::
  "(bytes \<Rightarrow> bytes \<Rightarrow> bytes option) \<Rightarrow> (nat \<Rightarrow> bytes) \<Rightarrow> nat \<Rightarrow> bytes \<Rightarrow> bytes option \<Rightarrow> received \<Rightarrow>
     (bytes \<times> bytes option) option" where
  "peer_msg cp mem n buffer key r = do {
     (res, buffer) \<leftarrow> recv_into buffer r;
     txt \<leftarrow> cstr buffer;
     if str_starts_with txt PEER_PUB_KEY_MSG then do {
       key \<leftarrow> client_parse_public_key cp mem n (drop (length PEER_PUB_KEY_MSG) txt);
       Some (buffer, key)
     }
     else Some (buffer, key)
   }"

definition peer_request_key ::
  "(int \<Rightarrow> bytes \<Rightarrow> int) \<Rightarrow> (int \<times> bytes) list \<Rightarrow> peer \<Rightarrow> int \<times> (int \<times> bytes) list" where
  "peer_request_key send log p = send_msg_peer send log p PEER_REQUEST_PUB_KEY_MSG"

section \<open>Sending a key\<close>

lemma send_peer_key_result:
  assumes "length key = n" and "0 < n" and mem: "\<forall>n. n \<le> length (mem n)"
  shows "\<exists>r d. client_send_peer_key send mem n key log c = Some (r, log @ [(conn_fd c, d)]) \<and>
    length d = length (b64 key) + 9 \<and> takeWhile (\<lambda>c. c \<noteq> NUL) d = ''PUBKEY '' @ b64 key"
proof -
  let ?l = "length (b64 key)" and ?k = "nat (Base64encode_len (int n))"
  have len: "Base64encode_len (int n) = int ?l + 1" using cdc.enc_len [of key] assms(1) by simp
  have "?k \<le> length (mem ?k)" using mem by blast
  then have "?l < length (mem ?k)" using len by simp
  with cdc.encode_fits [of key key "mem ?k"] assms(1) obtain e where
    e: "client_encode_public_key mem n key = Some (int ?l + 1, e)" "cstr e = Some (b64 key)"
    by (auto simp: client_encode_public_key_def)
  let ?n = "?l + 9"
  have n: "nat (int ?l + 1) + length PEER_PUB_KEY_MSG + 1 = ?n" by (simp add: PEER_PUB_KEY_MSG_def nat_add_distrib)
  have "client_send_peer_key send mem n key log c = do {
      key_msg \<leftarrow> strncpy (mem ?n) PEER_PUB_KEY_MSG ?n; key_msg \<leftarrow> strncat key_msg (b64 key) ?n;
      data \<leftarrow> read_bytes key_msg (int ?n); Some (send_msg send log (conn_fd c) data) }"
    unfolding client_send_peer_key_def e(1) Let_def using e(2) n by (simp add: ac_simps)
  note run = this [unfolded PEER_PUB_KEY_MSG_def]
  have blk: "?n \<le> length (mem ?n)" using mem by blast
  obtain m1 where m1: "strncpy (mem ?n) ''PUBKEY '' ?n = Some m1" "cstr m1 = Some ''PUBKEY ''" "length m1 = length (mem ?n)"
    using strncpy_fits [of "''PUBKEY ''" ?n "mem ?n"] blk by auto
  obtain m2 where m2: "strncat m1 (b64 key) ?n = Some m2" "cstr m2 = Some (''PUBKEY '' @ b64 key)" "length m2 = length m1"
    using strncat_step [OF m1(2) cdc.no_NUL, of key ?n] m1(3) blk by (auto split: if_splits)
  have "length (''PUBKEY '' @ b64 key) < ?n" "?n \<le> length m2" using m1(3) m2(3) blk by simp_all
  from read_bytes_text [OF m2(2) this] obtain d where
    d: "read_bytes m2 (int ?n) = Some d" "length d = ?n" "takeWhile (\<lambda>c. c \<noteq> NUL) d = ''PUBKEY '' @ b64 key" by blast
  with run m1(1) m2(1) d show ?thesis by (simp add: send_msg_def)
qed

section \<open>Reading a key\<close>

lemma decode_text:
  "Base64decode plain (b64 s @ [NUL]) = map_option (\<lambda>b. (int (length s), b)) (write_all plain (s @ [NUL]))"
  by (rule Base64decode_b64) (simp add: pad_def not_alphabet(1))

lemma parse_key_result:
  assumes "length key = n" and "0 < n" and mem: "\<forall>n. n \<le> length (mem n)"
  shows "\<exists>tmp. client_parse_public_key cp mem n (b64 key) = map_option Some (cp (mem n) tmp) \<and> take n tmp = key"
proof -
  from cdc.decode_word [OF mem, of key] obtain k raw where
    k: "Base64decode_len (b64 key @ [NUL]) = Some k" "Base64decode (mem (nat k)) (b64 key @ [NUL]) = Some (int n, raw)"
    "key = take n raw" "n < length raw"
    unfolding assms(1) by blast
  have "read_bytes raw (int n) = Some key" using k(3,4) by (simp add: read_bytes_def)
  moreover have "n \<le> length (mem n)" using mem by blast
  then obtain tmp where tmp: "write_at (mem n) 0 key = Some tmp" "take n tmp = key"
    using write_at_in [of 0 key "mem n"] assms(1) by auto
  ultimately have "client_parse_public_key cp mem n (b64 key) = map_option Some (cp (mem n) tmp)"
    using assms(2) k by (cases "cp (mem n) tmp") (simp_all add: client_parse_public_key_def)
  with tmp(2) show ?thesis by blast
qed

text \<open>A key that decodes to a block smaller than the struct is copied from beyond this block.\<close>

lemma short_key_overread:
  assumes "Base64decode_len (b64 s @ [NUL]) = Some k" and "k < int n" and "s \<noteq> []"
    and "length (mem (nat k)) = nat k"
  shows "client_parse_public_key cp mem n (b64 s) = None"
proof (cases "length (s @ [NUL]) \<le> nat k")
  case True
  moreover from this have "\<not> n \<le> nat k" using assms(2) by simp
  ultimately show ?thesis using assms
    by (simp add: client_parse_public_key_def decode_text write_all_def read_bytes_def)
next
  case False
  with assms show ?thesis by (simp add: client_parse_public_key_def decode_text write_all_def)
qed

section \<open>Property\<close>

text \<open>
  C40: the key message between two peers: what \<open>client_send_peer_key\<close> sends for a key of
  \<open>sizeof(EVP_PKEY)\<close> bytes, received whole by \<open>peer_handle\<close>, when the message fits the buffer, is one call of
  \<open>EVP_PKEY_copy_parameters\<close> on a block that is not initialised and a struct with exactly the bytes sent: if
  OpenSSL faults on it, so does the client, and otherwise the peer's key is what it leaves in the block.
  Whether that is the key that was sent is not shown, nor true of keys with pointers.
\<close>

theorem peer_key_protocol:
  assumes "length key = n" and "0 < n" and "\<forall>n. n \<le> length (mem n)"
    and "length (b64 key) + 9 \<le> BUFFER_SIZE" and "BUFFER_SIZE < length buffer"
  shows "\<exists>r d b tmp. client_send_peer_key send mem n key log c = Some (r, log @ [(conn_fd c, d)]) \<and>
    take n tmp = key \<and> peer_msg cp mem n buffer old (Received d) =
      (case cp (mem n) tmp of None \<Rightarrow> None | Some public_key \<Rightarrow> Some (b, Some public_key))"
proof -
  from send_peer_key_result [OF assms(1-3), of send log c] obtain r d where
    d: "client_send_peer_key send mem n key log c = Some (r, log @ [(conn_fd c, d)])"
      "length d = length (b64 key) + 9" "takeWhile (\<lambda>c. c \<noteq> NUL) d = ''PUBKEY '' @ b64 key" by blast
  have "length d \<le> BUFFER_SIZE" using assms(4) d(2) by simp
  from recv_into_text [OF this assms(5)] obtain b where
    b: "recv_into buffer (Received d) = Some (length d, b)" "cstr b = Some (''PUBKEY '' @ b64 key)"
    unfolding d(3) by blast
  from parse_key_result [OF assms(1-3), of cp] obtain tmp where
    "client_parse_public_key cp mem n (b64 key) = map_option Some (cp (mem n) tmp)" "take n tmp = key" by blast
  with b have "peer_msg cp mem n buffer old (Received d) =
      (case cp (mem n) tmp of None \<Rightarrow> None | Some public_key \<Rightarrow> Some (b, Some public_key))"
    by (cases "cp (mem n) tmp") (simp_all add: peer_msg_def PEER_PUB_KEY_MSG_def str_starts_with_prefix)
  with d(1) \<open>take n tmp = key\<close> show ?thesis by blast
qed

text \<open>An implementation that faults unless the target was zero, and keeps the target's bytes but the first.\<close>

definition ex_copy :: "bytes \<Rightarrow> bytes \<Rightarrow> bytes option" where
  "ex_copy to from = (if set to \<subseteq> {NUL} then Some (take 1 from @ drop 1 to) else None)"

theorem peer_key_protocol_witness:
  "(\<exists>r d b. client_send_peer_key (\<lambda>_ _. 13) (\<lambda>n. replicate n NUL) 3 [CHR ''a'', NUL, CHR 0xFF] []
      \<lparr>conn_id = 0, conn_fd = 5, conn_open = 1\<rparr> = Some (r, [(5, d)]) \<and>
    peer_msg ex_copy (\<lambda>n. replicate n NUL) 3 (replicate 1501 NUL) None (Received d) = Some (b, Some [CHR ''a'', NUL, NUL])) \<and>
   (\<exists>r d. client_send_peer_key (\<lambda>_ _. 13) (\<lambda>n. replicate n (CHR ''x'')) 3 [CHR ''a'', NUL, CHR 0xFF] []
      \<lparr>conn_id = 0, conn_fd = 5, conn_open = 1\<rparr> = Some (r, [(5, d)]) \<and>
    peer_msg ex_copy (\<lambda>n. replicate n (CHR ''x'')) 3 (replicate 1501 NUL) None (Received d) = None)"
proof -
  let ?c = "\<lparr>conn_id = 0, conn_fd = 5, conn_open = 1\<rparr>"
  have m: "\<forall>n. n \<le> length (replicate n x)" for x :: char by simp
  have k: "length [CHR ''a'', NUL, CHR 0xFF] = 3" "(0 :: nat) < 3"
    "length (b64 [CHR ''a'', NUL, CHR 0xFF]) + 9 \<le> BUFFER_SIZE" "BUFFER_SIZE < length (replicate 1501 NUL)"
    by (simp_all add: BUFFER_SIZE_def)
  note run = peer_key_protocol [OF k(1,2) m k(3,4), of "\<lambda>_ _. 13" _ "[]" ?c ex_copy None]
  have "ex_copy (replicate 3 NUL) tmp = Some [CHR ''a'', NUL, NUL]" if "take 3 tmp = [CHR ''a'', NUL, CHR 0xFF]" for tmp
    using that by (cases tmp) (simp_all add: ex_copy_def numeral_eq_Suc)
  moreover have "ex_copy (replicate 3 (CHR ''x'')) tmp = None" for tmp by (simp add: ex_copy_def)
  ultimately show ?thesis using run [of NUL] run [of "CHR ''x''"] by fastforce
qed

end
