(* ===== verification/Flooding.thy ===== *)
theory Flooding
  imports Prelude
begin

text \<open>
  Flooding in general: nodes that forward a message to their neighbours when they get it for the
  first time, and the channels between them. A step delivers any of the packets on their way. The
  locale \<open>flooding\<close> states what a node must do with a packet; its facts are that flooding never
  faults, ends after a bounded number of steps, and reaches every node that is linked to a target.
\<close>

section \<open>The network\<close>

record ('s, 'p) network =
  nodes :: "nat \<Rightarrow> 's"
  packets :: "'p multiset"

text \<open>The result of a node is its new state and the packets it sends, or a fault.\<close>

definition deliver ::
  "('p \<Rightarrow> nat) \<Rightarrow> ('p \<Rightarrow> 's \<Rightarrow> ('s \<times> 'p list) option) \<Rightarrow> 'p \<Rightarrow> ('s, 'p) network \<Rightarrow> ('s, 'p) network option" where
  "deliver target handle p N = do {
     (s, ps) \<leftarrow> handle p (nodes N (target p));
     Some (N\<lparr>nodes := (nodes N)(target p := s), packets := packets N - {#p#} + mset ps\<rparr>)
   }"

inductive flood_step ::
  "('p \<Rightarrow> nat) \<Rightarrow> ('p \<Rightarrow> 's \<Rightarrow> ('s \<times> 'p list) option) \<Rightarrow> ('s, 'p) network \<Rightarrow> ('s, 'p) network option \<Rightarrow> bool"
  for target handle where
  deliver: "p \<in># packets N \<Longrightarrow> flood_step target handle N (deliver target handle p N)"

inductive_simps flood_step_iff: "flood_step target handle N r"

text \<open>The networks after \<open>k\<close> steps.\<close>

inductive flood_run ::
  "('p \<Rightarrow> nat) \<Rightarrow> ('p \<Rightarrow> 's \<Rightarrow> ('s \<times> 'p list) option) \<Rightarrow> ('s, 'p) network \<Rightarrow> ('s, 'p) network \<Rightarrow> nat \<Rightarrow> bool"
  for target handle N0 where
  start: "flood_run target handle N0 N0 0"
| step: "flood_run target handle N0 N k \<Longrightarrow> flood_step target handle N (Some N') \<Longrightarrow>
    flood_run target handle N0 N' (Suc k)"

section \<open>The argument\<close>

text \<open>The packets on their way, and those that nodes will still send.\<close>

definition work :: "nat set \<Rightarrow> ('s \<Rightarrow> bool) \<Rightarrow> (nat \<Rightarrow> 'p list) \<Rightarrow> ('s, 'p) network \<Rightarrow> nat" where
  "work A seen nbrs N = size (packets N) + (\<Sum>n \<in> A. if seen (nodes N n) then 0 else length (nbrs n))"

definition arriving :: "('p \<Rightarrow> nat) \<Rightarrow> ('s \<Rightarrow> bool) \<Rightarrow> ('s, 'p) network \<Rightarrow> 'p \<Rightarrow> bool" where
  "arriving target seen N p \<longleftrightarrow> p \<in># packets N \<or> seen (nodes N (target p))"

lemma arriving_final: "packets N = {#} \<Longrightarrow> arriving target seen N p \<longleftrightarrow> seen (nodes N (target p))"
  by (simp add: arriving_def)

lemma work_update:
  assumes "finite A" and "target p \<in> A" and "p \<in># packets N" and "seen s"
    and "ps = (if seen (nodes N (target p)) then [] else nbrs (target p))"
  shows "Suc (work A seen nbrs (N\<lparr>nodes := (nodes N)(target p := s), packets := packets N - {#p#} + mset ps\<rparr>)) =
    work A seen nbrs N"
proof -
  let ?n = "target p" and ?N = "N\<lparr>nodes := (nodes N)(target p := s), packets := packets N - {#p#} + mset ps\<rparr>"
  have split: "(\<Sum>n \<in> A. f n) = f ?n + (\<Sum>n \<in> A - {?n}. f n)" for f :: "nat \<Rightarrow> nat"
    by (rule sum.remove [OF assms(1,2)])
  have "(\<Sum>n \<in> A - {?n}. if seen (nodes ?N n) then 0 else length (nbrs n)) =
      (\<Sum>n \<in> A - {?n}. if seen (nodes N n) then 0 else length (nbrs n))" by (rule sum.cong) auto
  moreover have "Suc (size (packets N - {#p#})) = size (packets N)"
    using assms(3) by (metis insert_DiffM size_add_mset)
  ultimately show ?thesis
    using assms(4) unfolding work_def split assms(5) by simp
qed

section \<open>What a node must do\<close>

locale flooding =
  fixes target :: "'p \<Rightarrow> nat" and handle :: "'p \<Rightarrow> 's \<Rightarrow> ('s \<times> 'p list) option"
    and ok :: "nat \<Rightarrow> 's \<Rightarrow> bool" and seen :: "'s \<Rightarrow> bool" and nbrs :: "nat \<Rightarrow> 'p list"
    and well :: "'p \<Rightarrow> bool" and A :: "nat set"
  assumes handled: "well p \<Longrightarrow> ok (target p) s \<Longrightarrow> \<exists>s'. handle p s =
      Some (s', if seen s then [] else nbrs (target p)) \<and> ok (target p) s' \<and> seen s'"
    and well_target: "well p \<Longrightarrow> target p \<in> A"
    and nbrs_well: "ok n s \<Longrightarrow> p \<in> set (nbrs n) \<Longrightarrow> well p"
begin

lemma deliver_result:
  assumes p: "p \<in># packets N" and ok: "\<forall>n \<in> A. ok n (nodes N n)" and well: "\<forall>p \<in># packets N. well p"
    and A: "finite A"
  shows "\<exists>N'. deliver target handle p N = Some N' \<and> (\<forall>n \<in> A. ok n (nodes N' n)) \<and> (\<forall>p \<in># packets N'. well p) \<and>
    Suc (work A seen nbrs N') = work A seen nbrs N \<and>
    (\<forall>q. arriving target seen N q \<longrightarrow> arriving target seen N' q) \<and>
    (\<forall>n. seen (nodes N' n) \<longrightarrow> seen (nodes N n) \<or> (\<forall>q \<in> set (nbrs n). arriving target seen N' q))"
proof -
  have wp: "well p" and n: "target p \<in> A" using p well well_target by auto
  let ?n = "target p" and ?ps = "if seen (nodes N (target p)) then [] else nbrs (target p)"
  from handled [OF wp, of "nodes N ?n"] ok n obtain s' where
    s': "handle p (nodes N ?n) = Some (s', ?ps)" "ok ?n s'" "seen s'" by blast
  let ?N = "N\<lparr>nodes := (nodes N)(?n := s'), packets := packets N - {#p#} + mset ?ps\<rparr>"
  have "deliver target handle p N = Some ?N" using s'(1) by (simp add: deliver_def)
  moreover have "\<forall>n \<in> A. ok n (nodes ?N n)" using ok s'(2) by simp
  moreover have "well q" if "q \<in># packets ?N" for q
  proof -
    from that consider "q \<in># packets N" | "q \<in> set (nbrs ?n)" by (auto split: if_splits dest: in_diffD)
    then show ?thesis using well nbrs_well [OF s'(2)] by cases blast+
  qed
  moreover have "Suc (work A seen nbrs ?N) = work A seen nbrs N"
    by (rule work_update [where target = target and p = p and seen = seen and s = s', OF A n p s'(3) refl])
  moreover have "arriving target seen ?N q" if "arriving target seen N q" for q
    using that s'(3) unfolding arriving_def by (cases "q = p") (auto simp: in_diff_count)
  moreover have "seen (nodes N m) \<or> (\<forall>q \<in> set (nbrs m). arriving target seen ?N q)" if "seen (nodes ?N m)" for m
    using that by (cases "m = ?n") (auto simp: arriving_def)
  ultimately show ?thesis by blast
qed

lemma step_result:
  assumes "flood_step target handle N r" and "\<forall>n \<in> A. ok n (nodes N n)" and "\<forall>p \<in># packets N. well p"
    and "finite A"
  shows "\<exists>N'. r = Some N' \<and> (\<forall>n \<in> A. ok n (nodes N' n)) \<and> (\<forall>p \<in># packets N'. well p) \<and>
    Suc (work A seen nbrs N') = work A seen nbrs N \<and>
    (\<forall>q. arriving target seen N q \<longrightarrow> arriving target seen N' q) \<and>
    (\<forall>n. seen (nodes N' n) \<longrightarrow> seen (nodes N n) \<or> (\<forall>q \<in> set (nbrs n). arriving target seen N' q))"
  using assms(1) deliver_result [OF _ assms(2-4)] unfolding flood_step_iff by metis

text \<open>Along a run: nodes stay in order, work decreases, and what was sent is on its way or has arrived.\<close>

lemma run_result:
  assumes "flood_run target handle N0 N k" and "\<forall>n \<in> A. ok n (nodes N0 n)" and "\<forall>p \<in># packets N0. well p"
    and "finite A" and "\<forall>n \<in> A. \<not> seen (nodes N0 n)"
  shows "(\<forall>n \<in> A. ok n (nodes N n)) \<and> (\<forall>p \<in># packets N. well p) \<and>
    work A seen nbrs N + k = work A seen nbrs N0 \<and>
    (\<forall>q \<in># packets N0. arriving target seen N q) \<and>
    (\<forall>n \<in> A. seen (nodes N n) \<longrightarrow> (\<forall>q \<in> set (nbrs n). arriving target seen N q))"
  using assms(1)
proof induction
  case start
  then show ?case using assms(2-5) by (simp add: arriving_def)
next
  case (step N k N')
  then have IH: "\<forall>n \<in> A. ok n (nodes N n)" "\<forall>p \<in># packets N. well p" "work A seen nbrs N + k = work A seen nbrs N0"
    "\<forall>q \<in># packets N0. arriving target seen N q"
    "\<forall>n \<in> A. seen (nodes N n) \<longrightarrow> (\<forall>q \<in> set (nbrs n). arriving target seen N q)" by blast+
  from step_result [OF step(2) IH(1,2) assms(4)] have N': "\<forall>n \<in> A. ok n (nodes N' n)" "\<forall>p \<in># packets N'. well p"
    "Suc (work A seen nbrs N') = work A seen nbrs N"
    "\<And>q. arriving target seen N q \<Longrightarrow> arriving target seen N' q"
    "\<And>n. seen (nodes N' n) \<Longrightarrow> seen (nodes N n) \<or> (\<forall>q \<in> set (nbrs n). arriving target seen N' q)" by auto
  from N'(3) IH(3) have "work A seen nbrs N' + Suc k = work A seen nbrs N0" by simp
  with N'(1,2) show ?case using IH(4,5) N'(4,5) by blast
qed

text \<open>When no packet is left, everything linked to a first target has got the message.\<close>

lemma run_reaches:
  assumes "flood_run target handle N0 N k" and "\<forall>n \<in> A. ok n (nodes N0 n)" and "\<forall>p \<in># packets N0. well p"
    and "finite A" and "\<forall>n \<in> A. \<not> seen (nodes N0 n)" and "packets N = {#}"
    and "p \<in># packets N0" and "(target p, m) \<in> {(n, target q) | n q. q \<in> set (nbrs n)}\<^sup>*"
  shows "m \<in> A \<and> seen (nodes N m)"
  using assms(8)
proof (induction rule: rtrancl_induct)
  case base
  from run_result [OF assms(1-5)] assms(3,6,7) well_target show ?case by (simp add: arriving_final)
next
  case (step n m)
  then obtain q where q: "q \<in> set (nbrs n)" "m = target q" by blast
  moreover from step(3) nbrs_well [OF _ q(1)] assms(2) have "well q" by blast
  moreover have "arriving target seen N q" using run_result [OF assms(1-5)] step(3) q(1) by blast
  ultimately show ?case using assms(6) well_target by (simp add: arriving_final)
qed

text \<open>Every run can be continued until no packet is left.\<close>

lemma run_completes:
  assumes "\<forall>n \<in> A. ok n (nodes N0 n)" and "\<forall>p \<in># packets N0. well p" and "finite A"
    and "\<forall>n \<in> A. \<not> seen (nodes N0 n)"
  shows "flood_run target handle N0 N k \<Longrightarrow> \<exists>N' k'. flood_run target handle N0 N' k' \<and> packets N' = {#}"
proof (induction "work A seen nbrs N" arbitrary: N k)
  case (0 N k)
  then have "packets N = {#}" by (simp add: work_def)
  with 0 show ?case by blast
next
  case (Suc w N k)
  show ?case
  proof (cases "packets N = {#}")
    case False
    then obtain p where "p \<in># packets N" by blast
    then have step: "flood_step target handle N (deliver target handle p N)" by (rule flood_step.deliver)
    from run_result [OF Suc.prems assms] have "\<forall>n \<in> A. ok n (nodes N n)" "\<forall>p \<in># packets N. well p" by blast+
    from step_result [OF step this assms(3)] obtain N' where
      "deliver target handle p N = Some N'" "Suc (work A seen nbrs N') = work A seen nbrs N" by blast
    with Suc.hyps(1) [of N' "Suc k"] Suc.hyps(2) flood_run.step [OF Suc.prems] step show ?thesis by simp
  qed (use Suc.prems in blast)
qed

end

end
