(* ===== verification/Network.thy ===== *)
theory Network
  imports Delivery Flooding
begin

text \<open>
  A network of clients: what becomes of one message that is sent to some of them. Each client is the
  model of \<open>client_handle\<close>; what it sends on a socket is delivered, whole and some time, to a receive
  buffer of the client at the other end.

  As the clients' table of seen messages breaks when one connection brings a second message
  (\<open>overwritten_key_forgotten\<close>), the buffers of the network hold no other message in the table.
\<close>

section \<open>The clients and their connections\<close>

text \<open>A packet: the client it goes to, the receive buffer there, and the bytes.\<close>

type_synonym packet = "nat \<times> nat \<times> bytes"

text \<open>
  The environments and first states of the clients, their peer lists, where the sockets lead to
  (client and buffer; \<open>None\<close> for a peer that is not connected), and the receive buffers.
\<close>

record ('t, 'kt, 'c, 'pub, 'priv) mesh =
  me_nodes :: "nat set"
  me_env :: "nat \<Rightarrow> ('t, 'kt, 'c, 'pub, 'priv) cenv"
  me_start :: "nat \<Rightarrow> ('t, 'kt, 'c) client"
  me_peers :: "nat \<Rightarrow> nat list"
  me_wire :: "nat \<Rightarrow> int \<Rightarrow> (nat \<times> nat) option"
  me_bufs :: "nat \<Rightarrow> nat set"

definition on_wire :: "(int \<Rightarrow> (nat \<times> nat) option) \<Rightarrow> (int \<times> bytes) list \<Rightarrow> packet list" where
  "on_wire w log = List.map_filter (\<lambda>(fd, d). map_option (\<lambda>(m, k). (m, k, d)) (w fd)) log"

text \<open>A client gets a packet: it runs \<open>conn_msg\<close>, and what that sends is on the wire.\<close>

definition client_gets ::
  "('t, 'kt, 'c, 'pub, 'priv) mesh \<Rightarrow> packet \<Rightarrow> ('t, 'kt, 'c) client \<Rightarrow>
     (('t, 'kt, 'c) client \<times> packet list) option" where
  "client_gets M p s = (case p of (n, k, d) \<Rightarrow> do {
     s' \<leftarrow> conn_msg (me_env M n) k s (Received d);
     Some (s', on_wire (me_wire M n) (drop (length (ps_sent (cs_peers s))) (ps_sent (cs_peers s'))))
   })"

section \<open>What holds of a client\<close>

definition sends :: "('t, 'kt, 'c, 'pub, 'priv) mesh \<Rightarrow> nat \<Rightarrow> bytes \<Rightarrow> (int \<times> bytes) list" where
  "sends M n d = flood (cs_peers (me_start M n)) (me_peers M n) d"

definition links :: "('t, 'kt, 'c, 'pub, 'priv) mesh \<Rightarrow> bytes \<Rightarrow> nat \<Rightarrow> packet list" where
  "links M d n = on_wire (me_wire M n) (sends M n d)"

definition well :: "('t, 'kt, 'c, 'pub, 'priv) mesh \<Rightarrow> bytes \<Rightarrow> packet \<Rightarrow> bool" where
  "well M d p \<longleftrightarrow> (case p of (n, k, d') \<Rightarrow> n \<in> me_nodes M \<and> k \<in> me_bufs M n \<and> d' = d)"

definition has_seen :: "('t \<Rightarrow> message_hash entries) \<Rightarrow> bytes \<Rightarrow> ('t, 'kt, 'c) client \<Rightarrow> bool" where
  "has_seen ents d s \<longleftrightarrow> known (ents (cs_seen s)) d \<noteq> None"

text \<open>The table is in order, and the buffers have room and hold no other message of the table.\<close>

definition table_ok ::
  "('t, message_hash) ghash \<Rightarrow> ('t \<Rightarrow> message_hash entries) \<Rightarrow> nat set \<Rightarrow> bytes \<Rightarrow> ('t, 'kt, 'c) client \<Rightarrow> bool" where
  "table_ok G ents K d s \<longleftrightarrow> ghash_ok G ents \<and> intact (cs_mem s) (ents (cs_seen s)) \<and>
     (\<forall>k \<in> K. (\<exists>b. cs_mem s k = Some b \<and> BUFFER_SIZE < length b) \<and>
       (\<forall>x v. (k, x, v) \<in> set (ents (cs_seen s)) \<longrightarrow> x = d))"

text \<open>
  A client of the network at some time: it has sent and shown what it had before and, if it has seen the
  message, the message to each open peer, and once what the message decodes to in some context.
\<close>

definition node_ok ::
  "('t, 'kt, 'c, 'pub, 'priv) mesh \<Rightarrow> ('t \<Rightarrow> message_hash entries) \<Rightarrow> bytes \<Rightarrow> nat \<Rightarrow> ('t, 'kt, 'c) client \<Rightarrow> bool" where
  "node_ok M ents d n s \<longleftrightarrow>
     table_ok (ce_hash (me_env M n)) ents (me_bufs M n) d s \<and>
     NUL \<notin> set d \<and> length d \<le> BUFFER_SIZE \<and> readable (me_env M n) d \<and>
     peers_ok (cs_peers (me_start M n)) (me_peers M n) \<and> (\<forall>p \<in> set (links M d n). well M d p) \<and>
     cs_peers s = (cs_peers (me_start M n))\<lparr>ps_sent := ps_sent (cs_peers (me_start M n)) @
       (if has_seen ents d s then sends M n d else [])\<rparr> \<and>
     (\<exists>out. cs_shown s = cs_shown (me_start M n) @ out \<and>
       (if has_seen ents d s then out \<in> outputs (me_env M n) d else out = []))"

lemma table_ok_again:
  assumes "table_ok G ents K d s" and "k \<in> K" and "cstr b = Some d" and "BUFFER_SIZE < length b"
  shows "table_ok G ents K d (s\<lparr>cs_mem := (cs_mem s)(k \<mapsto> b)\<rparr>)"
proof -
  from assms(1,2) have "intact (cs_mem s) (ents (cs_seen s))" "\<forall>x v. (k, x, v) \<in> set (ents (cs_seen s)) \<longrightarrow> x = d"
    by (auto simp: table_ok_def)
  then have "intact ((cs_mem s)(k \<mapsto> b)) (ents (cs_seen s))"
    by (rule intact_same) (simp_all add: text_at_fresh assms(3))
  with assms show ?thesis by (auto simp: table_ok_def)
qed

lemma unseen_key:
  assumes "table_ok G ents K d s" and "k \<in> K" and "\<not> has_seen ents d s"
  shows "k \<notin> fst ` set (ents (cs_seen s))"
  using assms unfolding table_ok_def has_seen_def by (force simp: known_None)

lemma table_ok_fresh:
  assumes ok: "table_ok (ce_hash E) ents K d s" and k: "k \<in> K" and new: "\<not> has_seen ents d s"
    and b: "cstr b = Some d" "BUFFER_SIZE < length b"
  shows "table_ok (ce_hash E) ents K d (relayed E k b d as s) \<and> has_seen ents d (relayed E k b d as s)"
proof -
  let ?mem = "(cs_mem s)(k \<mapsto> b)"
  from ok have G: "ghash_ok (ce_hash E) ents" and i: "intact (cs_mem s) (ents (cs_seen s))" by (simp_all add: table_ok_def)
  note fresh = intact_other [OF i unseen_key [OF ok k new], of "Some b"]
  have t: "text_at ?mem k = Some d" by (simp add: text_at_fresh b)
  from ghash_insert [OF G fresh t, of "entry_for E d"] new have
    ents: "ents (g_insert (ce_hash E) (cs_seen s) ?mem k (entry_for E d)) = (k, d, entry_for E d) # ents (cs_seen s)"
    by (simp add: has_seen_def)
  from ok b(2) G fresh t show ?thesis by (auto simp: table_ok_def has_seen_def relayed_def ents)
qed

lemma has_seen_simps [simp]:
  "has_seen ents d (s\<lparr>cs_mem := m\<rparr>) = has_seen ents d s"
  "has_seen ents d (s\<lparr>cs_ctx := c\<rparr>) = has_seen ents d s" "has_seen ents d (s\<lparr>cs_shown := l\<rparr>) = has_seen ents d s"
  by (simp_all add: has_seen_def)

lemma table_ok_simps [simp]:
  "table_ok G ents K d (s\<lparr>cs_ctx := c\<rparr>) = table_ok G ents K d s"
  "table_ok G ents K d (s\<lparr>cs_shown := l\<rparr>) = table_ok G ents K d s"
  by (simp_all add: table_ok_def)

section \<open>A client in the network floods\<close>

lemma client_gets_result:
  assumes "well M d p" and ok: "node_ok M ents d (fst p) s"
  shows "\<exists>s'. client_gets M p s = Some (s', if has_seen ents d s then [] else links M d (fst p)) \<and>
    node_ok M ents d (fst p) s' \<and> has_seen ents d s'"
proof -
  from assms(1) obtain n k where p: "p = (n, k, d)" and k: "k \<in> me_bufs M n" by (auto simp: well_def)
  note ok = ok [unfolded p fst_conv node_ok_def]
  let ?E = "me_env M n" and ?as = "me_peers M n"
  from ok have tab: "table_ok (ce_hash ?E) ents (me_bufs M n) d s" and d: "NUL \<notin> set d" "length d \<le> BUFFER_SIZE"
    and rd: "readable ?E d" and ps: "peers_ok (cs_peers s) ?as" by simp_all
  from tab k have tabs: "ghash_ok (ce_hash ?E) ents" "intact (cs_mem s) (ents (cs_seen s))"
    "\<forall>x v. (k, x, v) \<in> set (ents (cs_seen s)) \<longrightarrow> x = d" and "\<exists>b. cs_mem s k = Some b \<and> BUFFER_SIZE < length b"
    by (auto simp: table_ok_def)
  then obtain buffer where buf: "cs_mem s k = Some buffer" "BUFFER_SIZE < length buffer" by blast
  show ?thesis
  proof (cases "has_seen ents d s")
    case True
    from conn_msg_again [OF tabs(1,2) _ tabs(3) _ d(2,1) ps] buf True obtain b where
      b: "cstr b = Some d" "BUFFER_SIZE < length b"
        "conn_msg ?E k s (Received d) = Some (s\<lparr>cs_mem := (cs_mem s)(k \<mapsto> b)\<rparr>)" by (auto simp: has_seen_def)
    from table_ok_again [OF tab k b(1,2)] ok True b(3) show ?thesis
      by (auto simp: p client_gets_def on_wire_def node_ok_def)
  next
    case False
    have "g_lookup (ce_hash ?E) (cs_seen s) mem d = None" if "\<forall>a. a \<noteq> k \<longrightarrow> mem a = cs_mem s a" for mem
      unfolding ghash_lookup [OF tabs(1) intact_but [OF tabs(2) that unseen_key [OF tab k False]]]
      using False by (simp add: has_seen_def)
    from conn_msg_fresh [OF buf d(2,1) ps this] obtain b where
      b: "cstr b = Some d" "BUFFER_SIZE < length b" "text_at (cs_mem (relayed ?E k b d ?as s)) k = Some d"
        "conn_msg ?E k s (Received d) = client_read_msg ?E k (relayed ?E k b d ?as s)" by blast
    let ?r = "relayed ?E k b d ?as s"
    from read_outputs [OF rd b(3)] obtain ctx out where out: "out \<in> outputs ?E d" and
      run: "conn_msg ?E k s (Received d) = Some (?r\<lparr>cs_ctx := ctx, cs_shown := cs_shown ?r @ out\<rparr>)"
      unfolding b(4) by blast
    have r: "cs_peers ?r = (cs_peers s)\<lparr>ps_sent := ps_sent (cs_peers s) @ sends M n d\<rparr>"
      "cs_shown ?r = cs_shown (me_start M n)"
      using ok False by (simp_all add: relayed_def sends_def)
    from table_ok_fresh [OF tab k False b(1,2), of ?as] ok False r run out show ?thesis
      by (simp add: p client_gets_def links_def node_ok_def)
  qed
qed

interpretation net: flooding fst "client_gets M" "node_ok M ents d" "has_seen ents d" "links M d" "well M d" "me_nodes M"
  for M ents d
proof
  show "\<exists>s'. client_gets M p s = Some (s', if has_seen ents d s then [] else links M d (fst p)) \<and>
      node_ok M ents d (fst p) s' \<and> has_seen ents d s'" if "well M d p" "node_ok M ents d (fst p) s" for p s
    using that by (rule client_gets_result)
qed (auto simp: well_def node_ok_def)

section \<open>The start of the network\<close>

text \<open>
  Everything a client needs but the message: the memory it asks for, OpenSSL within its bounds (whatever the
  private key), a table of seen messages in order, receive buffers with room that are no keys of the table, and sockets that
  lead to receive buffers. \<open>linked\<close> relates a client to its open, connected peers.
\<close>

definition in_order ::
  "('t, 'kt, 'c, 'pub, 'priv) mesh \<Rightarrow> ('t \<Rightarrow> message_hash entries) \<Rightarrow> nat \<Rightarrow> bool" where
  "in_order M ents n \<longleftrightarrow> (let s = me_start M n in
     (\<forall>i. i \<le> length (ce_malloc (me_env M n) i)) \<and> open_bounded (ce_evp (me_env M n)) (ce_private (me_env M n)) \<and>
     ghash_ok (ce_hash (me_env M n)) ents \<and> intact (cs_mem s) (ents (cs_seen s)) \<and>
     peers_ok (cs_peers s) (me_peers M n) \<and>
     (\<forall>k \<in> me_bufs M n. k \<notin> fst ` set (ents (cs_seen s)) \<and> (\<exists>b. cs_mem s k = Some b \<and> BUFFER_SIZE < length b)) \<and>
     (\<forall>a \<in> set (me_peers M n). \<forall>m k. open_con (peer_at (cs_peers s) a) \<noteq> 0 \<and>
       me_wire M n (peer_fd (peer_at (cs_peers s) a)) = Some (m, k) \<longrightarrow> m \<in> me_nodes M \<and> k \<in> me_bufs M m))"

definition linked :: "('t, 'kt, 'c, 'pub, 'priv) mesh \<Rightarrow> (nat \<times> nat) set" where
  "linked M = {(n, m). \<exists>a \<in> set (me_peers M n). \<exists>k. open_con (peer_at (cs_peers (me_start M n)) a) \<noteq> 0 \<and>
     me_wire M n (peer_fd (peer_at (cs_peers (me_start M n)) a)) = Some (m, k)}"

definition network_of :: "('t, 'kt, 'c, 'pub, 'priv) mesh \<Rightarrow> packet list \<Rightarrow> (('t, 'kt, 'c) client, packet) network" where
  "network_of M ps = \<lparr>nodes = me_start M, packets = mset ps\<rparr>"

lemma set_on_wire: "(m, k, d) \<in> set (on_wire w log) \<longleftrightarrow> (\<exists>fd. (fd, d) \<in> set log \<and> w fd = Some (m, k))"
  unfolding on_wire_def List.map_filter_def by (force simp: image_iff)

lemma links_iff: "(m, k, d') \<in> set (links M d n) \<longleftrightarrow> d' = d \<and> (\<exists>a \<in> set (me_peers M n).
    open_con (peer_at (cs_peers (me_start M n)) a) \<noteq> 0 \<and>
    me_wire M n (peer_fd (peer_at (cs_peers (me_start M n)) a)) = Some (m, k))"
  by (auto simp: links_def set_on_wire sends_def flood_def)

lemma linked_iff: "(n, m) \<in> linked M \<longleftrightarrow> (\<exists>k. (m, k, d) \<in> set (links M d n))"
  unfolding linked_def links_iff by blast

lemma linked_links: "linked M = {(n, fst q) | n q. q \<in> set (links M d n)}"
proof -
  have "(\<exists>k. (m, k, d) \<in> set (links M d n)) \<longleftrightarrow> (\<exists>q \<in> set (links M d n). m = fst q)" for n m
  proof
    assume "\<exists>q \<in> set (links M d n). m = fst q"
    then obtain k d' where "(m, k, d') \<in> set (links M d n)" by auto
    moreover from this have "d' = d" by (simp add: links_iff)
    ultimately show "\<exists>k. (m, k, d) \<in> set (links M d n)" by blast
  qed force
  note step = linked_iff [of _ _ M d, unfolded this]
  show ?thesis
  proof (rule set_eqI)
    fix x :: "nat \<times> nat"
    obtain n m where "x = (n, m)" by (cases x)
    with step [of n m] show "x \<in> linked M \<longleftrightarrow> x \<in> {(n, fst q) | n q. q \<in> set (links M d n)}" by blast
  qed
qed

lemma in_order_node:
  assumes "in_order M ents n" and "\<not> has_seen ents d (me_start M n)" and "well_formed d" and "length d \<le> BUFFER_SIZE"
  shows "node_ok M ents d n (me_start M n)"
proof -
  note o = assms(1) [unfolded in_order_def Let_def]
  have "table_ok (ce_hash (me_env M n)) ents (me_bufs M n) d (me_start M n)"
    using o unfolding table_ok_def by (force simp: image_iff)
  moreover have "well M d p" if "p \<in> set (links M d n)" for p
  proof -
    obtain m k d' where p: "p = (m, k, d')" by (cases p)
    from that [unfolded p links_iff] o show ?thesis by (auto simp: p well_def)
  qed
  moreover have "readable (me_env M n) d" by (rule well_formed_readable [OF assms(3)]) (use o in blast)+
  ultimately show ?thesis using o assms(2,4) well_formed_no_NUL [OF assms(3)] by (simp add: node_ok_def)
qed

text \<open>What a client has sent and shown, compared with the start of the network.\<close>

definition effect :: "('t, 'kt, 'c, 'pub, 'priv) mesh \<Rightarrow> nat \<Rightarrow> ('t, 'kt, 'c) client \<Rightarrow> (int \<times> bytes) list \<Rightarrow> string list \<Rightarrow> bool" where
  "effect M n s sent shown \<longleftrightarrow> ps_sent (cs_peers s) = ps_sent (cs_peers (me_start M n)) @ sent \<and>
     cs_shown s = cs_shown (me_start M n) @ shown"

lemma node_effect:
  assumes "node_ok M ents d n s"
  shows "\<exists>out. (if has_seen ents d s then out \<in> outputs (me_env M n) d else out = []) \<and>
    effect M n s (if has_seen ents d s then sends M n d else []) out"
  using assms by (auto simp: effect_def node_ok_def)

lemma start_ok:
  assumes "\<forall>n \<in> me_nodes M. in_order M ents n \<and> \<not> has_seen ents d (me_start M n)"
    and "well_formed d" "length d \<le> BUFFER_SIZE" and "\<forall>p \<in> set ps. well M d p"
  shows "\<forall>n \<in> me_nodes M. node_ok M ents d n (nodes (network_of M ps) n)"
    and "\<forall>p \<in># packets (network_of M ps). well M d p"
    and "\<forall>n \<in> me_nodes M. \<not> has_seen ents d (nodes (network_of M ps) n)"
proof -
  have "node_ok M ents d n (me_start M n)" if "n \<in> me_nodes M" for n
    using assms(1) that by (intro in_order_node assms(2,3)) blast+
  then show "\<forall>n \<in> me_nodes M. node_ok M ents d n (nodes (network_of M ps) n)"
    "\<forall>p \<in># packets (network_of M ps). well M d p" "\<forall>n \<in> me_nodes M. \<not> has_seen ents d (nodes (network_of M ps) n)"
    using assms(1,4) by (simp_all add: network_of_def)
qed

lemma flood_result:
  assumes fin: "finite (me_nodes M)"
    and ord: "\<forall>n \<in> me_nodes M. in_order M ents n \<and> \<not> has_seen ents d (me_start M n)"
    and d: "well_formed d" "length d \<le> BUFFER_SIZE" and ps: "\<forall>p \<in> set ps. well M d p"
    and run: "flood_run fst (client_gets M) (network_of M ps) N k"
  shows "\<not> flood_step fst (client_gets M) N None \<and>
    (packets N \<noteq> {#} \<longrightarrow> (\<exists>N'. flood_step fst (client_gets M) N (Some N'))) \<and>
    k \<le> length ps + (\<Sum>n \<in> me_nodes M. length (links M d n)) \<and>
    (\<forall>n \<in> me_nodes M. effect M n (nodes N n) [] [] \<or>
      (\<exists>out \<in> outputs (me_env M n) d. effect M n (nodes N n) (sends M n d) out)) \<and>
    (packets N = {#} \<longrightarrow> (\<forall>p \<in> set ps. \<forall>m. (fst p, m) \<in> (linked M)\<^sup>* \<longrightarrow>
      (\<exists>out \<in> outputs (me_env M m) d. effect M m (nodes N m) (sends M m d) out)))"
proof -
  let ?N0 = "network_of M ps"
  note start = start_ok [OF ord d ps]
  note net = net.run_result [OF run start(1,2) fin start(3)]
  from net have ok: "\<forall>n \<in> me_nodes M. node_ok M ents d n (nodes N n)" "\<forall>p \<in># packets N. well M d p"
    and w: "work (me_nodes M) (has_seen ents d) (links M d) N + k = work (me_nodes M) (has_seen ents d) (links M d) ?N0"
    by blast+
  have steps: "\<exists>N'. r = Some N'" if "flood_step fst (client_gets M) N r" for r
    using net.step_result [OF that ok fin] by blast
  then have "\<not> flood_step fst (client_gets M) N None" by blast
  moreover have "\<exists>N'. flood_step fst (client_gets M) N (Some N')" if "packets N \<noteq> {#}"
  proof -
    from that obtain p where "p \<in># packets N" by blast
    then have "flood_step fst (client_gets M) N (deliver fst (client_gets M) p N)" by (rule flood_step.deliver)
    with steps show ?thesis by metis
  qed
  moreover have "(\<Sum>n \<in> me_nodes M. if has_seen ents d (nodes ?N0 n) then 0 else length (links M d n)) =
      (\<Sum>n \<in> me_nodes M. length (links M d n))" using start(3) by (intro sum.cong) auto
  then have "k \<le> length ps + (\<Sum>n \<in> me_nodes M. length (links M d n))"
    using w by (simp add: work_def [of _ _ _ ?N0]) (simp add: network_of_def)
  moreover have "effect M n (nodes N n) [] [] \<or> (\<exists>out \<in> outputs (me_env M n) d. effect M n (nodes N n) (sends M n d) out)"
    if "n \<in> me_nodes M" for n
    using node_effect [OF ok(1) [rule_format, OF that]] by (auto split: if_splits)
  moreover have "\<exists>out \<in> outputs (me_env M m) d. effect M m (nodes N m) (sends M m d) out"
    if "packets N = {#}" "p \<in> set ps" "(fst p, m) \<in> (linked M)\<^sup>*" for p m
  proof -
    have "p \<in># packets ?N0" using that(2) by (simp add: network_of_def)
    from net.run_reaches [OF run start(1,2) fin start(3) that(1) this that(3) [unfolded linked_links [of M d]]]
    have "m \<in> me_nodes M" "has_seen ents d (nodes N m)" by blast+
    with node_effect [OF ok(1) [rule_format, OF this(1)]] show ?thesis by auto
  qed
  ultimately show ?thesis by blast
qed

lemma flood_ends:
  assumes "finite (me_nodes M)" and "\<forall>n \<in> me_nodes M. in_order M ents n \<and> \<not> has_seen ents d (me_start M n)"
    and "well_formed d" "length d \<le> BUFFER_SIZE" and "\<forall>p \<in> set ps. well M d p"
  shows "\<exists>N k. flood_run fst (client_gets M) (network_of M ps) N k \<and> packets N = {#}"
  using net.run_completes [OF start_ok(1,2) [OF assms(2-5)] assms(1) start_ok(3) [OF assms(2-5)] flood_run.start] .

section \<open>Properties\<close>

text \<open>
  C2: flooding: a message as \<open>msg_encrypt_encode\<close> makes them (\<open>well_formed\<close>, with padding or without, of at most 1500 characters)
  that no client of a network has seen, with packets on their way to some of the clients, floods the
  network, in whatever order packets are delivered: no delivery faults; while a packet is left a
  delivery is possible, there are at most as many deliveries as packets at the start and links,
  and some run delivers all; every client sends the message to each open peer and shows what it decodes to (at most
  one text) once or not at all, and when no packet is left every client linked to a first receiver
  has. Each client is \<open>in_order\<close>: its table of seen messages is in order and its receive buffers
  hold no other key of it.
\<close>

theorem flood_complete:
  assumes "finite (me_nodes M)" and "\<forall>n \<in> me_nodes M. in_order M ents n \<and> \<not> has_seen ents d (me_start M n)"
    and "well_formed d" and "length d \<le> BUFFER_SIZE" and "\<forall>p \<in> set ps. well M d p"
  shows "(\<exists>N k. flood_run fst (client_gets M) (network_of M ps) N k \<and> packets N = {#}) \<and>
    (\<forall>N k. flood_run fst (client_gets M) (network_of M ps) N k \<longrightarrow>
      \<not> flood_step fst (client_gets M) N None \<and>
      (packets N \<noteq> {#} \<longrightarrow> (\<exists>N'. flood_step fst (client_gets M) N (Some N'))) \<and>
      k \<le> length ps + (\<Sum>n \<in> me_nodes M. length (links M d n)) \<and>
      (\<forall>n \<in> me_nodes M. effect M n (nodes N n) [] [] \<or>
        (\<exists>out \<in> outputs (me_env M n) d. length out \<le> 1 \<and> effect M n (nodes N n) (sends M n d) out)) \<and>
      (packets N = {#} \<longrightarrow> (\<forall>p \<in> set ps. \<forall>m. (fst p, m) \<in> (linked M)\<^sup>* \<longrightarrow>
        (\<exists>out \<in> outputs (me_env M m) d. length out \<le> 1 \<and> effect M m (nodes N m) (sends M m d) out))))"
  using flood_ends [OF assms] flood_result [OF assms] outputs_short by blast

text \<open>Two clients that are peers of each other, each connected to buffer 1 of the other.\<close>

definition ex_mesh ::
  "pstate \<Rightarrow> nat list \<Rightarrow>
     ((nat \<times> string \<times> message_hash) list, (nat \<times> string \<times> unit rsa_key) list, bytes, unit, unit) mesh" where
  "ex_mesh ps as = \<lparr>me_nodes = {0, 1}, me_env = (\<lambda>_. ex_cenv), me_start = (\<lambda>_. ex_client_at ps),
     me_peers = (\<lambda>_. as), me_wire = (\<lambda>n fd. if fd = 7 then Some (1 - n, 1) else None), me_bufs = (\<lambda>_. {1, 2})\<rparr>"

lemma ex_mesh_simps:
  "me_nodes (ex_mesh ps as) = {0, 1}" "me_env (ex_mesh ps as) n = ex_cenv" "me_start (ex_mesh ps as) n = ex_client_at ps"
  by (simp_all add: ex_mesh_def)

lemma ex_mesh_nodes:
  assumes "peers_ok ps as"
  shows "finite (me_nodes (ex_mesh ps as))" and "in_order (ex_mesh ps as) (\<lambda>t. t) n"
    and "\<forall>n \<in> me_nodes (ex_mesh ps as). in_order (ex_mesh ps as) (\<lambda>t. t) n \<and>
      \<not> has_seen (\<lambda>t. t) d (me_start (ex_mesh ps as) n)"
proof -
  show "in_order (ex_mesh ps as) (\<lambda>t. t) n" for n
    using assms glib_ghash_ok ex_malloc ex_open_bounded
    by (auto simp: in_order_def ex_mesh_def length_ex_malloc BUFFER_SIZE_def split: if_splits)
  then show "\<forall>n \<in> me_nodes (ex_mesh ps as). in_order (ex_mesh ps as) (\<lambda>t. t) n \<and>
      \<not> has_seen (\<lambda>t. t) d (me_start (ex_mesh ps as) n)" by (simp add: has_seen_def ex_mesh_simps)
qed (simp add: ex_mesh_def)

lemma ex_linked:
  assumes "flood ps as = (\<lambda>d. [(7, d)])"
  shows "(0, 1) \<in> linked (ex_mesh ps as)"
proof -
  have "(1, 1, ''d'') \<in> set (links (ex_mesh ps as) ''d'' 0)"
    by (simp add: links_def sends_def ex_mesh_def assms on_wire_def)
  then show ?thesis unfolding linked_iff [of _ _ _ "''d''"] by blast
qed

lemma ex_sendable: "wire_size (seal_len ''hi'') (EVP_PKEY_size (ce_evp ex_cenv) ()) < MESSAGE_LENGTH"
  "CHR '':'' \<notin> set ''bob''" "NUL \<notin> set ''hi''" "\<forall>n. n \<le> length (ce_malloc ex_cenv n)" "owns_key ex_cenv () ex_cenv"
  using wire_size_4096 [of "''hi''"] ex_malloc ex_evp_ok by (simp_all add: ex_evp_def owns_key_def)

lemma ex_sends:
  assumes "peers_ok ps as" and "flood ps as = (\<lambda>d. [(7, d)])"
  shows "\<exists>s' data. input_send_msg ex_cenv 3 (ex_client_at ps) (''bob'' @ CHR '':'' # ''hi'') = Some (0, s') \<and>
    ps_sent (cs_peers s') = ps_sent ps @ [(7, data)] \<and> well_formed data \<and> length data \<le> BUFFER_SIZE \<and>
    reads_as ex_cenv data [''hi'']"
proof -
  from ex_sent [OF assms(1)] obtain s' where
    s': "input_send_msg ex_cenv 3 (ex_client_at ps) (''bob'' @ CHR '':'' # ''hi'') = Some (0, s')" ..
  have pre: "peers_ok (cs_peers (ex_client_at ps)) as" "evp_ok (ce_evp ex_cenv) () (ce_private ex_cenv)"
    using assms(1) ex_evp_ok by simp_all
  from sent_message [OF ex_sendable(4,1,2,3) ex_bob_key pre(1) s' pre(2)] ex_sendable(5) obtain data where
    "ps_sent (cs_peers s') = ps_sent (cs_peers (ex_client_at ps)) @ flood (cs_peers (ex_client_at ps)) as data"
    "well_formed data" "length data \<le> BUFFER_SIZE" "reads_as ex_cenv data [''hi'']" by blast
  with s' assms(2) show ?thesis by auto
qed

theorem flood_complete_witness:
  "\<exists>ps as d N k. flood_run fst (client_gets (ex_mesh ps as)) (network_of (ex_mesh ps as) [(0, 1, d)]) N k \<and>
     k \<le> 3 \<and> ps_sent (cs_peers (nodes N 1)) = ps_sent ps @ [(7, d)] \<and> cs_shown (nodes N 1) = [''hi'']"
proof -
  from ex_open_peer obtain ps as where ps: "peers_ok ps as" "flood ps as = (\<lambda>d. [(7, d)])" by blast
  from ex_sends [OF ps] obtain d where d: "well_formed d" "length d \<le> BUFFER_SIZE" "reads_as ex_cenv d [''hi'']" by blast
  let ?M = "ex_mesh ps as"
  have sends: "sends ?M n d = [(7, d)]" for n using ps(2) by (simp add: sends_def ex_mesh_def)
  have links: "length (links ?M d n) = 1" for n unfolding links_def sends by (simp add: on_wire_def ex_mesh_def)
  have "\<forall>p \<in> set [(0, 1, d)]. well ?M d p" by (simp add: well_def ex_mesh_def)
  note flood = flood_complete [OF ex_mesh_nodes(1,3) [OF ps(1)] d(1,2) this]
  from flood obtain N k where run: "flood_run fst (client_gets ?M) (network_of ?M [(0, 1, d)]) N k" "packets N = {#}" by blast
  note res = flood [THEN conjunct2, THEN spec, THEN spec, THEN mp, OF run(1), THEN conjunct2, THEN conjunct2]
  note k = res [THEN conjunct1] and eff = res [THEN conjunct2, THEN conjunct2, THEN mp, OF run(2)]
  have "(0, 1) \<in> (linked ?M)\<^sup>*" using ex_linked [OF ps(2)] by blast
  with eff obtain out where out: "out \<in> outputs ex_cenv d" "effect ?M 1 (nodes N 1) [(7, d)] out"
    by (auto simp: sends ex_mesh_simps)
  from reads_as_outputs [OF d(3) out(1)] out(2) have
    "ps_sent (cs_peers (nodes N 1)) = ps_sent ps @ [(7, d)]" "cs_shown (nodes N 1) = [''hi'']"
    by (simp_all add: effect_def ex_mesh_simps)
  moreover have "k \<le> 3" using k by (simp add: ex_mesh_simps links)
  ultimately show ?thesis using run(1) by blast
qed

text \<open>
  C1: a typed message arrives: when \<open>input_send_msg\<close> returns 0 for the name of a known key and a message whose
  text form fits (\<open>wire_size\<close>: up to 462 characters with a key of 4096 bits), and what it sent to its open peers has flooded a network
  of clients that are \<open>in_order\<close> and have not seen it, then every client with the private key that
  is linked to one of the sender's peers has shown exactly the message typed, once, and every
  other one that is linked at most one text. Clients are \<open>in_order\<close> when their table of seen
  messages is in order and their receive buffers hold no other key of it.
\<close>

theorem message_floods:
  fixes M :: "('t, 'kt, 'c, 'pub, 'priv) mesh"
  assumes "\<forall>n. n \<le> length (ce_malloc E n)" and "wire_size (seal_len msg) (EVP_PKEY_size (ce_evp E) pub) < MESSAGE_LENGTH"
    and "CHR '':'' \<notin> set name" and "NUL \<notin> set msg"
    and "key_get_by_name (ce_key_hash E) (cs_mem s) (cs_keys s) name = Some pub"
    and "peers_ok (cs_peers s) as" and "input_send_msg E a s (name @ CHR '':'' # msg) = Some (0, s')"
    and "ps_sent (cs_peers s') = ps_sent (cs_peers s) @ flood (cs_peers s) as data"
    and "\<forall>fd m k. w fd = Some (m, k) \<longrightarrow> m \<in> me_nodes M \<and> k \<in> me_bufs M m" and "finite (me_nodes M)"
    and "\<forall>n \<in> me_nodes M. in_order M ents n \<and> \<not> has_seen ents data (me_start M n)"
    and "flood_run fst (client_gets M) (network_of M (on_wire w (flood (cs_peers s) as data))) N k" and "packets N = {#}"
    and "p \<in> set (on_wire w (flood (cs_peers s) as data))" and "(fst p, m) \<in> (linked M)\<^sup>*"
    and "owns_key E pub (me_env M m)"
  shows "cs_shown (nodes N m) = cs_shown (me_start M m) @ [msg] \<and>
    (\<forall>n. (fst p, n) \<in> (linked M)\<^sup>* \<longrightarrow> (\<exists>out. length out \<le> 1 \<and> cs_shown (nodes N n) = cs_shown (me_start M n) @ out))"
proof -
  from assms(16) have "evp_ok (ce_evp E) pub (ce_private (me_env M m))" by (simp add: owns_key_def)
  from sent_message [OF assms(1-7) this] obtain data' where
    "ps_sent (cs_peers s') = ps_sent (cs_peers s) @ flood (cs_peers s) as data'"
    and data: "well_formed data'" "length data' \<le> BUFFER_SIZE"
      "\<forall>R :: ('t, 'kt, 'c, 'pub, 'priv) cenv. owns_key E pub R \<longrightarrow> reads_as R data' [msg]" by blast
  with assms(8) have eq: "flood (cs_peers s) as data = flood (cs_peers s) as data'" by simp
  have "flood (cs_peers s) as data \<noteq> []" using assms(14) by (auto simp: on_wire_def)
  with eq have d: "data' = data" by (auto simp: flood_def)
  have "well M data q" if "q \<in> set (on_wire w (flood (cs_peers s) as data))" for q
  proof -
    obtain n j x where q: "q = (n, j, x)" by (cases q)
    from that [unfolded q set_on_wire] assms(9) show ?thesis by (auto simp: q well_def flood_def)
  qed
  then have reach: "\<exists>out \<in> outputs (me_env M n) data. effect M n (nodes N n) (sends M n data) out"
    if "(fst p, n) \<in> (linked M)\<^sup>*" for n
    using flood_result [OF assms(10,11) data(1,2) [unfolded d] _ assms(12)] assms(13,14) that by blast
  from reach [OF assms(15)] reads_as_outputs [of "me_env M m" data "[msg]"] data(3) assms(16) have
    "effect M m (nodes N m) (sends M m data) [msg]" unfolding d by metis
  moreover have "\<exists>out. length out \<le> 1 \<and> cs_shown (nodes N n) = cs_shown (me_start M n) @ out"
    if "(fst p, n) \<in> (linked M)\<^sup>*" for n
    using reach [OF that] outputs_short unfolding effect_def by blast
  ultimately show ?thesis by (simp add: effect_def)
qed

theorem message_floods_witness:
  "\<exists>ps as s' data N k. input_send_msg ex_cenv 3 (ex_client_at ps) (''bob'' @ CHR '':'' # ''hi'') = Some (0, s') \<and>
     (7, data) \<in> set (ps_sent (cs_peers s')) \<and>
     flood_run fst (client_gets (ex_mesh ps as)) (network_of (ex_mesh ps as) [(0, 1, data)]) N k \<and>
     cs_shown (nodes N 1) = [''hi'']"
proof -
  from ex_open_peer obtain ps as where ps: "peers_ok ps as" "flood ps as = (\<lambda>d. [(7, d)])" by blast
  from ex_sends [OF ps] obtain s' data where
    s': "input_send_msg ex_cenv 3 (ex_client_at ps) (''bob'' @ CHR '':'' # ''hi'') = Some (0, s')"
      "ps_sent (cs_peers s') = ps_sent ps @ [(7, data)]"
    and d: "well_formed data" "length data \<le> BUFFER_SIZE" by blast
  let ?M = "ex_mesh ps as" and ?w = "\<lambda>fd :: int. if fd = 7 then Some (0 :: nat, 1 :: nat) else None"
  let ?log = "flood (cs_peers (ex_client_at ps)) as data"
  have packets: "on_wire ?w ?log = [(0, 1, data)]" using ps(2) by (simp add: on_wire_def)
  have pre: "peers_ok (cs_peers (ex_client_at ps)) as"
    "ps_sent (cs_peers s') = ps_sent (cs_peers (ex_client_at ps)) @ ?log"
    "\<forall>fd m k. ?w fd = Some (m, k) \<longrightarrow> m \<in> me_nodes ?M \<and> k \<in> me_bufs ?M m"
    using ps s'(2) by (simp_all add: ex_mesh_def)
  note nodes = ex_mesh_nodes [OF ps(1)]
  have start: "\<forall>p \<in> set [(0, 1, data)]. well ?M data p" by (simp add: well_def ex_mesh_def)
  from flood_ends [OF nodes(1,3) d start] obtain N k where
    run: "flood_run fst (client_gets ?M) (network_of ?M [(0, 1, data)]) N k" "packets N = {#}" by blast
  have "(fst (0, 1 :: nat, data), 1) \<in> (linked ?M)\<^sup>*" using ex_linked [OF ps(2)] by auto
  moreover have "owns_key ex_cenv () (me_env ?M 1)" unfolding ex_mesh_simps by (rule ex_sendable(5))
  ultimately have "cs_shown (nodes N 1) = cs_shown (me_start ?M 1) @ [''hi'']"
    using message_floods [OF ex_sendable(4,1,2,3) ex_bob_key pre(1) s'(1) pre(2,3) nodes(1,3) _ run(2), unfolded packets,
      OF run(1), of "(0, 1, data)" 1] by simp
  with s' run(1) show ?thesis by (intro exI [of _ ps] exI [of _ as]) (auto simp: ex_mesh_simps)
qed

end
