(* ===== verification/TornPort.thy ===== *)
theory TornPort
  imports ServerLoop
begin

text \<open>
  A port that is read while it is written: the \<open>PORTUPD\<close> branch of \<open>client_handle\<close>
  (\<open>ac-name-server/name_server.c\<close>) copies the new port into the struct of the client without the mutex, while
  \<open>manage_graph\<close> in another thread puts the ports of all clients into \<open>PEERS\<close> messages.

  \<open>ServerLoop\<close> takes the copy as one step. Here it is seen after some of its bytes; the reader sees one state.
\<close>

text \<open>The field after \<open>strncpy\<close> has written its first \<open>k\<close> bytes.\<close>

definition port_during :: "bytes \<Rightarrow> string \<Rightarrow> nat \<Rightarrow> bytes" where
  "port_during field tok k = take k (take NI_MAXSERV tok @ replicate (NI_MAXSERV - length tok) NUL) @ drop k field"

lemma port_during_ends:
  assumes "length field = NI_MAXSERV"
  shows "port_during field tok 0 = field" and "strncpy field tok NI_MAXSERV = Some (port_during field tok NI_MAXSERV)"
    and "length (port_during field tok k) = NI_MAXSERV"
  using assms by (simp_all add: port_during_def strncpy_def)

text \<open>The port field as \<open>strncpy\<close> leaves it: the text and NUL bytes up to its end.\<close>

definition port_field :: "string \<Rightarrow> bytes" where
  "port_field p = p @ replicate (NI_MAXSERV - length p) NUL"

lemma port_field_copied: "length field = NI_MAXSERV \<Longrightarrow> length tok < NI_MAXSERV \<Longrightarrow>
    strncpy field tok NI_MAXSERV = Some (port_field tok)"
  by (simp add: strncpy_def port_field_def)

text \<open>
  At every moment the field is terminated, so that reading it is safe; but until all bytes of the new port are
  written, its text is a beginning of the new port followed by the end of the old one.
\<close>

lemma torn_port:
  assumes "NUL \<notin> set old" and "length old < NI_MAXSERV" and "NUL \<notin> set tok" and "length tok < NI_MAXSERV"
  shows "cstr (port_during (port_field old) tok k) = Some (if k \<le> length tok then take k tok @ drop k old else tok)"
proof (cases "k \<le> length tok")
  case True
  have "port_during (port_field old) tok k = (take k tok @ drop k old) @ replicate (NI_MAXSERV - max k (length old)) NUL"
    using True assms(2,4) by (simp add: port_during_def port_field_def max_def)
  moreover have "NUL \<notin> set (take k tok @ drop k old)"
    using assms(1,3) by (auto dest: in_set_takeD in_set_dropD)
  moreover have "0 < NI_MAXSERV - max k (length old)" using True assms(2,4) by simp
  then obtain n where "NI_MAXSERV - max k (length old) = Suc n" by (cases "NI_MAXSERV - max k (length old)") auto
  ultimately show ?thesis using True by (simp del: append_assoc)
next
  case False
  obtain r where "port_during (port_field old) tok k = tok @ NUL # r"
  proof (cases "min k NI_MAXSERV - length tok")
    case 0
    with False assms(4) show ?thesis by simp
  next
    case (Suc n)
    with False assms(4) have "take k (take NI_MAXSERV tok @ replicate (NI_MAXSERV - length tok) NUL) = tok @ NUL # replicate n NUL"
      by (simp add: min_def diff_le_mono split: if_splits)
    then have "port_during (port_field old) tok k = (tok @ NUL # replicate n NUL) @ drop k (port_field old)"
      unfolding port_during_def by (rule arg_cong)
    then show ?thesis by (intro that [of "replicate n NUL @ drop k (port_field old)"]) simp
  qed
  with False assms(3) show ?thesis by simp
qed

text \<open>A \<open>PEERS\<close> entry made in between names a port that the client never had.\<close>

lemma torn_entry:
  assumes "cstr (cl_address cl) = Some a" and "cl_port cl = port_during (port_field ''4758'') ''6000'' 2"
  shows "peer_entry cl = Some (a @ '':6058'')"
  using assms torn_port [of "''4758''" "''6000''" 2] by (simp add: peer_entry_def NI_MAXSERV_def)

end
