(* ===== verification/Strtok.thy ===== *)
theory Strtok
  imports ServerLoop Enc
begin

text \<open>
  Threads that share \<open>strtok\<close>: the function keeps the rest of the last string in one static variable,
  and both programs call it from every connection's thread, outside of any mutex
  (\<open>parse_str_encrypted_msg\<close> of \<open>ac-lib/enc.c\<close>, and the \<open>PORTUPD\<close> branch of \<open>client_handle\<close> in
  \<open>ac-name-server/name_server.c\<close>). The client's \<open>parse_peers\<close> calls it too, in the thread of the name server;
  its calls are not among the interleavings here.

  The other theories give each thread a rest of its own. Here the rest is shared, a step is one call, and a
  schedule is the list of the threads that call. A call that is not interrupted by others is as in the
  other theories; an interrupted one gets the words of the wrong message.
\<close>

section \<open>The calls\<close>

text \<open>A call with a string or with NULL (\<open>None\<close>), when \<open>saved\<close> is the rest in the static variable.\<close>

definition strtok_shared :: "string option \<Rightarrow> string \<Rightarrow> string option \<times> string" where
  "strtok_shared arg saved =
     (case strtok (CHR '' '') (case arg of Some s \<Rightarrow> s | None \<Rightarrow> saved) of
        None \<Rightarrow> (None, [])
      | Some (tok, rest) \<Rightarrow> (Some tok, rest))"

record calls =
  c_saved :: string
  c_toks :: "nat \<Rightarrow> string option list"

text \<open>The first call of thread \<open>i\<close> passes its own string \<open>inp i\<close>, the later ones NULL.\<close>

definition strtok_by :: "(nat \<Rightarrow> string) \<Rightarrow> nat \<Rightarrow> calls \<Rightarrow> calls" where
  "strtok_by inp i s =
     (let (tok, rest) = strtok_shared (if c_toks s i = [] then Some (inp i) else None) (c_saved s)
      in \<lparr>c_saved = rest, c_toks = (c_toks s)(i := c_toks s i @ [tok])\<rparr>)"

definition run_calls :: "(nat \<Rightarrow> string) \<Rightarrow> nat list \<Rightarrow> calls" where
  "run_calls inp sched = fold (strtok_by inp) sched \<lparr>c_saved = [], c_toks = (\<lambda>_. [])\<rparr>"

text \<open>What \<open>parse_str_encrypted_msg\<close> does with the results of its three calls.\<close>

definition decode_word_of :: "(nat \<Rightarrow> bytes) \<Rightarrow> string option \<Rightarrow> (int \<times> bytes) option" where
  "decode_word_of mem tok = do {
     tok \<leftarrow> tok;
     len \<leftarrow> Base64decode_len (tok @ [NUL]);
     Base64decode (mem (nat len)) (tok @ [NUL])
   }"

definition parse_words ::
  "(nat \<Rightarrow> bytes) \<Rightarrow> string option list \<Rightarrow> message_encrypted \<Rightarrow> (int \<times> message_encrypted) option" where
  "parse_words mem toks res = (case toks of [t1, t2, t3] \<Rightarrow> do {
       (n1, b1) \<leftarrow> decode_word_of mem t1;
       (n2, b2) \<leftarrow> decode_word_of mem t2;
       (n3, b3) \<leftarrow> decode_word_of mem t3;
       Some (1, res\<lparr>encrypted_msg := b1, encrypted_msg_len := n1, encrypted_key := b2, encrypted_key_len := n2,
         init_vector := b3, init_vector_len := n3\<rparr>)
     } | _ \<Rightarrow> None)"

text \<open>What the name server does with the results of its two calls on a \<open>PORTUPD\<close> message.\<close>

definition portupd_words :: "server \<Rightarrow> nat \<Rightarrow> string option list \<Rightarrow> server option" where
  "portupd_words s c toks = (case toks of
       [_, Some tok] \<Rightarrow> client_set_port s c tok
     | _ \<Rightarrow> Some s)"

section \<open>Calls as operations on lists of words\<close>

definition next_word :: "string list \<Rightarrow> string option \<times> string list" where
  "next_word ws = (case ws of [] \<Rightarrow> (None, []) | w # ws \<Rightarrow> (Some w, ws))"

lemma strtok_shared_words:
  "strtok_shared arg saved = (tok, rest) \<Longrightarrow>
     next_word (tokens (CHR '' '') (case arg of Some s \<Rightarrow> s | None \<Rightarrow> saved)) = (tok, tokens (CHR '' '') rest)"
  by (subst tokens.simps)
    (auto simp: strtok_shared_def next_word_def split: option.splits prod.splits)

record wcalls =
  w_saved :: "string list"
  w_toks :: "nat \<Rightarrow> string option list"

definition word_by :: "(nat \<Rightarrow> string list) \<Rightarrow> nat \<Rightarrow> wcalls \<Rightarrow> wcalls" where
  "word_by ws i s =
     (let (tok, rest) = next_word (if w_toks s i = [] then ws i else w_saved s)
      in \<lparr>w_saved = rest, w_toks = (w_toks s)(i := w_toks s i @ [tok])\<rparr>)"

definition words_of :: "calls \<Rightarrow> wcalls" where
  "words_of s = \<lparr>w_saved = tokens (CHR '' '') (c_saved s), w_toks = c_toks s\<rparr>"

lemma words_of_step: "words_of (strtok_by inp i s) = word_by (\<lambda>i. tokens (CHR '' '') (inp i)) i (words_of s)"
proof -
  obtain tok rest where r: "strtok_shared (if c_toks s i = [] then Some (inp i) else None) (c_saved s) = (tok, rest)"
    by (cases "strtok_shared (if c_toks s i = [] then Some (inp i) else None) (c_saved s)")
  from strtok_shared_words [OF r] r show ?thesis
    by (cases "c_toks s i = []") (simp_all add: strtok_by_def word_by_def words_of_def)
qed

lemma words_of_fold: "words_of (fold (strtok_by inp) sched s) =
    fold (word_by (\<lambda>i. tokens (CHR '' '') (inp i))) sched (words_of s)"
  by (induction sched arbitrary: s) (simp_all add: words_of_step)

definition run_words :: "(nat \<Rightarrow> string list) \<Rightarrow> nat list \<Rightarrow> wcalls" where
  "run_words ws sched = fold (word_by ws) sched \<lparr>w_saved = [], w_toks = (\<lambda>_. [])\<rparr>"

lemma run_calls_words: "c_toks (run_calls inp sched) = w_toks (run_words (\<lambda>i. tokens (CHR '' '') (inp i)) sched)"
proof -
  have "words_of (run_calls inp sched) = run_words (\<lambda>i. tokens (CHR '' '') (inp i)) sched"
    by (simp add: run_calls_def run_words_def words_of_fold) (simp add: words_of_def)
  then show ?thesis by (metis words_of_def wcalls.select_convs(2))
qed

lemma word_by_other: "j \<noteq> i \<Longrightarrow> w_toks (word_by ws i s) j = w_toks s j"
  by (simp add: word_by_def split_def Let_def)

lemma word_by_others: "i \<notin> set sched \<Longrightarrow> w_toks (fold (word_by ws) sched s) i = w_toks s i"
  by (induction sched arbitrary: s) (simp_all add: word_by_other)

lemma word_by_simps [simp]:
  "w_toks (word_by ws i s) i = w_toks s i @ [fst (next_word (if w_toks s i = [] then ws i else w_saved s))]"
  "w_saved (word_by ws i s) = snd (next_word (if w_toks s i = [] then ws i else w_saved s))"
  by (simp_all add: word_by_def split_def Let_def)

text \<open>Three calls without interruption give the first three words, missing ones as NULL.\<close>

lemma uninterrupted:
  assumes "i \<notin> set xs" and "i \<notin> set ys"
  shows "w_toks (run_words ws (xs @ [i, i, i] @ ys)) i =
    [fst (next_word (ws i)), fst (next_word (snd (next_word (ws i)))),
     fst (next_word (snd (next_word (snd (next_word (ws i))))))]"
proof -
  define s where "s = fold (word_by ws) xs \<lparr>w_saved = [], w_toks = (\<lambda>_. [])\<rparr>"
  have "w_toks s i = []" by (simp add: s_def word_by_others [OF assms(1)])
  then show ?thesis by (simp add: run_words_def word_by_others [OF assms(2)] flip: s_def)
qed

lemma decode_token_words:
  "decode_token mem s = do {
     (n, blk) \<leftarrow> decode_word_of mem (fst (strtok_shared (Some s) saved));
     Some (n, blk, snd (strtok_shared (Some s) saved)) }"
  by (simp add: decode_token_def decode_word_of_def strtok_shared_def split: option.splits)

lemma fst_next_word: "fst (next_word (tokens (CHR '' '') s)) = fst (strtok_shared (Some s) saved)"
  and snd_next_word: "snd (next_word (tokens (CHR '' '') s)) = tokens (CHR '' '') (snd (strtok_shared (Some s) saved))"
  using strtok_shared_words [of "Some s" saved] by (cases "strtok_shared (Some s) saved", simp)+

lemma parse_words_sequential:
  "parse_words mem [fst (next_word (tokens (CHR '' '') s)), fst (next_word (snd (next_word (tokens (CHR '' '') s)))),
     fst (next_word (snd (next_word (snd (next_word (tokens (CHR '' '') s))))))] res = parse_str_encrypted_msg mem s res"
proof -
  have d: "decode_token mem s = do {
      (n, blk) \<leftarrow> decode_word_of mem (fst (next_word (tokens (CHR '' '') s)));
      Some (n, blk, snd (strtok_shared (Some s) [])) }" for s
    unfolding fst_next_word [of s "[]"] by (rule decode_token_words)
  have n: "snd (next_word (tokens (CHR '' '') s)) = tokens (CHR '' '') (snd (strtok_shared (Some s) []))" for s
    by (rule snd_next_word)
  show ?thesis
    by (simp add: parse_words_def parse_str_encrypted_msg_def d n split: option.splits) (auto split: bind_splits)
qed

lemma next_word_simps [simp]: "next_word [] = (None, [])" "next_word (w # ws) = (Some w, ws)"
  by (simp_all add: next_word_def)

text \<open>Two threads with three calls each on messages of four words: only the serial schedules are right.\<close>

lemma six_calls:
  assumes "set sched \<subseteq> {i, j}" and "i \<noteq> j" and "count_list sched i = 3" and "count_list sched j = 3"
  shows "sched \<in> {[i,i,i,j,j,j], [i,i,j,i,j,j], [i,i,j,j,i,j], [i,i,j,j,j,i], [i,j,i,i,j,j], [i,j,i,j,i,j],
    [i,j,i,j,j,i], [i,j,j,i,i,j], [i,j,j,i,j,i], [i,j,j,j,i,i], [j,j,j,i,i,i], [j,j,i,j,i,i], [j,j,i,i,j,i],
    [j,j,i,i,i,j], [j,i,j,j,i,i], [j,i,j,i,j,i], [j,i,j,i,i,j], [j,i,i,j,j,i], [j,i,i,j,i,j], [j,i,i,i,j,j]}"
proof -
  have "length sched = (\<Sum>x \<in> {i, j}. count_list sched x)"
    by (rule sum_count_set [symmetric]) (use assms(1) in auto)
  then have "length sched = Suc (Suc (Suc (Suc (Suc (Suc 0)))))" using assms(2-4) by simp
  then obtain a b c d e f where s: "sched = [a, b, c, d, e, f]" by (auto simp: length_Suc_conv)
  have "a = i \<or> a = j" "b = i \<or> b = j" "c = i \<or> c = j" "d = i \<or> d = j" "e = i \<or> e = j" "f = i \<or> f = j"
    using assms(1) by (auto simp: s)
  with assms(2-4) show ?thesis unfolding s by (elim disjE) (simp_all del: insert_iff add: insert_iff)
qed

lemma interleaved_words:
  assumes "set sched \<subseteq> {i, j}" and "i \<noteq> j" and "count_list sched i = 3" and "count_list sched j = 3"
    and "ws i = [a1, a2, a3, a4]" and "ws j = [b1, b2, b3, b4]" and "set (ws i) \<inter> set (ws j) = {}"
  shows "w_toks (run_words ws sched) i = map Some [a1, a2, a3] \<and> w_toks (run_words ws sched) j = map Some [b1, b2, b3] \<longleftrightarrow>
    sched = [i, i, i, j, j, j] \<or> sched = [j, j, j, i, i, i]"
  using six_calls [OF assms(1-4)] assms(2,5-7)
  by (elim insertE emptyE) (simp_all add: run_words_def word_by_other, auto)

text \<open>Two messages for the examples.\<close>

definition ex_inputs :: "nat \<Rightarrow> string" where
  "ex_inputs i = (if i = 1 then ''? hello ! x'' else ''Q2 Q3 Q4 y'')"

section \<open>Properties\<close>

text \<open>
  C35: a parse that no other call of \<open>strtok\<close> interrupts is the parse with a rest of its own: the three
  calls of \<open>parse_str_encrypted_msg\<close>, made without a call of another thread in between, decode
  exactly as the sequential model does, with all its errors, whatever was called before.
\<close>

theorem uninterrupted_parse:
  assumes "i \<notin> set xs" and "i \<notin> set ys"
  shows "parse_words mem (c_toks (run_calls inp (xs @ [i, i, i] @ ys)) i) res = parse_str_encrypted_msg mem (inp i) res"
  unfolding run_calls_words uninterrupted [OF assms] by (rule parse_words_sequential)

theorem uninterrupted_parse_witness:
  "parse_words ex_mem (c_toks (run_calls (\<lambda>i. if i = 1 then ''? hello !'' else ''x y'') [2, 1, 1, 1, 2]) 1) (ex_sealed 1) =
    parse_str_encrypted_msg ex_mem ''? hello !'' (ex_sealed 1)"
  using uninterrupted_parse [of 1 "[2]" "[2]" ex_mem "\<lambda>i. if i = 1 then ''? hello !'' else ''x y''" "ex_sealed 1"]
  by simp

text \<open>
  C37: two messages that arrive at the same time: when two threads parse messages of four words, as
  \<open>input_send_msg\<close> sends them, without a word in common, then both get their own three words only if the
  calls of one thread come all before those of the other; and if the threads alternate, the
  second one dereferences NULL, although each message alone can be parsed.
\<close>

theorem parses_interfere:
  assumes "i \<noteq> j" and "tokens (CHR '' '') (inp i) = [a1, a2, a3, a4]" and "tokens (CHR '' '') (inp j) = [b1, b2, b3, b4]"
    and "{a1, a2, a3, a4} \<inter> {b1, b2, b3, b4} = {}" and "\<forall>n. n \<le> length (mem n)" and "NUL \<notin> set (inp i)" and "NUL \<notin> set (inp j)"
  shows "(\<forall>sched. set sched \<subseteq> {i, j} \<and> count_list sched i = 3 \<and> count_list sched j = 3 \<longrightarrow>
      (c_toks (run_calls inp sched) i = map Some [a1, a2, a3] \<and> c_toks (run_calls inp sched) j = map Some [b1, b2, b3] \<longleftrightarrow>
       sched = [i, i, i, j, j, j] \<or> sched = [j, j, j, i, i, i])) \<and>
    parse_words mem (c_toks (run_calls inp [i, j, i, j, i, j]) j) res = None \<and>
    (\<forall>k \<in> {i, j}. \<exists>m. parse_str_encrypted_msg mem (inp k) res = Some (1, m))"
proof (intro conjI allI impI)
  let ?ws = "\<lambda>i. tokens (CHR '' '') (inp i)"
  show "c_toks (run_calls inp sched) i = map Some [a1, a2, a3] \<and> c_toks (run_calls inp sched) j = map Some [b1, b2, b3] \<longleftrightarrow>
       sched = [i, i, i, j, j, j] \<or> sched = [j, j, j, i, i, i]"
    if "set sched \<subseteq> {i, j} \<and> count_list sched i = 3 \<and> count_list sched j = 3" for sched
    unfolding run_calls_words
    by (rule interleaved_words [where ws = ?ws]) (use that assms in simp_all)
  have "c_toks (run_calls inp [i, j, i, j, i, j]) j = [Some b1, Some b3, None]"
    unfolding run_calls_words using assms(1-3) by (simp add: run_words_def word_by_other)
  then show "parse_words mem (c_toks (run_calls inp [i, j, i, j, i, j]) j) res = None"
    by (simp add: parse_words_def decode_word_of_def) (auto split: bind_splits)
  show "\<forall>k \<in> {i, j}. \<exists>m. parse_str_encrypted_msg mem (inp k) res = Some (1, m)"
    using parse_str_total [OF assms(5,6), of res] parse_str_total [OF assms(5,7), of res] assms(2,3) by auto
qed

theorem parses_interfere_witness:
  "\<not> (c_toks (run_calls ex_inputs [1, 2, 1, 2, 1, 2]) 1 = map Some [''?'', ''hello'', ''!''] \<and>
       c_toks (run_calls ex_inputs [1, 2, 1, 2, 1, 2]) 2 = map Some [''Q2'', ''Q3'', ''Q4'']) \<and>
   parse_words ex_mem (c_toks (run_calls ex_inputs [1, 2, 1, 2, 1, 2]) 2) (ex_sealed 1) = None"
proof -
  have t: "tokens (CHR '' '') (ex_inputs 1) = [''?'', ''hello'', ''!'', ''x'']" "tokens (CHR '' '') (ex_inputs 2) = [''Q2'', ''Q3'', ''Q4'', ''y'']"
    by (simp_all add: ex_inputs_def tokens.simps strtok_def)
  have n: "NUL \<notin> set (ex_inputs 1)" "NUL \<notin> set (ex_inputs 2)" by (simp_all add: ex_inputs_def)
  have m: "\<forall>n. n \<le> length (ex_mem n)" by (simp add: ex_mem_def)
  note both = parses_interfere [of 1 2 ex_inputs, OF _ t _ m n, of "ex_sealed 1"]
  have "\<not> (c_toks (run_calls ex_inputs [1, 2, 1, 2, 1, 2]) 1 = map Some [''?'', ''hello'', ''!''] \<and>
       c_toks (run_calls ex_inputs [1, 2, 1, 2, 1, 2]) 2 = map Some [''Q2'', ''Q3'', ''Q4''])"
    using both [THEN conjunct1, THEN spec, of "[1, 2, 1, 2, 1, 2]"] by simp
  with both show ?thesis by simp
qed

text \<open>
  C38: two clients that announce their ports at the same time: when the two calls for the messages of the
  clients \<open>c\<close> and \<open>e\<close> alternate, the server stores the port of \<open>e\<close> for \<open>c\<close> and ignores the message of
  \<open>e\<close>; when they do not, each client gets its own port.
\<close>

theorem ports_interfere:
  assumes "c \<noteq> e" and "inp c = ''PORTUPD '' @ p" and "inp e = ''PORTUPD '' @ q"
    and "p \<noteq> []" and "q \<noteq> []" and "CHR '' '' \<notin> set p" and "CHR '' '' \<notin> set q"
  shows "portupd_words s c (c_toks (run_calls inp [c, e, c, e]) c) = client_set_port s c q \<and>
    portupd_words s e (c_toks (run_calls inp [c, e, c, e]) e) = Some s \<and>
    portupd_words s c (c_toks (run_calls inp [c, c, e, e]) c) = client_set_port s c p \<and>
    portupd_words s e (c_toks (run_calls inp [c, c, e, e]) e) = client_set_port s e q"
proof -
  have t: "tokens (CHR '' '') (''PORTUPD '' @ w) = [''PORTUPD'', w]" if "w \<noteq> []" "CHR '' '' \<notin> set w" for w
    using that tokens_join [of "[''PORTUPD'', w]" "CHR '' ''"] by simp
  have c: "tokens (CHR '' '') (inp c) = [''PORTUPD'', p]" and e: "tokens (CHR '' '') (inp e) = [''PORTUPD'', q]"
    unfolding assms(2,3) by (rule t [OF assms(4,6)], rule t [OF assms(5,7)])
  show ?thesis
    using assms(1) c e by (simp add: run_calls_words run_words_def word_by_other portupd_words_def)
qed

theorem ports_interfere_witness:
  "portupd_words (ex_server 3) 0 (c_toks (run_calls (\<lambda>i. if i = 0 then ''PORTUPD 5000'' else ''PORTUPD 6000'') [0, 1, 0, 1]) 0) =
     client_set_port (ex_server 3) 0 ''6000''"
  using ports_interfere [of 0 1 "\<lambda>i. if i = 0 then ''PORTUPD 5000'' else ''PORTUPD 6000''" "''5000''" "''6000''" "ex_server 3"]
  by simp

end
