(* ===== verification/CipherThreads.thy ===== *)
theory CipherThreads
  imports Enc
begin

text \<open>
  Threads that share a cipher context: every \<open>client_handle\<close> of the client decrypts its messages with the
  one context \<open>rsa_encrypt_ctx->rsa_decrypt_ctx\<close>, outside of any mutex (\<open>client_parse_msg\<close>,
  \<open>client_decrypt_msg\<close> of \<open>ac-lib/enc.c\<close>).

  \<open>Enc\<close> has \<open>client_decrypt_msg\<close> as one step. Here a step is one call of OpenSSL with what its thread does up
  to the next one, and a schedule is the list of the threads that make a step.
\<close>

section \<open>The calls\<close>

text \<open>
  Where a thread is, with the block \<open>decrypted_msg\<close> and the bytes written to it; \<open>Returned\<close> has the result,
  \<open>None\<close> for NULL.
\<close>

datatype dphase = Calling | Opened bytes | Updated bytes nat | Finalized bytes | Returned "bytes option"

fun decrypt_call ::
  "('c, 'pub, 'priv) evp \<Rightarrow> (nat \<Rightarrow> bytes) \<Rightarrow> 'priv \<Rightarrow> message_encrypted \<Rightarrow> dphase \<Rightarrow> 'c \<Rightarrow> (dphase \<times> 'c) option" where
  "decrypt_call evp mem private_key msg Calling ctx = do {
     let n = nat (encrypted_msg_len msg + init_vector_len msg + 1);
     decrypted_msg \<leftarrow> zero_bytes (mem n) n;
     ek \<leftarrow> read_bytes (encrypted_key msg) (encrypted_key_len msg);
     iv \<leftarrow> read_bytes (init_vector msg) (int EVP_MAX_IV_LENGTH);
     let (res, ctx) = EVP_OpenInit evp ctx ek iv private_key;
     Some (if res = 0 then Returned None else Opened decrypted_msg, ctx)
   }"
| "decrypt_call evp mem private_key msg (Opened decrypted_msg) ctx = do {
     c \<leftarrow> read_bytes (encrypted_msg msg) (encrypted_msg_len msg);
     let (res, ctx, out) = EVP_OpenUpdate evp ctx c (encrypted_msg_len msg);
     decrypted_msg \<leftarrow> write_at decrypted_msg 0 out;
     Some (if res = 0 then Returned None else Updated decrypted_msg (length out), ctx)
   }"
| "decrypt_call evp mem private_key msg (Updated decrypted_msg decrypt_len) ctx = do {
     let (res, ctx, out) = EVP_OpenFinal evp ctx;
     decrypted_msg \<leftarrow> write_at decrypted_msg decrypt_len out;
     Some (if res = 0 then Returned None else Finalized decrypted_msg, ctx)
   }"
| "decrypt_call evp mem private_key msg (Finalized decrypted_msg) ctx =
     Some (Returned (Some decrypted_msg), EVP_CIPHER_CTX_cleanup evp ctx)"
| "decrypt_call evp mem private_key msg (Returned r) ctx = Some (Returned r, ctx)"

record 'c decryptions =
  d_ctx :: 'c
  d_phase :: "nat \<Rightarrow> dphase"

text \<open>A step of thread \<open>i\<close>, whose message is \<open>msg i\<close>; a fault of one thread ends the program.\<close>

definition decrypt_by ::
  "('c, 'pub, 'priv) evp \<Rightarrow> (nat \<Rightarrow> bytes) \<Rightarrow> 'priv \<Rightarrow> (nat \<Rightarrow> message_encrypted) \<Rightarrow> nat \<Rightarrow> 'c decryptions \<Rightarrow>
     'c decryptions option" where
  "decrypt_by evp mem private_key msg i s = map_option
     (\<lambda>(p, ctx). \<lparr>d_ctx = ctx, d_phase = (d_phase s)(i := p)\<rparr>)
     (decrypt_call evp mem private_key (msg i) (d_phase s i) (d_ctx s))"

section \<open>Steps of the threads\<close>

text \<open>The calls of one thread in a row, on its phase and the context alone.\<close>

fun decrypt_calls ::
  "('c, 'pub, 'priv) evp \<Rightarrow> (nat \<Rightarrow> bytes) \<Rightarrow> 'priv \<Rightarrow> message_encrypted \<Rightarrow> nat \<Rightarrow> dphase \<Rightarrow> 'c \<Rightarrow> (dphase \<times> 'c) option" where
  "decrypt_calls evp mem priv m 0 p ctx = Some (p, ctx)"
| "decrypt_calls evp mem priv m (Suc k) p ctx = do {
     (p, ctx) \<leftarrow> decrypt_call evp mem priv m p ctx;
     decrypt_calls evp mem priv m k p ctx
   }"

lemma run_replicate:
  "mfold (decrypt_by evp mem priv msg) (replicate k i) s = map_option
     (\<lambda>(p, ctx). \<lparr>d_ctx = ctx, d_phase = (d_phase s)(i := p)\<rparr>)
     (decrypt_calls evp mem priv (msg i) k (d_phase s i) (d_ctx s))"
proof (induction k arbitrary: s)
  case (Suc k)
  show ?case
  proof (cases "decrypt_call evp mem priv (msg i) (d_phase s i) (d_ctx s)")
    case None
    then show ?thesis by (simp add: decrypt_by_def)
  next
    case (Some q)
    obtain p ctx where "q = (p, ctx)" by (cases q)
    with Some have "decrypt_by evp mem priv msg i s = Some \<lparr>d_ctx = ctx, d_phase = (d_phase s)(i := p)\<rparr>"
      by (simp add: decrypt_by_def)
    with Suc.IH [of "\<lparr>d_ctx = ctx, d_phase = (d_phase s)(i := p)\<rparr>"] Some \<open>q = (p, ctx)\<close> show ?thesis
      by (cases "decrypt_calls evp mem priv (msg i) k p ctx") auto
  qed
qed (simp add: fun_upd_idem)

lemma decrypt_calls_returned: "decrypt_calls evp mem priv m k (Returned r) ctx = Some (Returned r, ctx)"
  by (induction k) simp_all

text \<open>Four calls in a row are \<open>client_decrypt_msg\<close>, with every error of it.\<close>

lemma decrypt_calls_sequential:
  "decrypt_calls evp mem priv m 4 Calling ctx =
     map_option (\<lambda>(r, c). (Returned r, rsa_decrypt_ctx c))
       (client_decrypt_msg evp mem \<lparr>rsa_encrypt_ctx = e, rsa_decrypt_ctx = ctx\<rparr> m priv)"
  unfolding client_decrypt_msg_def
  by (auto simp: numeral_eq_Suc decrypt_calls_returned Let_def split: prod.splits bind_splits)

section \<open>Another key\<close>

text \<open>
  What OpenSSL documents of \<open>EVP_OpenInit\<close>: it sets the context up for a decryption with the given key and
  vector, so that the context does not depend on what was in it before.
\<close>

definition init_fresh :: "('c, 'pub, 'priv) evp \<Rightarrow> 'priv \<Rightarrow> bool" where
  "init_fresh evp priv \<longleftrightarrow> (\<forall>d d' ek iv. fst (EVP_OpenInit evp d ek iv priv) \<noteq> 0 \<longrightarrow>
     EVP_OpenInit evp d' ek iv priv = EVP_OpenInit evp d ek iv priv)"

text \<open>The encrypted text of one message with the encrypted key and the vector of another one.\<close>

definition with_key_of :: "message_encrypted \<Rightarrow> message_encrypted \<Rightarrow> message_encrypted" where
  "with_key_of m m' = m\<lparr>encrypted_key := encrypted_key m', encrypted_key_len := encrypted_key_len m',
     init_vector := init_vector m'\<rparr>"

text \<open>A first call that succeeds, and what the function does after it.\<close>

lemma opened_call:
  "decrypt_call evp mem priv m Calling ctx = Some (Opened b, ctx') \<longleftrightarrow>
    (\<exists>ek iv r. zero_bytes (mem (nat (encrypted_msg_len m + init_vector_len m + 1)))
        (nat (encrypted_msg_len m + init_vector_len m + 1)) = Some b \<and>
      read_bytes (encrypted_key m) (encrypted_key_len m) = Some ek \<and>
      read_bytes (init_vector m) (int EVP_MAX_IV_LENGTH) = Some iv \<and>
      EVP_OpenInit evp ctx ek iv priv = (r, ctx') \<and> r \<noteq> 0)"
  by (auto simp: Let_def split: prod.splits bind_splits)

lemma opened_with_key:
  assumes "init_fresh evp priv" and "decrypt_call evp mem priv m Calling ctx = Some (Opened b, ctx1)"
    and "decrypt_call evp mem priv m' Calling ctx1 = Some (Opened b', ctx2)"
  shows "decrypt_call evp mem priv (with_key_of m m') Calling ctx0 = Some (Opened b, ctx2)"
proof -
  from assms(2) have z: "zero_bytes (mem (nat (encrypted_msg_len m + init_vector_len m + 1)))
      (nat (encrypted_msg_len m + init_vector_len m + 1)) = Some b" unfolding opened_call by blast
  from assms(3) obtain ek iv r where k: "read_bytes (encrypted_key m') (encrypted_key_len m') = Some ek"
    "read_bytes (init_vector m') (int EVP_MAX_IV_LENGTH) = Some iv" "EVP_OpenInit evp ctx1 ek iv priv = (r, ctx2)" "r \<noteq> 0"
    unfolding opened_call by blast
  from assms(1) have "fst (EVP_OpenInit evp ctx1 ek iv priv) \<noteq> 0 \<longrightarrow>
    EVP_OpenInit evp ctx0 ek iv priv = EVP_OpenInit evp ctx1 ek iv priv" unfolding init_fresh_def by blast
  with k z show ?thesis unfolding opened_call by (intro exI [of _ ek] exI [of _ iv] exI [of _ r]) (simp add: with_key_of_def)
qed

lemma later_calls_same_key:
  assumes "p \<noteq> Calling"
  shows "decrypt_calls evp mem priv (with_key_of m m') k p ctx = decrypt_calls evp mem priv m k p ctx"
  using assms
proof (induction k arbitrary: p ctx)
  case (Suc k)
  have "decrypt_call evp mem priv (with_key_of m m') p ctx = decrypt_call evp mem priv m p ctx"
    using Suc.prems by (cases p) (simp_all add: with_key_of_def)
  moreover have "q \<noteq> Calling" if "decrypt_call evp mem priv m p ctx = Some (q, ctx')" for q ctx'
    using Suc.prems that by (cases p) (auto simp: Let_def split: prod.splits bind_splits if_splits)
  ultimately show ?case using Suc.IH
    by (cases "decrypt_call evp mem priv m p ctx") auto
qed simp

section \<open>Property\<close>

text \<open>
  C36: two threads decrypt at the same time: if a second thread calls \<open>EVP_OpenInit\<close> after the first one
  has and before it goes on, and both calls succeed, then the first thread returns what
  \<open>client_decrypt_msg\<close> returns for its encrypted text with the key and the vector of the other message, whatever
  its own are, and faults exactly if that does; this for every implementation of OpenSSL in which a
  successful \<open>EVP_OpenInit\<close> depends on its arguments alone.
\<close>

theorem key_taken_over:
  assumes "i \<noteq> j" and "d_phase s i = Calling" and "d_phase s j = Calling" and "init_fresh evp priv"
    and "mfold (decrypt_by evp mem priv msg) [i, j] s = Some s1"
    and "d_phase s1 i = Opened b" and "d_phase s1 j = Opened b'"
  shows "case client_decrypt_msg evp mem ctx (with_key_of (msg i) (msg j)) priv of
      None \<Rightarrow> mfold (decrypt_by evp mem priv msg) [i, j, i, i, i] s = None
    | Some (r, ctx') \<Rightarrow> \<exists>s'. mfold (decrypt_by evp mem priv msg) [i, j, i, i, i] s = Some s' \<and>
        d_phase s' i = Returned r \<and> d_ctx s' = rsa_decrypt_ctx ctx'"
proof -
  from assms(5,1-3,6,7) obtain ctx1 where
    1: "decrypt_call evp mem priv (msg i) Calling (d_ctx s) = Some (Opened b, ctx1)"
    and 2: "decrypt_call evp mem priv (msg j) Calling ctx1 = Some (Opened b', d_ctx s1)"
    by (auto simp: decrypt_by_def simp del: decrypt_call.simps split: option.splits)
  let ?m = "with_key_of (msg i) (msg j)"
  have eta: "\<lparr>rsa_encrypt_ctx = rsa_encrypt_ctx ctx, rsa_decrypt_ctx = rsa_decrypt_ctx ctx\<rparr> = ctx" by simp
  have "decrypt_calls evp mem priv ?m 4 Calling (rsa_decrypt_ctx ctx) = decrypt_calls evp mem priv (msg i) 3 (Opened b) (d_ctx s1)"
    using opened_with_key [OF assms(4) 1 2, of "rsa_decrypt_ctx ctx"] later_calls_same_key [of "Opened b" evp mem priv "msg i" "msg j" 3]
      decrypt_calls.simps(2) [of evp mem priv ?m 3 Calling "rsa_decrypt_ctx ctx"]
    by (simp del: decrypt_call.simps decrypt_calls.simps)
  with decrypt_calls_sequential [of evp mem priv ?m "rsa_decrypt_ctx ctx" "rsa_encrypt_ctx ctx"] have
    "decrypt_calls evp mem priv (msg i) 3 (d_phase s1 i) (d_ctx s1) =
      map_option (\<lambda>(r, c). (Returned r, rsa_decrypt_ctx c)) (client_decrypt_msg evp mem ctx ?m priv)"
    using assms(6) unfolding eta by simp
  moreover have "mfold (decrypt_by evp mem priv msg) [i, j, i, i, i] s = mfold (decrypt_by evp mem priv msg) (replicate 3 i) s1"
    using mfold_append [of "decrypt_by evp mem priv msg" "[i, j]" "[i, i, i]" s] assms(5) by (simp add: numeral_eq_Suc del: mfold.simps)
  ultimately have run: "mfold (decrypt_by evp mem priv msg) [i, j, i, i, i] s = map_option
      (\<lambda>(p, ctx). \<lparr>d_ctx = ctx, d_phase = (d_phase s1)(i := p)\<rparr>)
      (map_option (\<lambda>(r, c). (Returned r, rsa_decrypt_ctx c)) (client_decrypt_msg evp mem ctx ?m priv))"
    by (simp only: run_replicate)
  show ?thesis unfolding run by (auto split: option.splits)
qed

text \<open>
  The example's cipher with session keys: what is decrypted with another key than the one it was encrypted with has
  a mark before it.
\<close>

definition ex_keyed :: "(bytes, unit, unit) evp" where
  "ex_keyed = ex_evp\<lparr>EVP_OpenInit := (\<lambda>d ek iv priv. (1, if ek = ex_ek then [] else ''?''))\<rparr>"

lemma ex_keyed_ok: "evp_ok ex_keyed () ()" "init_fresh ex_keyed ()"
proof -
  have "seals ex_keyed = seals ex_evp" by (simp add: fun_eq_iff seals_def ex_keyed_def)
  moreover have "opens ex_evp () ek iv c m \<Longrightarrow> opens ex_keyed () ek iv c m" for ek iv c m
    by (auto simp: opens_def ex_keyed_def ex_evp_def split: if_splits)
  ultimately show "evp_ok ex_keyed () ()" using ex_evp_ok
    unfolding evp_ok_def by (simp add: ex_keyed_def)
qed (simp add: init_fresh_def ex_keyed_def)

definition ex_struct :: "bytes \<Rightarrow> message_encrypted" where
  "ex_struct ek = \<lparr>encrypted_msg = ''hi'' @ NUL # replicate 13 (char_of (13 :: nat)), encrypted_key = ek,
      init_vector = replicate 16 (CHR ''i''), encrypted_msg_len = 16, encrypted_key_len = int (length ek), init_vector_len = 16\<rparr>"

definition ex_cipher :: bytes where
  "ex_cipher = ''hi'' @ NUL # replicate 13 (char_of (13 :: nat))"

lemma ex_keyed_calls:
  "EVP_OpenInit ex_keyed d ek iv priv = (1, if ek = ex_ek then [] else ''?'')"
  "EVP_OpenUpdate ex_keyed d c n = (1, d @ c, [])"
  "EVP_OpenFinal ex_keyed (p @ ex_cipher) = (1, [], p @ ''hi'' @ [NUL])"
  "EVP_CIPHER_CTX_cleanup ex_keyed d = []"
proof -
  have l: "length ex_cipher = 16" by (simp add: ex_cipher_def)
  have "last (p @ ex_cipher) = char_of (13 :: nat)" by (simp add: ex_cipher_def)
  then have u: "uchar (last (p @ ex_cipher)) = 13" by (simp add: uchar_def)
  have "take (length (p @ ex_cipher) - 13) (p @ ex_cipher) = p @ ''hi'' @ [NUL]"
    by (simp add: l) (simp add: ex_cipher_def)
  with u show "EVP_OpenFinal ex_keyed (p @ ex_cipher) = (1, [], p @ ''hi'' @ [NUL])" by (simp add: ex_keyed_def ex_evp_def)
qed (simp_all add: ex_keyed_def ex_evp_def)

lemma ex_struct_reads:
  "read_bytes (encrypted_key (ex_struct ek)) (encrypted_key_len (ex_struct ek)) = Some ek"
  "read_bytes (init_vector (ex_struct ek)) (int EVP_MAX_IV_LENGTH) = Some (replicate 16 (CHR ''i''))"
  "read_bytes (encrypted_msg (ex_struct ek)) (encrypted_msg_len (ex_struct ek)) = Some ex_cipher"
  "zero_bytes (ex_mem 33) 33 = Some (replicate 33 NUL)" "encrypted_msg_len (ex_struct ek) + init_vector_len (ex_struct ek) + 1 = 33"
  by (simp_all add: ex_struct_def read_bytes_def EVP_MAX_IV_LENGTH_def zero_bytes_def ex_mem_def ex_cipher_def)

lemma ex_other_key: "''other'' \<noteq> ex_ek"
proof
  assume "''other'' = ex_ek"
  then have "length ''other'' = length ex_ek" by simp
  then show False by (simp add: ex_ek(1))
qed

text \<open>What is decrypted by the first thread's key, and by another one.\<close>

lemma ex_keyed_decrypt:
  "\<exists>b ctx'. client_decrypt_msg ex_keyed ex_mem ctx (ex_struct ex_ek) () = Some (Some b, ctx') \<and> cstr b = Some ''hi''"
  "\<exists>b ctx'. client_decrypt_msg ex_keyed ex_mem ctx (with_key_of (ex_struct ex_ek) (ex_struct ''other'')) () = Some (Some b, ctx') \<and>
     cstr b = Some ''?hi''"
proof -
  have w: "with_key_of (ex_struct ex_ek) (ex_struct ''other'') = ex_struct ''other''" by (simp add: with_key_of_def ex_struct_def)
  have wr: "length x \<le> 32 \<Longrightarrow> \<exists>b. write_at (replicate 33 NUL) 0 (x @ [NUL]) = Some (x @ NUL # b)" for x
    by (simp add: write_at_def)
  have w0: "write_at b 0 [] = Some b" for b by (simp add: write_at_def)
  have run: "client_decrypt_msg ex_keyed ex_mem ctx (ex_struct ek) () = do {
      b \<leftarrow> write_at (replicate 33 NUL) 0 (((if ek = ex_ek then [] else ''?'') @ ''hi'') @ [NUL]);
      Some (Some b, ctx\<lparr>rsa_decrypt_ctx := []\<rparr>) }" for ek
    by (simp add: client_decrypt_msg_def ex_struct_reads ex_keyed_calls w0 Let_def)
  show "\<exists>b ctx'. client_decrypt_msg ex_keyed ex_mem ctx (ex_struct ex_ek) () = Some (Some b, ctx') \<and> cstr b = Some ''hi''"
    unfolding run using wr [of "''hi''"] by (auto simp: cstr_def)
  show "\<exists>b ctx'. client_decrypt_msg ex_keyed ex_mem ctx (with_key_of (ex_struct ex_ek) (ex_struct ''other'')) () = Some (Some b, ctx') \<and>
      cstr b = Some ''?hi''"
    unfolding w run using wr [of "''?hi''"] ex_other_key by (auto simp: cstr_def)
qed

theorem key_taken_over_witness:
  "evp_ok ex_keyed () () \<and>
   (\<exists>b ctx. client_decrypt_msg ex_keyed ex_mem ex_ctx (ex_struct ex_ek) () = Some (Some b, ctx) \<and> cstr b = Some ''hi'') \<and>
   (\<exists>s' b. mfold (decrypt_by ex_keyed ex_mem () (\<lambda>i. ex_struct (if i = 1 then ex_ek else ''other''))) [1, 2, 1, 1, 1]
      \<lparr>d_ctx = [], d_phase = (\<lambda>_. Calling)\<rparr> = Some s' \<and> d_phase s' 1 = Returned (Some b) \<and> cstr b = Some ''?hi'')"
proof -
  let ?msg = "\<lambda>i :: nat. ex_struct (if i = 1 then ex_ek else ''other'')" and ?s = "\<lparr>d_ctx = [], d_phase = (\<lambda>_. Calling)\<rparr> :: bytes decryptions"
  let ?b = "replicate 33 NUL"
  have "mfold (decrypt_by ex_keyed ex_mem () ?msg) [1, 2] ?s = Some \<lparr>d_ctx = ''?'', d_phase = (\<lambda>_. Calling)(1 := Opened ?b, 2 := Opened ?b)\<rparr>"
    by (auto simp: ex_other_key decrypt_by_def ex_struct_reads ex_keyed_calls)
  from key_taken_over [OF _ _ _ ex_keyed_ok(2) this, of ?b ?b ex_ctx] ex_keyed_decrypt [of ex_ctx] ex_keyed_ok(1)
  show ?thesis by auto
qed

end
