(* ===== verification/Threads.thy ===== *)
theory Threads
  imports ClientLoop
begin

text \<open>
  The threads of the client, one mutex section at a time. \<open>ClientLoop\<close> takes the reaction to a
  received message as one step; here a step is what a thread does between two points at which another
  thread may run (\<open>client_handle\<close>, \<open>client_parse_msg\<close>, \<open>name_server_handle\<close>, \<open>parse_peers\<close>,
  \<open>connect_to_peers\<close> of \<open>ac-client-server/client_server.c\<close>):
  a connection receives into its buffer; looks up and enters the message (under \<open>mht_mutex\<close>); sends it to
  the peers (under the mutex of the peer list); reads it. The thread of the name server receives and empties
  the peer list; adds one peer after the other; connects to one after the other.

  Which connections run is fixed here, and the user types nothing. \<open>strtok\<close> and the cipher contexts are as
  in the other theories (\<open>Strtok\<close> has the interleavings of \<open>strtok\<close>).
\<close>

section \<open>The steps of a connection\<close>

text \<open>The section under \<open>mht_mutex\<close>: the result says whether the message is new.\<close>

definition conn_enter ::
  "('t, 'kt, 'c, 'pub, 'priv) cenv \<Rightarrow> nat \<Rightarrow> ('t, 'kt, 'c) client \<Rightarrow> (bool \<times> ('t, 'kt, 'c) client) option" where
  "conn_enter E k s = do {
     seen \<leftarrow> client_has_seen_msg (ce_hash E) (cs_mem s) (cs_seen s) k;
     if seen \<noteq> 0 then Some (False, s)
     else do {
       t \<leftarrow> client_hash_add_msg (ce_hash E) (cs_mem s) (ce_time E) (cs_seen s) k;
       Some (True, s\<lparr>cs_seen := t\<rparr>)
     }
   }"

definition conn_relay ::
  "('t, 'kt, 'c, 'pub, 'priv) cenv \<Rightarrow> nat \<Rightarrow> nat \<Rightarrow> ('t, 'kt, 'c) client \<Rightarrow> ('t, 'kt, 'c) client option" where
  "conn_relay E k len s = do {
     b \<leftarrow> cs_mem s k;
     data \<leftarrow> read_bytes b (int len);
     peers \<leftarrow> client_send_to_all_peers (ce_peers E) data (cs_peers s);
     Some (s\<lparr>cs_peers := peers\<rparr>)
   }"

text \<open>Without interruption the two are the reaction of \<open>ClientLoop\<close>.\<close>

lemma relay_split:
  "client_relay_msg E k len s = do {
     (fresh, s) \<leftarrow> conn_enter E k s;
     if fresh then do { s \<leftarrow> conn_relay E k len s; Some (True, s) } else Some (False, s)
   }"
  by (cases "client_has_seen_msg (ce_hash E) (cs_mem s) (cs_seen s) k")
    (simp_all add: client_relay_msg_def conn_enter_def conn_relay_def Let_def)

section \<open>The steps of the name server's thread\<close>

datatype ns_task = Idle | Parsing "string option" string | Connecting nat int

text \<open>\<open>recv\<close>, the test of the prefix, \<open>clean_peers_list\<close> and the first call of \<open>strtok_r\<close>.\<close>

definition ns_receive ::
  "bytes \<Rightarrow> pstate \<Rightarrow> received \<Rightarrow> (ns_task \<times> pstate) option" where
  "ns_receive buffer s r = do {
     (res, buffer) \<leftarrow> recv_into buffer r;
     txt \<leftarrow> cstr buffer;
     if \<not> str_starts_with txt ''PEERS '' then Some (Idle, s)
     else if length (drop 6 txt) < 1 then Some (Connecting 0 0, s)
     else do {
       s \<leftarrow> clean_peers_list s;
       Some ((case strtok (CHR '' '') (drop 6 txt) of
                None \<Rightarrow> Parsing None []
              | Some (t, rest) \<Rightarrow> Parsing (Some t) rest), s)
     }
   }"

text \<open>One round of the loop of \<open>parse_peers\<close>, or of the loop of \<open>connect_to_peers\<close>.\<close>

definition ns_parse :: "penv \<Rightarrow> string \<Rightarrow> string \<Rightarrow> pstate \<Rightarrow> (ns_task \<times> pstate) option" where
  "ns_parse E t rest s =
     (case strtok (CHR '':'') t of
        None \<Rightarrow> Some (Parsing (Some t) rest, s)
      | Some (ip_addr, r) \<Rightarrow>
          (case strtok (CHR '':'') r of
             None \<Rightarrow> Some (Parsing (Some (takeWhile (\<lambda>c. c = CHR '':'') t @ ip_addr)) rest, s)
           | Some (port, save) \<Rightarrow> do {
               let ip_port_tok = strtok (CHR '' '') save;
               s \<leftarrow> add_peer E s ip_addr port;
               Some ((case strtok (CHR '' '') rest of
                        None \<Rightarrow> Parsing None []
                      | Some (t', rest') \<Rightarrow> Parsing (Some t') rest'), s)
             }))"

definition ns_run :: "penv \<Rightarrow> ns_task \<Rightarrow> pstate \<Rightarrow> (ns_task \<times> pstate) option" where
  "ns_run E task s =
     (case task of
        Idle \<Rightarrow> None
      | Parsing None rest \<Rightarrow> Some (Connecting 0 0, s)
      | Parsing (Some t) rest \<Rightarrow> ns_parse E t rest s
      | Connecting i failed \<Rightarrow>
          (if int i < list_size (ps_list s) then do {
             (failed, s) \<leftarrow> connect_nth E i (failed, s);
             Some (Connecting (Suc i) failed, s)
           }
           else Some (Idle, s)))"

section \<open>The threads together\<close>

datatype task = Waiting | Holding nat | Fresh nat | Relayed

record ('t, 'kt, 'c) threads =
  th_client :: "('t, 'kt, 'c) client"
  th_conns :: "nat \<rightharpoonup> nat \<times> task"
  th_server :: ns_task

text \<open>What a step does, with the text of the message that it is about.\<close>

datatype event = Recv nat string | Enter nat string | Relay nat string | Read nat string | Server

definition conn_to ::
  "('t, 'kt, 'c) threads \<Rightarrow> nat \<Rightarrow> nat \<Rightarrow> task \<Rightarrow> ('t, 'kt, 'c) client \<Rightarrow> ('t, 'kt, 'c) threads" where
  "conn_to w c k task s = w\<lparr>th_client := s, th_conns := (th_conns w)(c \<mapsto> (k, task))\<rparr>"

definition server_to ::
  "('t, 'kt, 'c) threads \<Rightarrow> ns_task \<Rightarrow> pstate \<Rightarrow> ('t, 'kt, 'c) threads" where
  "server_to w task p = w\<lparr>th_client := (th_client w)\<lparr>cs_peers := p\<rparr>, th_server := task\<rparr>"

text \<open>The threads after a step; \<open>None\<close> is a fault.\<close>

definition conn_after ::
  "('t, 'kt, 'c) threads \<Rightarrow> nat \<Rightarrow> nat \<Rightarrow> (task \<times> ('t, 'kt, 'c) client) option \<Rightarrow> ('t, 'kt, 'c) threads option" where
  "conn_after w c k r = map_option (\<lambda>(task, s). conn_to w c k task s) r"

definition server_after ::
  "('t, 'kt, 'c) threads \<Rightarrow> (ns_task \<times> pstate) option \<Rightarrow> ('t, 'kt, 'c) threads option" where
  "server_after w r = map_option (\<lambda>(task, p). server_to w task p) r"

definition recv_task :: "nat \<Rightarrow> bytes \<Rightarrow> ('t, 'kt, 'c) client \<Rightarrow> (task \<times> ('t, 'kt, 'c) client) option" where
  "recv_task k d s = do {
     buffer \<leftarrow> cs_mem s k;
     (n, b) \<leftarrow> recv_into buffer (Received d);
     Some (Holding n, s\<lparr>cs_mem := (cs_mem s)(k \<mapsto> b)\<rparr>)
   }"

inductive thread_step ::
  "('t, 'kt, 'c, 'pub, 'priv) cenv \<Rightarrow> ('t, 'kt, 'c) threads \<Rightarrow> event \<Rightarrow> ('t, 'kt, 'c) threads option \<Rightarrow> bool" for E where
  recv: "th_conns w c = Some (k, Waiting) \<Longrightarrow> recv_ok (Received d) \<Longrightarrow>
    thread_step E w (Recv c (takeWhile (\<lambda>x. x \<noteq> NUL) d)) (conn_after w c k (recv_task k d (th_client w)))"
| enter: "th_conns w c = Some (k, Holding n) \<Longrightarrow> text_at (cs_mem (th_client w)) k = Some d \<Longrightarrow>
    thread_step E w (Enter c d) (conn_after w c k
      (map_option (map_prod (\<lambda>fresh. if fresh then Fresh n else Waiting) id) (conn_enter (at_time E now rnd) k (th_client w))))"
| relay: "th_conns w c = Some (k, Fresh n) \<Longrightarrow> text_at (cs_mem (th_client w)) k = Some d \<Longrightarrow>
    thread_step E w (Relay c d) (conn_after w c k (map_option (Pair Relayed) (conn_relay E k n (th_client w))))"
| read: "th_conns w c = Some (k, Relayed) \<Longrightarrow> text_at (cs_mem (th_client w)) k = Some d \<Longrightarrow>
    thread_step E w (Read c d) (conn_after w c k (map_option (Pair Waiting) (client_read_msg E k (th_client w))))"
| server_recv: "th_server w = Idle \<Longrightarrow> BUFFER_SIZE < length buffer \<Longrightarrow> recv_ok r \<Longrightarrow>
    thread_step E w Server (server_after w (ns_receive buffer (cs_peers (th_client w)) r))"
| server_run: "th_server w \<noteq> Idle \<Longrightarrow>
    thread_step E w Server (server_after w (ns_run (ce_peers E) (th_server w) (cs_peers (th_client w))))"

inductive_cases thread_stepE: "thread_step E w e w'"

text \<open>A run; while it lasts, the keys in the table of seen messages are intact.\<close>

definition seen_intact :: "('t \<Rightarrow> message_hash entries) \<Rightarrow> ('t, 'kt, 'c) threads \<Rightarrow> bool" where
  "seen_intact ents w \<longleftrightarrow> intact (cs_mem (th_client w)) (ents (cs_seen (th_client w)))"

abbreviation thread_run ::
  "('t, 'kt, 'c, 'pub, 'priv) cenv \<Rightarrow> ('t, 'kt, 'c) threads \<Rightarrow> event list \<Rightarrow> ('t, 'kt, 'c) threads \<Rightarrow> bool" where
  "thread_run E \<equiv> run (thread_step E)"

definition intact_step ::
  "('t, 'kt, 'c, 'pub, 'priv) cenv \<Rightarrow> ('t \<Rightarrow> message_hash entries) \<Rightarrow> ('t, 'kt, 'c) threads \<Rightarrow> event \<Rightarrow>
     ('t, 'kt, 'c) threads option \<Rightarrow> bool" where
  "intact_step E ents w e r \<longleftrightarrow> seen_intact ents w \<and> thread_step E w e r"

abbreviation intact_run ::
  "('t, 'kt, 'c, 'pub, 'priv) cenv \<Rightarrow> ('t \<Rightarrow> message_hash entries) \<Rightarrow> ('t, 'kt, 'c) threads \<Rightarrow> event list \<Rightarrow>
     ('t, 'kt, 'c) threads \<Rightarrow> bool" where
  "intact_run E ents \<equiv> run (intact_step E ents)"

lemmas thread_run_init = run.init [where stp = "thread_step E" for E]
lemmas thread_run_step = run.step [where stp = "thread_step E" for E]

lemma intact_run_step:
  "intact_run E ents w0 es w \<Longrightarrow> seen_intact ents w \<Longrightarrow> thread_step E w e (Some w') \<Longrightarrow>
    intact_run E ents w0 (es @ [e]) w'"
  by (rule run.step) (simp_all add: intact_step_def)

lemma intact_run_run: "intact_run E ents w0 es w \<Longrightarrow> thread_run E w0 es w"
  by (rule run_mono [where stp = "intact_step E ents"]) (simp_all add: intact_step_def)

text \<open>Connections that wait for their first message, each with a buffer of its own; an idle name server.\<close>

definition own_buffers :: "('t, 'kt, 'c) threads \<Rightarrow> bool" where
  "own_buffers w \<longleftrightarrow> (\<forall>c k task. th_conns w c = Some (k, task) \<longrightarrow>
     (\<exists>b. cs_mem (th_client w) k = Some b \<and> BUFFER_SIZE < length b) \<and>
     (\<forall>c' task'. th_conns w c' = Some (k, task') \<longrightarrow> c' = c))"

definition all_waiting :: "('t, 'kt, 'c) threads \<Rightarrow> bool" where
  "all_waiting w \<longleftrightarrow> (\<forall>c k task. th_conns w c = Some (k, task) \<longrightarrow> task = Waiting)"

section \<open>What a step changes\<close>

lemma read_keeps_tables: "client_read_msg E k s = Some s' \<Longrightarrow>
    cs_mem s' = cs_mem s \<and> cs_seen s' = cs_seen s \<and> cs_peers s' = cs_peers s"
  by (auto dest!: read_keeps) (metis client.select_convs client.surjective client.update_convs)+

lemma conn_relay_keeps: "conn_relay E k n s = Some s' \<Longrightarrow> cs_mem s' = cs_mem s \<and> cs_seen s' = cs_seen s"
  by (auto simp: conn_relay_def bind_eq_Some_conv)

lemma conn_to_simps [simp]:
  "th_client (conn_to w c k task s) = s" "th_conns (conn_to w c k task s) = (th_conns w)(c \<mapsto> (k, task))"
  "th_server (conn_to w c k task s) = th_server w"
  by (simp_all add: conn_to_def)

lemma server_to_simps [simp]:
  "th_client (server_to w task p) = (th_client w)\<lparr>cs_peers := p\<rparr>" "th_conns (server_to w task p) = th_conns w"
  "th_server (server_to w task p) = task"
  by (simp_all add: server_to_def)

lemma conn_after_Some: "Some w' = conn_after w c k r \<longleftrightarrow> (\<exists>task s. r = Some (task, s) \<and> w' = conn_to w c k task s)"
  by (cases r) (auto simp: conn_after_def)

lemma server_after_Some: "Some w' = server_after w r \<longleftrightarrow> (\<exists>task p. r = Some (task, p) \<and> w' = server_to w task p)"
  by (cases r) (auto simp: server_after_def)

text \<open>The effect on the memory, the table and the connections, event by event.\<close>

lemma cstr_received: "cstr (dat @ NUL # r) = Some (takeWhile (\<lambda>x. x \<noteq> NUL) dat)"
  by (cases "NUL \<in> set dat") (auto simp: cstr_def takeWhile_absent takeWhile_stop)

lemma recv_effect:
  assumes "thread_step E w (Recv c d) (Some w')" and "own_buffers w"
  obtains k dat r where "th_conns w c = Some (k, Waiting)" and "cstr (dat @ NUL # r) = Some d"
    and "BUFFER_SIZE < length (dat @ NUL # r)"
    and "w' = conn_to w c k (Holding (length dat)) ((th_client w)\<lparr>cs_mem := (cs_mem (th_client w))(k \<mapsto> dat @ NUL # r)\<rparr>)"
proof -
  from assms(1) obtain k n b dat buffer where s: "th_conns w c = Some (k, Waiting)" "recv_ok (Received dat)"
    "d = takeWhile (\<lambda>x. x \<noteq> NUL) dat" "cs_mem (th_client w) k = Some buffer" "recv_into buffer (Received dat) = Some (n, b)"
    "w' = conn_to w c k (Holding n) ((th_client w)\<lparr>cs_mem := (cs_mem (th_client w))(k \<mapsto> b)\<rparr>)"
    by (cases rule: thread_step.cases) (auto simp: conn_after_Some server_after_Some recv_task_def bind_eq_Some_conv)
  have "BUFFER_SIZE < length buffer" using assms(2) s(1,4) unfolding own_buffers_def by fastforce
  with recv_into_block [of dat buffer] s(2,5) obtain r where "n = length dat" "b = dat @ NUL # r" "BUFFER_SIZE < length (dat @ NUL # r)"
    by (auto simp: recv_ok_def)
  with that [OF s(1)] s(3,6) show ?thesis by (simp add: cstr_received)
qed

lemma enter_effect:
  assumes "thread_step E w (Enter c d) (Some w')" and "ghash_ok (ce_hash E) ents" and "seen_intact ents w"
  obtains k n s where "th_conns w c = Some (k, Holding n)" and "text_at (cs_mem (th_client w)) k = Some d"
    and "cs_mem s = cs_mem (th_client w)" and "cs_peers s = cs_peers (th_client w)"
    and "if known (ents (cs_seen (th_client w))) d \<noteq> None then cs_seen s = cs_seen (th_client w)
         else \<exists>v. ents (cs_seen s) = (k, d, v) # ents (cs_seen (th_client w))"
    and "w' = conn_to w c k (if known (ents (cs_seen (th_client w))) d \<noteq> None then Waiting else Fresh n) s"
proof -
  let ?cl = "th_client w"
  from assms(1) obtain k n now rnd fresh s where r: "th_conns w c = Some (k, Holding n)" "text_at (cs_mem ?cl) k = Some d"
    "conn_enter (at_time E now rnd) k ?cl = Some (fresh, s)" "w' = conn_to w c k (if fresh then Fresh n else Waiting) s"
    by (cases rule: thread_step.cases) (auto simp: conn_after_Some server_after_Some recv_task_def bind_eq_Some_conv)
  from assms(3) have i: "intact (cs_mem ?cl) (ents (cs_seen ?cl))" by (simp add: seen_intact_def)
  note l = ghash_lookup [OF assms(2) i] and ins = ghash_insert [OF assms(2) i r(2)]
  show ?thesis
  proof (cases "known (ents (cs_seen ?cl)) d")
    case None
    with r(2,3) l have "fresh" "\<exists>v. s = ?cl\<lparr>cs_seen := g_insert (ce_hash E) (cs_seen ?cl) (cs_mem ?cl) k v\<rparr>"
      by (auto simp: conn_enter_def client_has_seen_msg_def client_hash_add_msg_def at_time_def)
    then obtain v where v: "s = ?cl\<lparr>cs_seen := g_insert (ce_hash E) (cs_seen ?cl) (cs_mem ?cl) k v\<rparr>" by blast
    show ?thesis
      by (rule that [OF r(1,2), of s]) (use None r(4) ins \<open>fresh\<close> in \<open>auto simp: v\<close>)
  next
    case (Some v)
    with r(2,3) l have "\<not> fresh" "s = ?cl"
      by (auto simp: conn_enter_def client_has_seen_msg_def at_time_def)
    with Some r that show ?thesis by auto
  qed
qed

lemma relay_effect:
  assumes "thread_step E w (Relay c d) (Some w')"
  obtains k n s where "th_conns w c = Some (k, Fresh n)" and "text_at (cs_mem (th_client w)) k = Some d"
    and "conn_relay E k n (th_client w) = Some s" and "w' = conn_to w c k Relayed s"
  using assms by (cases rule: thread_step.cases) (auto simp: conn_after_Some server_after_Some recv_task_def bind_eq_Some_conv)

lemma read_effect:
  assumes "thread_step E w (Read c d) (Some w')"
  obtains k s where "th_conns w c = Some (k, Relayed)" and "text_at (cs_mem (th_client w)) k = Some d"
    and "client_read_msg E k (th_client w) = Some s" and "w' = conn_to w c k Waiting s"
  using assms by (cases rule: thread_step.cases) (auto simp: conn_after_Some server_after_Some recv_task_def bind_eq_Some_conv)

lemma server_effect:
  assumes "thread_step E w Server (Some w')"
  obtains task p where "w' = server_to w task p"
    and "th_server w = Idle \<and> (\<exists>buffer r. BUFFER_SIZE < length buffer \<and> recv_ok r \<and>
           ns_receive buffer (cs_peers (th_client w)) r = Some (task, p)) \<or>
         th_server w \<noteq> Idle \<and> ns_run (ce_peers E) (th_server w) (cs_peers (th_client w)) = Some (task, p)"
  using assms by (cases rule: thread_step.cases) (auto simp: conn_after_Some server_after_Some recv_task_def bind_eq_Some_conv)

section \<open>Every thread has its buffer\<close>

lemma own_buffersD:
  assumes "own_buffers w" and "th_conns w c = Some (k, task)"
  shows "\<exists>b. cs_mem (th_client w) k = Some b \<and> BUFFER_SIZE < length b"
    and "th_conns w c' = Some (k, task') \<Longrightarrow> c' = c"
  using assms unfolding own_buffers_def by blast+

lemma own_buffers_task:
  assumes "own_buffers w" and "th_conns w c = Some (k, task)" and "cs_mem s = cs_mem (th_client w)"
  shows "own_buffers (conn_to w c k task' s)"
  using assms unfolding own_buffers_def by (auto split: if_splits)

lemma own_buffers_step:
  assumes step: "thread_step E w e (Some w')" and own: "own_buffers w"
  shows "own_buffers w'"
proof (cases e)
  case (Recv c d)
  from recv_effect [OF step [unfolded Recv] own] obtain k n b where
    r: "th_conns w c = Some (k, Waiting)" "BUFFER_SIZE < length b"
    "w' = conn_to w c k (Holding n) ((th_client w)\<lparr>cs_mem := (cs_mem (th_client w))(k \<mapsto> b)\<rparr>)" by metis
  with own show ?thesis unfolding own_buffers_def by (auto split: if_splits)
next
  case (Enter c d)
  from step [unfolded Enter] obtain k n now rnd fresh s where r: "th_conns w c = Some (k, Holding n)"
    "conn_enter (at_time E now rnd) k (th_client w) = Some (fresh, s)" "w' = conn_to w c k (if fresh then Fresh n else Waiting) s"
    by (cases rule: thread_step.cases) (auto simp: conn_after_Some)
  then have "cs_mem s = cs_mem (th_client w)" by (auto simp: conn_enter_def bind_eq_Some_conv split: if_splits)
  with own_buffers_task [OF own r(1)] r(3) show ?thesis by simp
next
  case (Relay c d)
  from relay_effect [OF step [unfolded Relay]] obtain k n s where "th_conns w c = Some (k, Fresh n)"
    "conn_relay E k n (th_client w) = Some s" "w' = conn_to w c k Relayed s" by blast
  with own_buffers_task [OF own] conn_relay_keeps show ?thesis by metis
next
  case (Read c d)
  from read_effect [OF step [unfolded Read]] obtain k s where "th_conns w c = Some (k, Relayed)"
    "client_read_msg E k (th_client w) = Some s" "w' = conn_to w c k Waiting s" by blast
  with own_buffers_task [OF own] read_keeps_tables show ?thesis by metis
next
  case Server
  from server_effect [OF step [unfolded Server]] obtain task p where "w' = server_to w task p" by blast
  with own show ?thesis by (simp add: own_buffers_def)
qed

section \<open>Relaying a text\<close>

text \<open>The connections with a task on the text.\<close>

definition workers :: "('t, 'kt, 'c) threads \<Rightarrow> string \<Rightarrow> (task \<Rightarrow> bool) \<Rightarrow> nat set" where
  "workers w d P = {c. \<exists>k task. th_conns w c = Some (k, task) \<and> P task \<and> text_at (cs_mem (th_client w)) k = Some d}"

definition is_holding :: "task \<Rightarrow> bool" where "is_holding task \<longleftrightarrow> (\<exists>n. task = Holding n)"

definition is_fresh :: "task \<Rightarrow> bool" where "is_fresh task \<longleftrightarrow> (\<exists>n. task = Fresh n)"

lemma task_kinds [simp]:
  "is_holding (Holding n)" "\<not> is_holding (Fresh n)" "\<not> is_holding Waiting" "\<not> is_holding Relayed"
  "is_fresh (Fresh n)" "\<not> is_fresh (Holding n)" "\<not> is_fresh Waiting" "\<not> is_fresh Relayed"
  by (simp_all add: is_holding_def is_fresh_def)

text \<open>How often a text was received, relayed and read.\<close>

definition receipts :: "event list \<Rightarrow> string \<Rightarrow> nat" where
  "receipts es d = length (filter (\<lambda>e. \<exists>c. e = Recv c d) es)"

definition relays :: "event list \<Rightarrow> string \<Rightarrow> nat" where
  "relays es d = length (filter (\<lambda>e. \<exists>c. e = Relay c d) es)"

definition reads :: "event list \<Rightarrow> string \<Rightarrow> nat" where
  "reads es d = length (filter (\<lambda>e. \<exists>c. e = Read c d) es)"

lemma counts_simps [simp]:
  "receipts [] d = 0" "relays [] d = 0" "reads [] d = 0"
  "receipts (e # es) d = (if \<exists>c. e = Recv c d then 1 else 0) + receipts es d"
  "relays (e # es) d = (if \<exists>c. e = Relay c d then 1 else 0) + relays es d"
  "reads (e # es) d = (if \<exists>c. e = Read c d then 1 else 0) + reads es d"
  "receipts (es @ fs) d = receipts es d + receipts fs d" "relays (es @ fs) d = relays es d + relays fs d"
  "reads (es @ fs) d = reads es d + reads fs d"
  by (simp_all add: receipts_def relays_def reads_def)

text \<open>
  Where a text is on its way: unknown and at most held by some connections; or entered, by exactly
  one connection that has to relay it, then to read it; or done.
\<close>

definition on_its_way :: "('t \<Rightarrow> message_hash entries) \<Rightarrow> string \<Rightarrow> event list \<Rightarrow> ('t, 'kt, 'c) threads \<Rightarrow> bool" where
  "on_its_way ents d es w \<longleftrightarrow>
     (let H = workers w d is_holding; F = workers w d is_fresh; R = workers w d (\<lambda>t. t = Relayed) in
      if known (ents (cs_seen (th_client w))) d = None
      then relays es d = 0 \<and> reads es d = 0 \<and> F = {} \<and> R = {} \<and> (receipts es d > 0 \<longrightarrow> H \<noteq> {})
      else relays es d = 0 \<and> reads es d = 0 \<and> (\<exists>c. F = {c}) \<and> R = {} \<or>
           relays es d = 1 \<and> reads es d = 0 \<and> F = {} \<and> (\<exists>c. R = {c}) \<or>
           relays es d = 1 \<and> reads es d = 1 \<and> F = {} \<and> R = {})"

lemma workers_conn:
  "cs_mem s = cs_mem (th_client w) \<Longrightarrow> workers (conn_to w c k task s) d P =
     (if P task \<and> text_at (cs_mem (th_client w)) k = Some d then insert c (workers w d P) else workers w d P - {c})"
  by (auto simp: workers_def)

lemma workers_self:
  "th_conns w c = Some (k, task) \<Longrightarrow> c \<in> workers w d P \<longleftrightarrow> P task \<and> text_at (cs_mem (th_client w)) k = Some d"
  by (simp add: workers_def)

lemma workers_recv:
  assumes "own_buffers w" and "th_conns w c = Some (k, Waiting)" and "cstr b = Some x"
  shows "workers (conn_to w c k (Holding n) ((th_client w)\<lparr>cs_mem := (cs_mem (th_client w))(k \<mapsto> b)\<rparr>)) d P =
    (if P (Holding n) \<and> x = d then insert c (workers w d P) else workers w d P - {c})"
proof (rule set_eqI)
  fix c'
  show "c' \<in> workers (conn_to w c k (Holding n) ((th_client w)\<lparr>cs_mem := (cs_mem (th_client w))(k \<mapsto> b)\<rparr>)) d P \<longleftrightarrow>
    c' \<in> (if P (Holding n) \<and> x = d then insert c (workers w d P) else workers w d P - {c})"
  proof (cases "c' = c")
    case True
    then show ?thesis using assms(3) by (simp add: workers_def text_at_fresh)
  next
    case False
    have "k' \<noteq> k" if "th_conns w c' = Some (k', task)" for k' task
      using own_buffersD(2) [OF assms(1,2)] that False by blast
    then show ?thesis using False by (auto simp: workers_def text_at_def)
  qed
qed

lemma on_its_way_recv:
  assumes way: "on_its_way ents d es w" and step: "thread_step E w (Recv c x) (Some w')" and own: "own_buffers w"
  shows "on_its_way ents d (es @ [Recv c x]) w'"
proof -
  from recv_effect [OF step own] obtain k n b where
    r: "th_conns w c = Some (k, Waiting)" "cstr b = Some x"
    "w' = conn_to w c k (Holding n) ((th_client w)\<lparr>cs_mem := (cs_mem (th_client w))(k \<mapsto> b)\<rparr>)" by metis
  have "c \<notin> workers w d is_holding" "c \<notin> workers w d is_fresh" "c \<notin> workers w d (\<lambda>t. t = Relayed)"
    by (simp_all add: workers_self [OF r(1)])
  with way show ?thesis by (auto simp: on_its_way_def Let_def r(3) workers_recv [OF own r(1,2)])
qed

lemma on_its_way_enter:
  assumes way: "on_its_way ents d es w" and step: "thread_step E w (Enter c x) (Some w')"
    and G: "ghash_ok (ce_hash E) ents" and i: "seen_intact ents w"
  shows "on_its_way ents d (es @ [Enter c x]) w'"
proof -
  let ?es = "ents (cs_seen (th_client w))"
  from enter_effect [OF step G i] obtain k n s where
    r: "th_conns w c = Some (k, Holding n)" "text_at (cs_mem (th_client w)) k = Some x" "cs_mem s = cs_mem (th_client w)"
    "if known ?es x \<noteq> None then cs_seen s = cs_seen (th_client w) else \<exists>v. ents (cs_seen s) = (k, x, v) # ?es"
    "w' = conn_to w c k (if known ?es x \<noteq> None then Waiting else Fresh n) s" by blast
  have c: "c \<notin> workers w d is_fresh" "c \<notin> workers w d (\<lambda>t. t = Relayed)" "c \<in> workers w d is_holding \<longleftrightarrow> x = d"
    using r(2) by (simp_all add: workers_self [OF r(1)])
  show ?thesis
  proof (cases "known ?es x = None")
    case True
    with r(4) obtain v where v: "ents (cs_seen s) = (k, x, v) # ?es" by auto
    from way c True show ?thesis
      by (cases "x = d") (auto simp: on_its_way_def Let_def r(5) workers_conn [OF r(3)] v r(2))
  next
    case False
    with r(4) have v: "cs_seen s = cs_seen (th_client w)" by simp
    from way c False show ?thesis
      by (cases "x = d") (auto simp: on_its_way_def Let_def r(5) workers_conn [OF r(3)] v r(2))
  qed
qed

lemma on_its_way_relay:
  assumes way: "on_its_way ents d es w" and step: "thread_step E w (Relay c x) (Some w')"
  shows "on_its_way ents d (es @ [Relay c x]) w'"
proof -
  from relay_effect [OF step] obtain k n s where r: "th_conns w c = Some (k, Fresh n)" "text_at (cs_mem (th_client w)) k = Some x"
    "conn_relay E k n (th_client w) = Some s" "w' = conn_to w c k Relayed s" by blast
  from conn_relay_keeps [OF r(3)] have s: "cs_mem s = cs_mem (th_client w)" "cs_seen s = cs_seen (th_client w)" by simp_all
  have c: "c \<in> workers w d is_fresh \<longleftrightarrow> x = d" "c \<notin> workers w d (\<lambda>t. t = Relayed)" "c \<notin> workers w d is_holding"
    using r(2) by (simp_all add: workers_self [OF r(1)])
  from way c show ?thesis
    by (cases "x = d") (auto simp: on_its_way_def Let_def r(4) workers_conn [OF s(1)] s(2) r(2) split: if_splits)
qed

lemma on_its_way_read:
  assumes way: "on_its_way ents d es w" and step: "thread_step E w (Read c x) (Some w')"
  shows "on_its_way ents d (es @ [Read c x]) w'"
proof -
  from read_effect [OF step] obtain k s where r: "th_conns w c = Some (k, Relayed)" "text_at (cs_mem (th_client w)) k = Some x"
    "client_read_msg E k (th_client w) = Some s" "w' = conn_to w c k Waiting s" by blast
  from read_keeps_tables [OF r(3)] have s: "cs_mem s = cs_mem (th_client w)" "cs_seen s = cs_seen (th_client w)" by simp_all
  have c: "c \<notin> workers w d is_fresh" "c \<in> workers w d (\<lambda>t. t = Relayed) \<longleftrightarrow> x = d" "c \<notin> workers w d is_holding"
    using r(2) by (simp_all add: workers_self [OF r(1)])
  from way c show ?thesis
    by (cases "x = d") (auto simp: on_its_way_def Let_def r(4) workers_conn [OF s(1)] s(2) r(2) split: if_splits)
qed

lemma on_its_way_step:
  assumes "on_its_way ents d es w" and "thread_step E w e (Some w')" and "own_buffers w"
    and "ghash_ok (ce_hash E) ents" and "seen_intact ents w"
  shows "on_its_way ents d (es @ [e]) w'"
proof (cases e)
  case (Recv c x)
  with assms show ?thesis by (auto intro: on_its_way_recv)
next
  case (Enter c x)
  with assms show ?thesis by (auto intro: on_its_way_enter)
next
  case (Relay c x)
  with assms show ?thesis by (auto intro: on_its_way_relay)
next
  case (Read c x)
  with assms show ?thesis by (auto intro: on_its_way_read)
next
  case Server
  from server_effect [OF assms(2) [unfolded Server]] obtain task p where "w' = server_to w task p" by blast
  moreover have "workers (server_to w task p) d P = workers w d P" for P by (simp add: workers_def)
  ultimately show ?thesis using assms(1) Server
    by (cases "known (ents (cs_seen (th_client w))) d") (simp_all add: on_its_way_def Let_def)
qed

interpretation way: traced "intact_step E ents"
  "\<lambda>es w. ghash_ok (ce_hash E) ents \<and> on_its_way ents d es w \<and> own_buffers w" for E ents d
  by unfold_locales (auto simp: intact_step_def intro: on_its_way_step own_buffers_step)

lemma on_its_way_run:
  assumes "intact_run E ents w0 es w" and "own_buffers w0" and "all_waiting w0"
    and "ghash_ok (ce_hash E) ents" and "known (ents (cs_seen (th_client w0))) d = None"
  shows "on_its_way ents d es w \<and> own_buffers w"
proof -
  have "on_its_way ents d [] w0"
    using assms(3,5) by (auto simp: on_its_way_def all_waiting_def workers_def is_fresh_def)
  with way.run_keeps [OF assms(1)] assms(2,4) show ?thesis by blast
qed

text \<open>When every connection waits again, what was received has been relayed and read.\<close>

lemma on_its_way_waiting:
  assumes "on_its_way ents d es w" and "all_waiting w" and "receipts es d > 0"
  shows "relays es d = 1 \<and> reads es d = 1"
proof -
  have "workers w d is_holding = {}" "workers w d is_fresh = {}" "workers w d (\<lambda>t. t = Relayed) = {}"
    using assms(2) by (auto simp: workers_def all_waiting_def is_holding_def is_fresh_def)
  with assms(1,3) show ?thesis by (simp add: on_its_way_def split: if_splits)
qed

section \<open>Every handler can go on\<close>

lemma recv_step:
  assumes "th_conns w c = Some (k, Waiting)" and "own_buffers w" and "d \<noteq> []" and "length d \<le> BUFFER_SIZE"
  shows "\<exists>r. BUFFER_SIZE < length (d @ NUL # r) \<and> thread_step E w (Recv c (takeWhile (\<lambda>x. x \<noteq> NUL) d))
    (Some (conn_to w c k (Holding (length d)) ((th_client w)\<lparr>cs_mem := (cs_mem (th_client w))(k \<mapsto> d @ NUL # r)\<rparr>)))"
proof -
  from own_buffersD(1) [OF assms(2,1)] obtain b where b: "cs_mem (th_client w) k = Some b" "BUFFER_SIZE < length b" by blast
  from recv_into_block [OF assms(4) b(2)] obtain r where
    r: "recv_into b (Received d) = Some (length d, d @ NUL # r)" "BUFFER_SIZE < length (d @ NUL # r)" by blast
  have "recv_ok (Received d)" using assms(3,4) by (simp add: recv_ok_def)
  from thread_step.recv [OF assms(1) this, of E] b r show ?thesis
    by (intro exI [of _ r]) (simp add: recv_task_def conn_after_def)
qed

lemma enter_step:
  assumes "th_conns w c = Some (k, Holding n)" and "text_at (cs_mem (th_client w)) k = Some d"
    and "ghash_ok (ce_hash E) ents" and "seen_intact ents w"
  shows "\<exists>s. thread_step E w (Enter c d)
      (Some (conn_to w c k (if known (ents (cs_seen (th_client w))) d \<noteq> None then Waiting else Fresh n) s)) \<and>
    intact (cs_mem s) (ents (cs_seen s)) \<and> cs_mem s = cs_mem (th_client w) \<and> cs_peers s = cs_peers (th_client w) \<and>
    known (ents (cs_seen s)) d \<noteq> None"
proof -
  obtain r where r: "conn_enter (at_time E 0 id) k (th_client w) = Some r"
    using assms(2) by (cases "g_lookup (ce_hash (at_time E 0 id)) (cs_seen (th_client w)) (cs_mem (th_client w)) d")
      (auto simp: conn_enter_def client_has_seen_msg_def client_hash_add_msg_def)
  obtain fresh s0 where fs: "r = (fresh, s0)" by fastforce
  define w' where "w' = conn_to w c k (if fresh then Fresh n else Waiting) s0"
  from thread_step.enter [OF assms(1,2), of E 0 id] r fs have step: "thread_step E w (Enter c d) (Some w')"
    by (simp add: conn_after_def w'_def)
  from enter_effect [OF step assms(3,4)] obtain s n' k' where s: "th_conns w c = Some (k', Holding n')"
    "cs_mem s = cs_mem (th_client w)" "cs_peers s = cs_peers (th_client w)"
    "if known (ents (cs_seen (th_client w))) d \<noteq> None then cs_seen s = cs_seen (th_client w)
         else \<exists>v. ents (cs_seen s) = (k', d, v) # ents (cs_seen (th_client w))"
    "w' = conn_to w c k' (if known (ents (cs_seen (th_client w))) d \<noteq> None then Waiting else Fresh n') s" by metis
  from s(1) assms(1) have "k' = k" "n' = n" by simp_all
  with s assms(2,4) step show ?thesis
    by (intro exI [of _ s]) (auto simp: seen_intact_def split: if_splits)
qed

lemma relay_step:
  assumes "th_conns w c = Some (k, Fresh (length dat))" and "cs_mem (th_client w) k = Some (dat @ NUL # r)"
    and "peers_ok (cs_peers (th_client w)) as"
  shows "thread_step E w (Relay c (takeWhile (\<lambda>x. x \<noteq> NUL) dat)) (Some (conn_to w c k Relayed
    ((th_client w)\<lparr>cs_peers := (cs_peers (th_client w))\<lparr>ps_sent := ps_sent (cs_peers (th_client w)) @
       flood (cs_peers (th_client w)) as dat\<rparr>\<rparr>)))"
proof -
  have "text_at (cs_mem (th_client w)) k = Some (takeWhile (\<lambda>x. x \<noteq> NUL) dat)"
    using assms(2) by (simp add: text_at_def cstr_received)
  from thread_step.relay [OF assms(1) this, of E] assms(2) client_send_to_all_peers_result [OF assms(3)] show ?thesis
    by (simp add: conn_relay_def conn_after_def read_bytes_def)
qed

lemma read_step:
  assumes "th_conns w c = Some (k, Relayed)" and "text_at (cs_mem (th_client w)) k = Some d" and "readable E d"
  shows "\<exists>ctx sh. thread_step E w (Read c d) (Some (conn_to w c k Waiting ((th_client w)\<lparr>cs_ctx := ctx, cs_shown := sh\<rparr>)))"
proof -
  from read_readable [OF assms(3,2)] obtain ctx sh where
    "client_read_msg E k (th_client w) = Some ((th_client w)\<lparr>cs_ctx := ctx, cs_shown := sh\<rparr>)" by blast
  with thread_step.read [OF assms(1,2), of E] show ?thesis by (auto simp: conn_after_def)
qed

text \<open>
  What holds of the handlers in every run: a thread that is not waiting has what it received in its
  buffer, terminated, and the peer list is well formed.
\<close>

definition handlers_ok :: "event list \<Rightarrow> ('t, 'kt, 'c) threads \<Rightarrow> bool" where
  "handlers_ok es w \<longleftrightarrow> own_buffers w \<and> peers_inv (cs_peers (th_client w)) \<and>
     (\<forall>c k task. th_conns w c = Some (k, task) \<longrightarrow> task \<noteq> Waiting \<longrightarrow> (\<exists>dat r.
        cs_mem (th_client w) k = Some (dat @ NUL # r) \<and> receipts es (takeWhile (\<lambda>x. x \<noteq> NUL) dat) > 0 \<and>
        (\<forall>n. task = Holding n \<or> task = Fresh n \<longrightarrow> n = length dat)))"

lemma handlers_okD:
  assumes "handlers_ok es w"
  shows "own_buffers w" and "peers_inv (cs_peers (th_client w))"
    and "th_conns w c = Some (k, task) \<Longrightarrow> task \<noteq> Waiting \<Longrightarrow> \<exists>dat r.
        cs_mem (th_client w) k = Some (dat @ NUL # r) \<and> receipts es (takeWhile (\<lambda>x. x \<noteq> NUL) dat) > 0 \<and>
        (\<forall>n. task = Holding n \<or> task = Fresh n \<longrightarrow> n = length dat)"
  using assms unfolding handlers_ok_def by blast+

lemma handlers_okI:
  assumes "own_buffers w" and "peers_inv (cs_peers (th_client w))"
    and "\<And>c k task. th_conns w c = Some (k, task) \<Longrightarrow> task \<noteq> Waiting \<Longrightarrow> \<exists>dat r.
        cs_mem (th_client w) k = Some (dat @ NUL # r) \<and> receipts es (takeWhile (\<lambda>x. x \<noteq> NUL) dat) > 0 \<and>
        (\<forall>n. task = Holding n \<or> task = Fresh n \<longrightarrow> n = length dat)"
  shows "handlers_ok es w"
  using assms unfolding handlers_ok_def by blast

lemma ns_receive_inv: "ns_receive buffer s r = Some (task, s') \<Longrightarrow> peers_inv s \<Longrightarrow> peers_inv s'"
  using clean_peers_list_result by (fastforce simp: ns_receive_def bind_eq_Some_conv peers_inv_def split: if_splits)

lemma ns_run_inv: "ns_run E task s = Some (task', s') \<Longrightarrow> peers_inv s \<Longrightarrow> peers_inv s'"
  by (auto simp: ns_run_def ns_parse_def bind_eq_Some_conv dest: connect_nth_inv
      split: ns_task.splits option.splits if_splits) (blast intro: add_peer_inv)+

text \<open>A step of a handler that keeps the memory.\<close>

lemma handlers_ok_task:
  assumes ok: "handlers_ok es w" and c: "th_conns w c = Some (k, task)" "task \<noteq> Waiting"
    and s: "cs_mem s = cs_mem (th_client w)" "peers_inv (cs_peers s)"
    and t: "\<And>n. task' = Holding n \<or> task' = Fresh n \<Longrightarrow> task = Holding n \<or> task = Fresh n"
  shows "handlers_ok (es @ [e]) (conn_to w c k task' s)"
proof (rule handlers_okI)
  show "own_buffers (conn_to w c k task' s)" by (rule own_buffers_task [OF handlers_okD(1) [OF ok] c(1) s(1)])
  show "peers_inv (cs_peers (th_client (conn_to w c k task' s)))" using s(2) by simp
  fix c' k' t'
  assume w': "th_conns (conn_to w c k task' s) c' = Some (k', t')" "t' \<noteq> Waiting"
  show "\<exists>dat r. cs_mem (th_client (conn_to w c k task' s)) k' = Some (dat @ NUL # r) \<and>
    receipts (es @ [e]) (takeWhile (\<lambda>x. x \<noteq> NUL) dat) > 0 \<and> (\<forall>n. t' = Holding n \<or> t' = Fresh n \<longrightarrow> n = length dat)"
  proof (cases "c' = c")
    case True
    from handlers_okD(3) [OF ok c] obtain dat r where "cs_mem (th_client w) k = Some (dat @ NUL # r)"
      "receipts es (takeWhile (\<lambda>x. x \<noteq> NUL) dat) > 0" "\<forall>n. task = Holding n \<or> task = Fresh n \<longrightarrow> n = length dat" by blast
    moreover have "k' = k" "t' = task'" using w'(1) True by simp_all
    ultimately show ?thesis using t s(1) by (intro exI [of _ dat] exI [of _ r]) (simp, blast)
  next
    case False
    with w'(1) have "th_conns w c' = Some (k', t')" by simp
    from handlers_okD(3) [OF ok this w'(2)] obtain dat r where "cs_mem (th_client w) k' = Some (dat @ NUL # r)"
      "receipts es (takeWhile (\<lambda>x. x \<noteq> NUL) dat) > 0" "\<forall>n. t' = Holding n \<or> t' = Fresh n \<longrightarrow> n = length dat" by blast
    with s(1) show ?thesis by (intro exI [of _ dat] exI [of _ r]) simp
  qed
qed

lemma handlers_ok_recv:
  assumes ok: "handlers_ok es w" and step: "thread_step E w (Recv c d) (Some w')"
  shows "handlers_ok (es @ [Recv c d]) w'"
proof -
  from recv_effect [OF step handlers_okD(1) [OF ok]] obtain k dat r where
    e: "th_conns w c = Some (k, Waiting)" "cstr (dat @ NUL # r) = Some d"
    "w' = conn_to w c k (Holding (length dat)) ((th_client w)\<lparr>cs_mem := (cs_mem (th_client w))(k \<mapsto> dat @ NUL # r)\<rparr>)" .
  show ?thesis
  proof (rule handlers_okI)
    show "own_buffers w'" by (rule own_buffers_step [OF step handlers_okD(1) [OF ok]])
    show "peers_inv (cs_peers (th_client w'))" using handlers_okD(2) [OF ok] e(3) by simp
    fix c' k' t' assume w': "th_conns w' c' = Some (k', t')" "t' \<noteq> Waiting"
    show "\<exists>dat r. cs_mem (th_client w') k' = Some (dat @ NUL # r) \<and> receipts (es @ [Recv c d]) (takeWhile (\<lambda>x. x \<noteq> NUL) dat) > 0 \<and>
      (\<forall>n. t' = Holding n \<or> t' = Fresh n \<longrightarrow> n = length dat)"
    proof (cases "c' = c")
      case True
      with w'(1) e(3) have "k' = k" "t' = Holding (length dat)" by simp_all
      moreover have "takeWhile (\<lambda>x. x \<noteq> NUL) dat = d" using e(2) by (simp add: cstr_received)
      ultimately show ?thesis using e(3) by (intro exI [of _ dat] exI [of _ r]) simp
    next
      case False
      with w'(1) e(3) have c': "th_conns w c' = Some (k', t')" by simp
      with own_buffersD(2) [OF handlers_okD(1) [OF ok] e(1)] False have "k' \<noteq> k" by blast
      with handlers_okD(3) [OF ok c' w'(2)] e(3) show ?thesis by auto
    qed
  qed
qed

lemma handlers_ok_server:
  assumes ok: "handlers_ok es w" and step: "thread_step E w Server (Some w')"
  shows "handlers_ok (es @ [Server]) w'"
proof -
  from server_effect [OF step] obtain task p where w': "w' = server_to w task p"
    and p: "th_server w = Idle \<and> (\<exists>buffer r. BUFFER_SIZE < length buffer \<and> recv_ok r \<and>
           ns_receive buffer (cs_peers (th_client w)) r = Some (task, p)) \<or>
         th_server w \<noteq> Idle \<and> ns_run (ce_peers E) (th_server w) (cs_peers (th_client w)) = Some (task, p)" .
  have "peers_inv p" using p by (elim disjE exE conjE) (auto intro: ns_receive_inv ns_run_inv handlers_okD(2) [OF ok])
  show ?thesis
  proof (rule handlers_okI)
    show "own_buffers w'" by (rule own_buffers_step [OF step handlers_okD(1) [OF ok]])
    show "peers_inv (cs_peers (th_client w'))" using \<open>peers_inv p\<close> w' by simp
    fix c k t assume c: "th_conns w' c = Some (k, t)" "t \<noteq> Waiting"
    then have "th_conns w c = Some (k, t)" using w' by simp
    from handlers_okD(3) [OF ok this c(2)] obtain dat r where "cs_mem (th_client w) k = Some (dat @ NUL # r)"
      "receipts es (takeWhile (\<lambda>x. x \<noteq> NUL) dat) > 0" "\<forall>n. t = Holding n \<or> t = Fresh n \<longrightarrow> n = length dat" by blast
    then show "\<exists>dat r. cs_mem (th_client w') k = Some (dat @ NUL # r) \<and>
      receipts (es @ [Server]) (takeWhile (\<lambda>x. x \<noteq> NUL) dat) > 0 \<and> (\<forall>n. t = Holding n \<or> t = Fresh n \<longrightarrow> n = length dat)"
      using w' by (intro exI [of _ dat] exI [of _ r]) simp
  qed
qed

lemma handlers_ok_step:
  assumes ok: "handlers_ok es w" and step: "thread_step E w e (Some w')"
  shows "handlers_ok (es @ [e]) w'"
proof (cases e)
  case (Recv c d)
  with handlers_ok_recv [OF ok] step show ?thesis by simp
next
  case (Enter c d)
  from step [unfolded Enter] obtain k n now rnd fresh s where r: "th_conns w c = Some (k, Holding n)"
    "conn_enter (at_time E now rnd) k (th_client w) = Some (fresh, s)" "w' = conn_to w c k (if fresh then Fresh n else Waiting) s"
    by (cases rule: thread_step.cases) (auto simp: conn_after_Some)
  then have "cs_mem s = cs_mem (th_client w)" "cs_peers s = cs_peers (th_client w)"
    by (auto simp: conn_enter_def bind_eq_Some_conv split: if_splits)
  then show ?thesis
    unfolding r(3) using handlers_okD(2) [OF ok] by (intro handlers_ok_task [OF ok r(1)]) (auto split: if_splits)
next
  case (Relay c d)
  from relay_effect [OF step [unfolded Relay]] obtain k n s where r: "th_conns w c = Some (k, Fresh n)"
    "conn_relay E k n (th_client w) = Some s" "w' = conn_to w c k Relayed s" .
  then have "peers_inv (cs_peers s)"
    using send_to_all_inv handlers_okD(2) [OF ok] by (fastforce simp: conn_relay_def bind_eq_Some_conv)
  then show ?thesis
    unfolding r(3) using conn_relay_keeps [OF r(2)] by (intro handlers_ok_task [OF ok r(1)]) simp_all
next
  case (Read c d)
  from read_effect [OF step [unfolded Read]] obtain k s where r: "th_conns w c = Some (k, Relayed)"
    "client_read_msg E k (th_client w) = Some s" "w' = conn_to w c k Waiting s" .
  show ?thesis
    unfolding r(3) using read_keeps_tables [OF r(2)] handlers_okD(2) [OF ok]
    by (intro handlers_ok_task [OF ok r(1)]) simp_all
next
  case Server
  with handlers_ok_server [OF ok] step show ?thesis by simp
qed

interpretation hdl: traced "thread_step E" handlers_ok for E
  by unfold_locales (rule handlers_ok_step)

lemma handlers_ok_run:
  assumes "thread_run E w0 es w" and "own_buffers w0" and "all_waiting w0" and "peers_inv (cs_peers (th_client w0))"
  shows "handlers_ok es w"
  using assms(2-4) by (intro hdl.run_keeps [OF assms(1)]) (simp add: handlers_ok_def all_waiting_def)

section \<open>Every handler finishes\<close>

text \<open>A run that can go on.\<close>

definition under_way ::
  "('t, 'kt, 'c, 'pub, 'priv) cenv \<Rightarrow> ('t \<Rightarrow> message_hash entries) \<Rightarrow> ('t, 'kt, 'c) threads \<Rightarrow> event list \<Rightarrow>
     ('t, 'kt, 'c) threads \<Rightarrow> bool" where
  "under_way E ents w0 es w \<longleftrightarrow> intact_run E ents w0 es w \<and> handlers_ok es w \<and> seen_intact ents w \<and>
     ghash_ok (ce_hash E) ents \<and> (\<forall>d. receipts es d > 0 \<longrightarrow> readable E d)"

lemma under_way_step:
  assumes "under_way E ents w0 es w" and "thread_step E w e (Some w')" and "seen_intact ents w'"
    and "\<forall>c d. e \<noteq> Recv c d"
  shows "under_way E ents w0 (es @ [e]) w'"
  using assms intact_run_step [of E ents w0 es w e w'] handlers_ok_step [of es w E e w']
  by (simp add: under_way_def)

text \<open>A connection with a task gets back to waiting by steps of its own.\<close>

lemma finish_relayed:
  assumes u: "under_way E ents w0 es w" and c: "th_conns w c = Some (k, Relayed)"
  shows "\<exists>fs w'. under_way E ents w0 (es @ fs) w' \<and> (\<forall>d. receipts fs d = 0) \<and> th_conns w' = (th_conns w)(c \<mapsto> (k, Waiting))"
proof -
  from u have ok: "handlers_ok es w" by (simp add: under_way_def)
  from handlers_okD(3) [OF ok c] obtain dat r where d: "cs_mem (th_client w) k = Some (dat @ NUL # r)"
    "receipts es (takeWhile (\<lambda>x. x \<noteq> NUL) dat) > 0" by blast
  let ?d = "takeWhile (\<lambda>x. x \<noteq> NUL) dat"
  have t: "text_at (cs_mem (th_client w)) k = Some ?d" using d(1) by (simp add: text_at_def cstr_received)
  from u d(2) have "readable E ?d" by (simp add: under_way_def)
  from read_step [OF c t this] obtain ctx sh where
    s: "thread_step E w (Read c ?d) (Some (conn_to w c k Waiting ((th_client w)\<lparr>cs_ctx := ctx, cs_shown := sh\<rparr>)))" by blast
  from under_way_step [OF u s] u have "under_way E ents w0 (es @ [Read c ?d])
      (conn_to w c k Waiting ((th_client w)\<lparr>cs_ctx := ctx, cs_shown := sh\<rparr>))"
    by (simp add: under_way_def seen_intact_def)
  moreover have "receipts [Read c ?d] d' = 0" for d' by (simp add: receipts_def)
  ultimately show ?thesis by (intro exI [of _ "[Read c ?d]"] exI conjI) (assumption, simp_all)
qed

lemma finish_fresh:
  assumes u: "under_way E ents w0 es w" and c: "th_conns w c = Some (k, Fresh n)"
  shows "\<exists>fs w'. under_way E ents w0 (es @ fs) w' \<and> (\<forall>d. receipts fs d = 0) \<and> th_conns w' = (th_conns w)(c \<mapsto> (k, Waiting))"
proof -
  from u have ok: "handlers_ok es w" by (simp add: under_way_def)
  from handlers_okD(3) [OF ok c] obtain dat r where d: "cs_mem (th_client w) k = Some (dat @ NUL # r)" "n = length dat" by blast
  from handlers_okD(2) [OF ok] obtain as where as: "peers_ok (cs_peers (th_client w)) as" by (auto simp: peers_inv_def)
  let ?e = "Relay c (takeWhile (\<lambda>x. x \<noteq> NUL) dat)"
  note s = relay_step [OF c [unfolded d(2)] d(1) as, of E]
  obtain w' where w: "w' = conn_to w c k Relayed ((th_client w)\<lparr>cs_peers := (cs_peers (th_client w))\<lparr>ps_sent :=
      ps_sent (cs_peers (th_client w)) @ flood (cs_peers (th_client w)) as dat\<rparr>\<rparr>)" by simp
  have "seen_intact ents w'" using u by (simp add: w under_way_def seen_intact_def)
  from under_way_step [OF u s [folded w] this] w have w': "under_way E ents w0 (es @ [?e]) w'"
    "th_conns w' = (th_conns w)(c \<mapsto> (k, Relayed))" by simp_all
  from finish_relayed [OF w'(1), of c k] w'(2) obtain fs w2 where
    "under_way E ents w0 (es @ [?e] @ fs) w2" "\<forall>d. receipts fs d = 0" "th_conns w2 = (th_conns w)(c \<mapsto> (k, Waiting))" by auto
  moreover have "receipts ([?e] @ fs) d' = 0" for d' using calculation(2) by (simp add: receipts_def)
  ultimately show ?thesis by blast
qed

lemma finish_holding:
  assumes u: "under_way E ents w0 es w" and c: "th_conns w c = Some (k, Holding n)"
  shows "\<exists>fs w'. under_way E ents w0 (es @ fs) w' \<and> (\<forall>d. receipts fs d = 0) \<and> th_conns w' = (th_conns w)(c \<mapsto> (k, Waiting))"
proof -
  from u have ok: "handlers_ok es w" and G: "ghash_ok (ce_hash E) ents" and i: "seen_intact ents w" by (simp_all add: under_way_def)
  from handlers_okD(3) [OF ok c] obtain dat r where d: "cs_mem (th_client w) k = Some (dat @ NUL # r)" by blast
  let ?d = "takeWhile (\<lambda>x. x \<noteq> NUL) dat"
  let ?e = "Enter c ?d" and ?t = "if known (ents (cs_seen (th_client w))) ?d \<noteq> None then Waiting else Fresh n"
  have "text_at (cs_mem (th_client w)) k = Some ?d" using d by (simp add: text_at_def cstr_received)
  from enter_step [OF c this G i] obtain s where s: "thread_step E w ?e (Some (conn_to w c k ?t s))"
    "intact (cs_mem s) (ents (cs_seen s))" by blast
  have e: "receipts [?e] d' = 0" for d' by (simp add: receipts_def)
  from under_way_step [OF u s(1)] s(2) have w': "under_way E ents w0 (es @ [?e]) (conn_to w c k ?t s)"
    by (simp add: seen_intact_def)
  show ?thesis
  proof (cases "known (ents (cs_seen (th_client w))) ?d = None")
    case True
    with finish_fresh [OF w', of c k n] obtain fs w2 where "under_way E ents w0 (es @ [?e] @ fs) w2"
      "\<forall>d. receipts fs d = 0" "th_conns w2 = (th_conns w)(c \<mapsto> (k, Waiting))" by auto
    then show ?thesis by (intro exI [of _ "[?e] @ fs"] exI [of _ w2]) (simp add: e)
  next
    case False
    with w' e show ?thesis by (intro exI [of _ "[?e]"] exI [of _ "conn_to w c k ?t s"]) simp
  qed
qed

lemma finish_one:
  assumes u: "under_way E ents w0 es w" and c: "th_conns w c = Some (k, task)" "task \<noteq> Waiting"
  shows "\<exists>fs w'. under_way E ents w0 (es @ fs) w' \<and> (\<forall>d. receipts fs d = 0) \<and> th_conns w' = (th_conns w)(c \<mapsto> (k, Waiting))"
proof (cases task)
  case (Holding n)
  show ?thesis by (rule finish_holding [OF u c(1) [unfolded Holding]])
next
  case (Fresh n)
  show ?thesis by (rule finish_fresh [OF u c(1) [unfolded Fresh]])
next
  case Relayed
  show ?thesis by (rule finish_relayed [OF u c(1) [unfolded Relayed]])
qed (use c in simp)

definition busy :: "('t, 'kt, 'c) threads \<Rightarrow> nat set" where
  "busy w = {c. \<exists>k task. th_conns w c = Some (k, task) \<and> task \<noteq> Waiting}"

lemma busy_empty: "busy w = {} \<longleftrightarrow> all_waiting w"
  by (auto simp: busy_def all_waiting_def)

lemma finish_all:
  assumes "under_way E ents w0 es w" and "finite (busy w)"
  shows "\<exists>fs w'. under_way E ents w0 (es @ fs) w' \<and> (\<forall>d. receipts fs d = 0) \<and> all_waiting w'"
  using assms
proof (induction "card (busy w)" arbitrary: es w)
  case 0
  then have "all_waiting w" by (simp add: busy_empty)
  with 0 show ?case by (intro exI [of _ "[]"] exI [of _ w]) simp
next
  case (Suc n)
  then obtain c where c: "c \<in> busy w" by fastforce
  then obtain k task where "th_conns w c = Some (k, task)" "task \<noteq> Waiting" by (auto simp: busy_def)
  from finish_one [OF Suc.prems(1) this] obtain fs w' where
    1: "under_way E ents w0 (es @ fs) w'" "\<forall>d. receipts fs d = 0" "th_conns w' = (th_conns w)(c \<mapsto> (k, Waiting))" by blast
  then have "busy w' = busy w - {c}" by (auto simp: busy_def split: if_splits)
  with Suc c have "n = card (busy w')" "finite (busy w')" by simp_all
  from Suc.hyps(1) [OF this(1) 1(1) this(2)] obtain gs w2 where
    "under_way E ents w0 ((es @ fs) @ gs) w2" "\<forall>d. receipts gs d = 0" "all_waiting w2" by blast
  with 1(2) show ?case by (intro exI [of _ "fs @ gs"] exI [of _ w2]) simp
qed

lemma step_dom: "thread_step E w e (Some w') \<Longrightarrow> dom (th_conns w') = dom (th_conns w)"
  by (cases rule: thread_step.cases, assumption) (auto simp: conn_after_Some server_after_Some split: if_splits)

interpretation thd: kept "thread_step E" "\<lambda>w. dom (th_conns w) = D" for E D
  by unfold_locales (simp add: step_dom)

lemma run_dom: "thread_run E w0 es w \<Longrightarrow> dom (th_conns w) = dom (th_conns w0)"
  by (rule thd.run_keeps) simp_all

lemma busy_dom: "busy w \<subseteq> dom (th_conns w)"
  by (auto simp: busy_def)

text \<open>An example: two connections receive the same message before either of them has looked it up.\<close>

definition ex_threads :: "pstate \<Rightarrow> ((nat \<times> string \<times> message_hash) list, (nat \<times> string \<times> unit rsa_key) list, bytes) threads" where
  "ex_threads ps = \<lparr>th_client = ex_client_at ps, th_conns = [0 \<mapsto> (1, Waiting), 1 \<mapsto> (2, Waiting)], th_server = Idle\<rparr>"

lemma ex_threads_ok: "own_buffers (ex_threads ps)" "all_waiting (ex_threads ps)" "finite (dom (th_conns (ex_threads ps)))"
  "seen_intact (\<lambda>t. t) (ex_threads ps)" "cs_peers (th_client (ex_threads ps)) = ps"
  "known (cs_seen (th_client (ex_threads ps))) d = None"
  by (auto simp: ex_threads_def own_buffers_def all_waiting_def length_ex_malloc BUFFER_SIZE_def seen_intact_def split: if_splits)

lemma readable_not_empty: "\<not> readable ex_cenv []"
proof
  assume "readable ex_cenv []"
  then obtain r where "msg_decode_decrypt ex_evp ex_malloc (ex_sealed 1) [] ex_ctx () = Some r"
    unfolding readable_def ex_cenv_simps by blast
  moreover have "msg_decode_decrypt ex_evp ex_malloc (ex_sealed 1) [] ex_ctx () = None"
    by (simp add: msg_decode_decrypt_def strncpy_def ex_malloc_def cstr_def parse_str_encrypted_msg_def decode_token_def strtok_def)
  ultimately show False by simp
qed

lemma ex_two_receipts:
  assumes "readable ex_cenv d" and "NUL \<notin> set d" and "length d \<le> BUFFER_SIZE" and "peers_inv ps"
  shows "\<exists>w. under_way ex_cenv (\<lambda>t. t) (ex_threads ps) [Recv 0 d, Recv 1 d] w \<and> finite (busy w)"
proof -
  let ?w0 = "ex_threads ps"
  have d: "d \<noteq> []" using assms(1) readable_not_empty by blast
  have t: "takeWhile (\<lambda>x. x \<noteq> NUL) d = d" using assms(2) by (simp add: takeWhile_absent)
  have c0: "th_conns ?w0 0 = Some (1, Waiting)" by (simp add: ex_threads_def)
  from recv_step [OF c0 ex_threads_ok(1) d assms(3), unfolded t] obtain r1 where
    r1: "thread_step ex_cenv ?w0 (Recv 0 d) (Some (conn_to ?w0 0 1 (Holding (length d))
      ((th_client ?w0)\<lparr>cs_mem := (cs_mem (th_client ?w0))(1 \<mapsto> d @ NUL # r1)\<rparr>)))" by blast
  define w1 where "w1 = conn_to ?w0 0 1 (Holding (length d)) ((th_client ?w0)\<lparr>cs_mem := (cs_mem (th_client ?w0))(1 \<mapsto> d @ NUL # r1)\<rparr>)"
  have w1: "thread_step ex_cenv ?w0 (Recv 0 d) (Some w1)" "th_conns w1 1 = Some (2, Waiting)" "cs_seen (th_client w1) = []"
    using r1 by (simp_all add: w1_def) (simp_all add: ex_threads_def)
  have own: "own_buffers w1" by (rule own_buffers_step [OF w1(1) ex_threads_ok(1)])
  from recv_step [OF w1(2) own d assms(3), unfolded t] obtain r2 where
    r2: "thread_step ex_cenv w1 (Recv 1 d) (Some (conn_to w1 1 2 (Holding (length d))
      ((th_client w1)\<lparr>cs_mem := (cs_mem (th_client w1))(2 \<mapsto> d @ NUL # r2)\<rparr>)))" by blast
  define w2 where "w2 = conn_to w1 1 2 (Holding (length d)) ((th_client w1)\<lparr>cs_mem := (cs_mem (th_client w1))(2 \<mapsto> d @ NUL # r2)\<rparr>)"
  have w2: "thread_step ex_cenv w1 (Recv 1 d) (Some w2)" "cs_seen (th_client w2) = []"
    using r2 w1(3) by (simp_all add: w2_def)
  have i: "seen_intact (\<lambda>t. t) w1" "seen_intact (\<lambda>t. t) w2" using w1(3) w2(2) by (simp_all add: seen_intact_def)
  have run: "intact_run ex_cenv (\<lambda>t. t) ?w0 [Recv 0 d, Recv 1 d] w2"
    using intact_run_step [OF intact_run_step [OF run.init ex_threads_ok(4) w1(1)] i(1) w2(1)] by simp
  have ps: "peers_inv (cs_peers (th_client ?w0))" using assms(4) by (simp add: ex_threads_ok)
  have "handlers_ok [Recv 0 d, Recv 1 d] w2"
    by (rule handlers_ok_run [OF intact_run_run [OF run] ex_threads_ok(1,2) ps])
  moreover have "finite (busy w2)"
    by (rule finite_subset [OF busy_dom]) (simp add: run_dom [OF intact_run_run [OF run]] ex_threads_ok(3))
  moreover have "receipts [Recv 0 d, Recv 1 d] x > 0 \<Longrightarrow> x = d" for x by (auto split: if_splits)
  ultimately show ?thesis using run i(2) glib_ghash_ok assms(1) unfolding under_way_def
    by (intro exI [of _ w2]) auto
qed

section \<open>Properties\<close>

text \<open>
  C12: the threads of a client relay and read each message once, however they are interleaved. In every run of
  the connections and of the name server's thread during which the table of seen messages stays intact, a
  message that was not known at the start is relayed to the peers at most once and read at most once,
  although several connections may have received it and run at the same time; and when no connection has a
  task left, each message that was received has been relayed and read exactly once.
\<close>

theorem relayed_exactly_once:
  assumes "ghash_ok (ce_hash E) ents" and "own_buffers w0" and "all_waiting w0"
    and "known (ents (cs_seen (th_client w0))) d = None" and "intact_run E ents w0 es w"
  shows "relays es d \<le> 1 \<and> reads es d \<le> relays es d \<and>
    (all_waiting w \<and> receipts es d > 0 \<longrightarrow> relays es d = 1 \<and> reads es d = 1)"
proof -
  from on_its_way_run [OF assms(5,2,3,1,4)] have way: "on_its_way ents d es w" by blast
  then have "relays es d \<le> 1 \<and> reads es d \<le> relays es d" by (auto simp: on_its_way_def Let_def split: if_splits)
  with on_its_way_waiting [OF way] show ?thesis by blast
qed

theorem relayed_exactly_once_witness:
  "\<exists>ps d fs w. intact_run ex_cenv (\<lambda>t. t) (ex_threads ps) ([Recv 0 d, Recv 1 d] @ fs) w \<and> all_waiting w \<and>
     relays ([Recv 0 d, Recv 1 d] @ fs) d = 1 \<and> reads ([Recv 0 d, Recv 1 d] @ fs) d = 1"
proof -
  obtain ps as where "peers_ok ps as" using ex_open_peer by blast
  then have ps: "peers_inv ps" by (auto simp: peers_inv_def)
  have "length ''hi'' \<le> 462" "NUL \<notin> set ''hi''" by simp_all
  from ex_message [OF this] obtain d where d: "readable ex_cenv d" "NUL \<notin> set d" "length d \<le> BUFFER_SIZE" by blast
  from ex_two_receipts [OF d ps] obtain w2 where "under_way ex_cenv (\<lambda>t. t) (ex_threads ps) [Recv 0 d, Recv 1 d] w2"
    "finite (busy w2)" by blast
  from finish_all [OF this] obtain fs w where
    run: "intact_run ex_cenv (\<lambda>t. t) (ex_threads ps) ([Recv 0 d, Recv 1 d] @ fs) w" "all_waiting w"
    unfolding under_way_def by blast
  have G: "ghash_ok (ce_hash ex_cenv) (\<lambda>t. t)" using glib_ghash_ok by simp
  from relayed_exactly_once [OF G ex_threads_ok(1,2,6) run(1)] run(2) have
    "relays ([Recv 0 d, Recv 1 d] @ fs) d = 1 \<and> reads ([Recv 0 d, Recv 1 d] @ fs) d = 1" by auto
  with run show ?thesis by blast
qed

text \<open>
  C13: in every interleaving of the threads, the task of a connection describes its buffer: each connection has a
  buffer of its own with more than 1500 bytes; and if it holds, relays or reads a message, the buffer consists of the
  bytes that were received, a NUL and a rest, with the number of bytes that the task carries, and their
  text is one that was received. The peer list stays well formed.
\<close>

theorem tasks_well_typed:
  assumes "thread_run E w0 es w" and "own_buffers w0" and "all_waiting w0" and "peers_inv (cs_peers (th_client w0))"
    and "th_conns w c = Some (k, task)"
  shows "peers_inv (cs_peers (th_client w)) \<and>
    (\<exists>b. cs_mem (th_client w) k = Some b \<and> 1500 < length b \<and> (\<forall>c' task'. th_conns w c' = Some (k, task') \<longrightarrow> c' = c) \<and>
       (case task of Waiting \<Rightarrow> True
        | Holding n \<Rightarrow> \<exists>dat r. b = dat @ NUL # r \<and> length dat = n \<and> receipts es (takeWhile (\<lambda>x. x \<noteq> NUL) dat) > 0
        | Fresh n \<Rightarrow> \<exists>dat r. b = dat @ NUL # r \<and> length dat = n \<and> receipts es (takeWhile (\<lambda>x. x \<noteq> NUL) dat) > 0
        | Relayed \<Rightarrow> \<exists>dat r. b = dat @ NUL # r \<and> receipts es (takeWhile (\<lambda>x. x \<noteq> NUL) dat) > 0))"
proof -
  note ok = handlers_ok_run [OF assms(1-4)]
  from own_buffersD [OF handlers_okD(1) [OF ok] assms(5)] obtain b where
    b: "cs_mem (th_client w) k = Some b" "BUFFER_SIZE < length b" "\<And>c' t. th_conns w c' = Some (k, t) \<Longrightarrow> c' = c" by blast
  have d: "\<exists>dat r. b = dat @ NUL # r \<and> receipts es (takeWhile (\<lambda>x. x \<noteq> NUL) dat) > 0 \<and>
      (\<forall>n. task = Holding n \<or> task = Fresh n \<longrightarrow> n = length dat)" if "task \<noteq> Waiting"
    using handlers_okD(3) [OF ok assms(5) that] unfolding b(1) option.inject by blast
  have "case task of Waiting \<Rightarrow> True
      | Holding n \<Rightarrow> \<exists>dat r. b = dat @ NUL # r \<and> length dat = n \<and> receipts es (takeWhile (\<lambda>x. x \<noteq> NUL) dat) > 0
      | Fresh n \<Rightarrow> \<exists>dat r. b = dat @ NUL # r \<and> length dat = n \<and> receipts es (takeWhile (\<lambda>x. x \<noteq> NUL) dat) > 0
      | Relayed \<Rightarrow> \<exists>dat r. b = dat @ NUL # r \<and> receipts es (takeWhile (\<lambda>x. x \<noteq> NUL) dat) > 0"
  proof (cases task)
    case (Holding n)
    with d show ?thesis unfolding Holding task.case by blast
  next
    case (Fresh n)
    with d show ?thesis unfolding Fresh task.case by blast
  next
    case Relayed
    with d show ?thesis unfolding Relayed task.case by blast
  qed simp
  moreover have "1500 < length b" using b(2) by (simp add: BUFFER_SIZE_def)
  ultimately show ?thesis using handlers_okD(2) [OF ok] b(1,3) by blast
qed

theorem tasks_well_typed_witness:
  "\<exists>w dat r. thread_run ex_cenv (ex_threads ex_pstate) [Recv 0 ''x''] w \<and>
     cs_mem (th_client w) 1 = Some (dat @ NUL # r) \<and> length dat = 1"
proof -
  let ?w0 = "ex_threads ex_pstate"
  have "th_conns ?w0 0 = Some (1, Waiting)" "''x'' \<noteq> []" "length ''x'' \<le> BUFFER_SIZE"
    by (simp_all add: ex_threads_def BUFFER_SIZE_def)
  from recv_step [OF this(1) ex_threads_ok(1) this(2,3), where E = ex_cenv] obtain r where
    "thread_step ex_cenv ?w0 (Recv 0 ''x'') (Some (conn_to ?w0 0 1 (Holding 1)
      ((th_client ?w0)\<lparr>cs_mem := (cs_mem (th_client ?w0))(1 \<mapsto> ''x'' @ NUL # r)\<rparr>)))" by auto
  then obtain w where
    w: "thread_step ex_cenv ?w0 (Recv 0 ''x'') (Some w)" "th_conns w 0 = Some (1, Holding 1)" by fastforce
  have run: "thread_run ex_cenv ?w0 [Recv 0 ''x''] w" using thread_run_step [OF thread_run_init w(1)] by simp
  have "peers_inv (cs_peers (th_client ?w0))" using ex_pstate_ok by (auto simp: ex_threads_ok peers_inv_def)
  from tasks_well_typed [OF run ex_threads_ok(1,2) this w(2)] obtain dat r where
    "cs_mem (th_client w) 1 = Some (dat @ NUL # r)" "length dat = 1" by auto
  with run show ?thesis by blast
qed

text \<open>
  C14: no handler gets stuck, however the threads are interleaved: every run during which the table is intact and
  in which the connections receive only messages as \<open>msg_encrypt_encode\<close> makes them (\<open>well_formed\<close>, for whatever
  key, with padding or without) can be continued, with steps of the handlers only and with no fault and
  no further message, until every connection waits for its next message. Other messages can crash the
  client (\<open>short_message_relayed_then_crash\<close>).
\<close>

theorem handlers_complete:
  assumes "ghash_ok (ce_hash E) ents" and "own_buffers w0" and "all_waiting w0"
    and "peers_inv (cs_peers (th_client w0))" and "finite (dom (th_conns w0))"
    and "intact_run E ents w0 es w" and "seen_intact ents w"
    and "\<forall>n. n \<le> length (ce_malloc E n)" and "open_bounded (ce_evp E) (ce_private E)"
    and "\<forall>d. receipts es d > 0 \<longrightarrow> well_formed d"
  shows "\<exists>fs w'. intact_run E ents w0 (es @ fs) w' \<and> all_waiting w' \<and> (\<forall>d. receipts fs d = 0)"
proof -
  note run = intact_run_run [OF assms(6)]
  have "\<forall>d. receipts es d > 0 \<longrightarrow> readable E d" using assms(8-10) well_formed_readable by blast
  with handlers_ok_run [OF run assms(2-4)] assms(1,6,7) have u: "under_way E ents w0 es w" by (simp add: under_way_def)
  have "finite (busy w)" by (rule finite_subset [OF busy_dom]) (simp add: run_dom [OF run] assms(5))
  from finish_all [OF u this] show ?thesis unfolding under_way_def by blast
qed

theorem handlers_complete_witness:
  "\<exists>ps d fs w. intact_run ex_cenv (\<lambda>t. t) (ex_threads ps) ([Recv 0 d, Recv 1 d] @ fs) w \<and> all_waiting w"
proof -
  obtain ps as where "peers_ok ps as" using ex_open_peer by blast
  then have ps: "peers_inv ps" by (auto simp: peers_inv_def)
  have "length ''hi'' \<le> 462" "NUL \<notin> set ''hi''" by simp_all
  from ex_message [OF this] obtain d where wf: "well_formed d"
    and d: "readable ex_cenv d" "NUL \<notin> set d" "length d \<le> BUFFER_SIZE" by blast
  from ex_two_receipts [OF d ps] obtain w2 where u: "intact_run ex_cenv (\<lambda>t. t) (ex_threads ps) [Recv 0 d, Recv 1 d] w2"
    "seen_intact (\<lambda>t. t) w2" unfolding under_way_def by blast
  have E: "\<forall>n. n \<le> length (ce_malloc ex_cenv n)" "open_bounded (ce_evp ex_cenv) (ce_private ex_cenv)"
    using ex_malloc ex_open_bounded by simp_all
  have "takeWhile (\<lambda>x. x \<noteq> NUL) d = d" using d(2) by (rule takeWhile_absent)
  then have "\<forall>x. receipts [Recv 0 d, Recv 1 d] x > 0 \<longrightarrow> well_formed x" using wf by auto
  note u = u E this
  have G: "ghash_ok (ce_hash ex_cenv) (\<lambda>t. t)" using glib_ghash_ok by simp
  have "peers_inv (cs_peers (th_client (ex_threads ps)))" using ps by (simp add: ex_threads_ok)
  from handlers_complete [OF G ex_threads_ok(1,2) this ex_threads_ok(3) u] show ?thesis by blast
qed

end
