(* ===== verification/ThreadPeers.thy ===== *)
theory ThreadPeers
  imports Threads
begin

text \<open>
  The thread of the name server between the other threads of the client: what a message that is relayed
  while the peer list is being replaced reaches; and the reactions of \<open>ClientLoop\<close> as runs
  of the threads of \<open>Threads\<close> without interruption.
\<close>

section \<open>Which peers are open\<close>

definition is_open :: "pstate \<Rightarrow> nat \<Rightarrow> bool" where
  "is_open s a \<longleftrightarrow> open_con (peer_at s a) \<noteq> 0"

lemma flood_open: "flood s as data = map (\<lambda>a. (peer_fd (peer_at s a), data)) (filter (is_open s) as)"
  by (simp add: flood_def is_open_def [abs_def])

text \<open>
  How many of the peers \<open>as\<close> are open: all while the thread waits, none while it reads a new list, and the
  first \<open>i\<close> when it is about to connect to peer \<open>i\<close> of a new list (\<open>new\<close>). After a message without
  a list it looks at the old list again, whose peers are all open.
\<close>

definition open_count :: "bool \<Rightarrow> ns_task \<Rightarrow> nat \<Rightarrow> nat \<Rightarrow> bool" where
  "open_count new task len n \<longleftrightarrow> (case task of
       Idle \<Rightarrow> n = len
     | Parsing _ _ \<Rightarrow> n = 0
     | Connecting i _ \<Rightarrow> i \<le> len \<and> (n = i \<or> \<not> new \<and> n = len))"

definition phase_ok :: "bool \<Rightarrow> ns_task \<Rightarrow> pstate \<Rightarrow> bool" where
  "phase_ok new task s \<longleftrightarrow> (\<exists>as n. peers_ok s as \<and> open_count new task (length as) n \<and>
     (\<forall>i < length as. is_open s (as ! i) \<longleftrightarrow> i < n))"

lemma phase_okI:
  "peers_ok s as \<Longrightarrow> open_count new task (length as) n \<Longrightarrow> (\<And>i. i < length as \<Longrightarrow> is_open s (as ! i) \<longleftrightarrow> i < n) \<Longrightarrow>
     phase_ok new task s"
  unfolding phase_ok_def by blast

lemma open_prefix:
  assumes "\<forall>i < length as. P (as ! i) \<longleftrightarrow> i < n"
  shows "filter P as = take n as"
  using assms
proof (induction as arbitrary: n)
  case (Cons a as)
  show ?case
  proof (cases n)
    case 0
    with Cons.prems have "\<forall>x \<in> set (a # as). \<not> P x" by (metis in_set_conv_nth not_less0)
    then have "filter P (a # as) = []" by (simp only: filter_empty_conv)
    with 0 show ?thesis by simp
  next
    case (Suc m)
    with Cons.prems have "P a" "\<forall>i < length as. P (as ! i) \<longleftrightarrow> i < m" by (auto dest: spec [where x = 0] spec [where x = "Suc _"])
    with Cons.IH Suc show ?thesis by simp
  qed
qed simp

lemma is_open_sent [simp]: "is_open (s\<lparr>ps_sent := l\<rparr>) a = is_open s a"
  by (simp add: is_open_def peer_at_def)

lemma phase_ok_sent [simp]: "phase_ok new task (s\<lparr>ps_sent := l\<rparr>) = phase_ok new task s"
  by (simp add: phase_ok_def)

text \<open>A new peer is closed.\<close>

lemma add_peer_closed:
  assumes "add_peer E s ip port = Some s'" and "peers_ok s as"
  shows "peers_ok s' (as @ [ps_next s]) \<and> \<not> is_open s' (ps_next s) \<and> (\<forall>a \<in> set as. is_open s' a = is_open s a)"
proof -
  from assms(1) obtain p i r l where p: "create_peer (pe_blk E (ps_next s)) (ps_id s) ip port = Some (p, i)"
    and l: "list_add (ps_list s) (ps_next s) = Some (r, l)"
    and s': "s' = s\<lparr>ps_peers := (ps_peers s)(ps_next s \<mapsto> p), ps_list := l, ps_next := Suc (ps_next s), ps_id := i\<rparr>"
    by (auto simp: add_peer_def bind_eq_Some_conv Let_def)
  have "open_con p = 0" using p by (auto simp: create_peer_def bind_eq_Some_conv)
  moreover have "ps_next s \<notin> set as" using assms(2) unfolding peers_ok_def by blast
  ultimately show ?thesis
    using peers_ok_new [OF assms(2) l, where p = p and i = i] unfolding s' by (auto simp: is_open_def peer_at_def)
qed

lemma connect_nth_open:
  assumes "connect_nth E i (f, s) = Some (f', s')" and "peers_ok s as" and "i < length as"
  shows "peers_ok s' as \<and> ps_list s' = ps_list s \<and> ps_sent s' = ps_sent s \<and>
    (\<forall>a. is_open s' a \<longleftrightarrow> a = as ! i \<or> is_open s a)"
proof -
  have "ps_peers s (as ! i) = Some (peer_at s (as ! i))" using assms(2,3) by (auto elim!: peers_okE)
  with assms(1) peers_item [OF assms(2,3)] have "s' = s \<and> is_open s (as ! i) \<or>
      (\<exists>fd. s' = s\<lparr>ps_peers := (ps_peers s)(as ! i \<mapsto> (peer_at s (as ! i))\<lparr>peer_fd := fd, open_con := 1\<rparr>)\<rparr>)"
    by (auto simp: connect_nth_def connect_to_peer_def is_open_def bind_eq_Some_conv split: if_splits)
  with assms(2,3) peers_ok_upd [OF assms(2)] show ?thesis
    by (auto simp: is_open_def peer_at_def split: if_splits)
qed

section \<open>Every step keeps the phases\<close>

lemma phase_ok_closed: "peers_ok s as \<Longrightarrow> \<forall>a \<in> set as. \<not> is_open s a \<Longrightarrow> phase_ok new (Parsing tok rest) s"
  by (rule phase_okI [where n = 0]) (auto simp: open_count_def)

lemma phase_ok_parsing: "phase_ok new (Parsing tok rest) s \<longleftrightarrow> (\<exists>as. peers_ok s as \<and> (\<forall>a \<in> set as. \<not> is_open s a))"
  unfolding phase_ok_def open_count_def by (simp add: all_set_conv_all_nth)

lemma ns_receive_phase:
  assumes "ns_receive buffer s r = Some (task, s')" and "phase_ok False Idle s"
  shows "phase_ok False task s'"
proof -
  from assms(2) obtain as n where as: "peers_ok s as" "n = length as" "\<forall>i < length as. is_open s (as ! i) \<longleftrightarrow> i < n"
    by (auto simp: phase_ok_def open_count_def)
  then have 0: "phase_ok False (Connecting 0 f) s" for f by (intro phase_okI [OF as(1), where n = n]) (simp_all add: open_count_def)
  from clean_peers_list_result [OF as(1)] obtain s0 where "clean_peers_list s = Some s0" "peers_ok s0 []" by blast
  with assms 0 show ?thesis
    by (auto simp: ns_receive_def bind_eq_Some_conv split: if_splits option.splits intro: phase_ok_closed)
qed

lemma ns_parse_phase:
  assumes "ns_parse E t rest s = Some (task, s')" and "phase_ok new (Parsing tok rest') s"
  shows "phase_ok new task s'"
proof -
  from assms(2) obtain as where as: "peers_ok s as" "\<forall>a \<in> set as. \<not> is_open s a" by (auto simp: phase_ok_parsing)
  have "phase_ok new (Parsing tok rest) s2" if "add_peer E s ip port = Some s2" for ip port s2 tok rest
    using add_peer_closed [OF that as(1)] as(2) by (intro phase_ok_closed [of _ "as @ [ps_next s]"]) auto
  with as show ?thesis
    using assms(1) phase_ok_closed [OF as]
    by (auto simp: ns_parse_def bind_eq_Some_conv split: option.splits)
qed

lemma ns_run_phase:
  assumes run: "ns_run E task s = Some (task', s')" and ph: "phase_ok new task s"
  shows "phase_ok new task' s'"
proof (cases task)
  case Idle
  with run show ?thesis by (simp add: ns_run_def)
next
  case (Parsing tok rest)
  show ?thesis
  proof (cases tok)
    case None
    with ph Parsing obtain as where "peers_ok s as" "\<forall>a \<in> set as. \<not> is_open s a" by (auto simp: phase_ok_parsing)
    then have "phase_ok new (Connecting 0 0) s" by (intro phase_okI [where as = as and n = 0]) (simp_all add: open_count_def)
    with run Parsing None show ?thesis by (auto simp: ns_run_def)
  next
    case (Some t)
    with run Parsing have "ns_parse E t rest s = Some (task', s')" by (simp add: ns_run_def)
    from ns_parse_phase [OF this] ph Parsing show ?thesis by blast
  qed
next
  case (Connecting i f)
  from ph Connecting obtain as n where as: "peers_ok s as" "i \<le> length as" "n = i \<or> \<not> new \<and> n = length as"
    "\<forall>j < length as. is_open s (as ! j) \<longleftrightarrow> j < n" by (auto simp: phase_ok_def open_count_def)
  have size: "list_size (ps_list s) = int (length as)" using as(1) by (rule peers_okE)
  show ?thesis
  proof (cases "i < length as")
    case False
    with run Connecting size as(2) have "task' = Idle" "s' = s" "i = length as" by (auto simp: ns_run_def)
    with as show ?thesis by (intro phase_okI [where as = as and n = n]) (auto simp: open_count_def)
  next
    case True
    with run Connecting size obtain f' where c: "connect_nth E i (f, s) = Some (f', s')" "task' = Connecting (Suc i) f'"
      by (auto simp: ns_run_def bind_eq_Some_conv)
    from connect_nth_open [OF c(1) as(1) True] have
      s': "peers_ok s' as" "\<forall>a. is_open s' a \<longleftrightarrow> a = as ! i \<or> is_open s a" by auto
    have "distinct as" using as(1) by (auto elim!: peers_okE)
    then have "is_open s' (as ! j) \<longleftrightarrow> j < (if n = i then Suc i else n)" if "j < length as" for j
      using s'(2) as(3,4) that True by (auto simp: nth_eq_iff_index_eq)
    with s'(1) True as(3) show ?thesis
      unfolding c(2) by (intro phase_okI [where as = as and n = "if n = i then Suc i else n"]) (auto simp: open_count_def)
  qed
qed

lemma phase_step:
  assumes "thread_step E w e (Some w')" and ph: "phase_ok new (th_server w) (cs_peers (th_client w))"
    and new: "new \<longrightarrow> th_server w \<noteq> Idle"
  shows "phase_ok new (th_server w') (cs_peers (th_client w'))"
  using assms(1)
proof (cases rule: thread_step.cases)
  case (recv c k d)
  with ph show ?thesis by (auto simp: conn_after_Some recv_task_def bind_eq_Some_conv)
next
  case (enter c k n d now rnd)
  then obtain fresh s where "conn_enter (at_time E now rnd) k (th_client w) = Some (fresh, s)"
    "th_client w' = s" "th_server w' = th_server w" by (auto simp: conn_after_Some)
  moreover from this(1) have "cs_peers s = cs_peers (th_client w)"
    by (auto simp: conn_enter_def bind_eq_Some_conv split: if_splits)
  ultimately show ?thesis using ph by simp
next
  case (relay c k n d)
  from ph obtain as where "peers_ok (cs_peers (th_client w)) as" by (auto simp: phase_ok_def)
  from client_send_to_all_peers_result [OF this] relay ph show ?thesis
    by (auto simp: conn_after_Some conn_relay_def bind_eq_Some_conv)
next
  case (read c k d)
  then obtain s where "client_read_msg E k (th_client w) = Some s" "th_client w' = s" "th_server w' = th_server w"
    by (auto simp: conn_after_Some)
  with ph read_keeps_tables show ?thesis by metis
next
  case (server_recv buffer r)
  with ph new show ?thesis using ns_receive_phase by (auto simp: server_after_Some)
next
  case server_run
  with ph show ?thesis using ns_run_phase by (auto simp: server_after_Some)
qed

interpretation phs: kept "thread_step E" "\<lambda>w. phase_ok False (th_server w) (cs_peers (th_client w))" for E
  by unfold_locales (rule phase_step, simp_all)

text \<open>
  A step, with the table intact, while the name server's thread replaces the peer list: runs of such steps end at
  the latest when that thread waits again.
\<close>

definition replacing_step ::
  "('t, 'kt, 'c, 'pub, 'priv) cenv \<Rightarrow> ('t \<Rightarrow> message_hash entries) \<Rightarrow> ('t, 'kt, 'c) threads \<Rightarrow> event \<Rightarrow>
     ('t, 'kt, 'c) threads option \<Rightarrow> bool" where
  "replacing_step E ents w e r \<longleftrightarrow> intact_step E ents w e r \<and> th_server w \<noteq> Idle"

interpretation rpl: kept "replacing_step E ents" "\<lambda>w. phase_ok True (th_server w) (cs_peers (th_client w))" for E ents
  by unfold_locales (auto simp: replacing_step_def intact_step_def elim: phase_step)

lemma replacing_intact: "run (replacing_step E ents) w0 es w \<Longrightarrow> intact_run E ents w0 es w"
  by (rule run_mono [where stp = "replacing_step E ents"]) (simp_all add: replacing_step_def)

text \<open>What a relay sends, by the number of open peers.\<close>

lemma relay_sends:
  assumes step: "thread_step E w (Relay c d) (Some w')" and ok: "handlers_ok es w"
    and ph: "phase_ok new (th_server w) (cs_peers (th_client w))"
  shows "\<exists>as n data. peers_ok (cs_peers (th_client w)) as \<and> takeWhile (\<lambda>x. x \<noteq> NUL) data = d \<and>
    open_count new (th_server w) (length as) n \<and>
    ps_sent (cs_peers (th_client w')) = ps_sent (cs_peers (th_client w)) @
      map (\<lambda>a. (peer_fd (peer_at (cs_peers (th_client w)) a), data)) (take n as)"
proof -
  let ?p = "cs_peers (th_client w)"
  from ph obtain as n where as: "peers_ok ?p as" "open_count new (th_server w) (length as) n"
    "\<forall>i < length as. is_open ?p (as ! i) \<longleftrightarrow> i < n" by (auto simp: phase_ok_def)
  from relay_effect [OF step] obtain k len s where r: "th_conns w c = Some (k, Fresh len)"
    "text_at (cs_mem (th_client w)) k = Some d" "conn_relay E k len (th_client w) = Some s" "w' = conn_to w c k Relayed s" .
  from handlers_okD(3) [OF ok r(1)] obtain dat r' where d: "cs_mem (th_client w) k = Some (dat @ NUL # r')" "len = length dat" by blast
  have "takeWhile (\<lambda>x. x \<noteq> NUL) dat = d" using r(2) d(1) by (simp add: text_at_def cstr_received)
  moreover have "ps_sent (cs_peers s) = ps_sent ?p @ flood ?p as dat"
    using r(3) d client_send_to_all_peers_result [OF as(1)] by (auto simp: conn_relay_def read_bytes_def)
  ultimately show ?thesis
    using as(1,2) r(4) by (intro exI [of _ as] exI [of _ n] exI [of _ dat]) (simp add: flood_open open_prefix [OF as(3)])
qed

section \<open>Reactions without interruption\<close>

text \<open>The steps of \<open>ClientLoop\<close> as runs of the threads.\<close>

definition to_threads :: "('t, 'kt, 'c) cworld \<Rightarrow> ('t, 'kt, 'c) threads" where
  "to_threads w = \<lparr>th_client = cw_client w, th_conns = (\<lambda>c. map_option (\<lambda>k. (k, Waiting)) (cw_buf w c)), th_server = Idle\<rparr>"

inductive ns_runs :: "penv \<Rightarrow> ns_task \<Rightarrow> pstate \<Rightarrow> ns_task \<Rightarrow> pstate \<Rightarrow> bool" for E where
  stop: "ns_runs E task s task s"
| go: "ns_run E task s = Some (task', s') \<Longrightarrow> ns_runs E task' s' task'' s'' \<Longrightarrow> ns_runs E task s task'' s''"

lemma ns_runs_trans: "ns_runs E t1 s1 t2 s2 \<Longrightarrow> ns_runs E t2 s2 t3 s3 \<Longrightarrow> ns_runs E t1 s1 t3 s3"
  by (induction rule: ns_runs.induct) (auto intro: ns_runs.go)

lemma ns_runs_threads:
  "ns_runs (ce_peers E) task p task' p' \<Longrightarrow> thread_run E w0 es (server_to w task p) \<Longrightarrow>
     \<exists>n. thread_run E w0 (es @ replicate n Server) (server_to w task' p')"
proof (induction arbitrary: es rule: ns_runs.induct)
  case (stop task p)
  then show ?case by (intro exI [of _ 0]) simp
next
  case (go task p task' p' task'' p'')
  have "task \<noteq> Idle" using go.hyps(1) by (auto simp: ns_run_def)
  then have "thread_step E (server_to w task p) Server (Some (server_to w task' p'))"
    using thread_step.server_run [of "server_to w task p" E] go.hyps(1) by (simp add: server_after_def server_to_def)
  from go.IH [OF thread_run_step [OF go.prems this]] obtain n where
    "thread_run E w0 ((es @ [Server]) @ replicate n Server) (server_to w task'' p'')" ..
  then show ?case by (intro exI [of _ "Suc n"]) simp
qed

text \<open>The loops of \<open>connect_to_peers\<close> and \<open>parse_peers\<close>, round by round.\<close>

lemma connect_nth_list: "connect_nth E i (f, s) = Some (f', s') \<Longrightarrow> ps_list s' = ps_list s"
  by (auto simp: connect_nth_def bind_eq_Some_conv split: if_splits)

lemma connect_rounds:
  "mfold (connect_nth E) [i..<n] (f, s) = Some (f', s') \<Longrightarrow> n = nat (list_size (ps_list s)) \<Longrightarrow> i \<le> n \<Longrightarrow>
     ns_runs E (Connecting i f) s Idle s'"
proof (induction "n - i" arbitrary: i f s)
  case 0
  then have "\<not> int i < list_size (ps_list s)" "i = n" by linarith+
  with 0 have "ns_run E (Connecting i f) s = Some (Idle, s)" "s' = s" by (simp_all add: ns_run_def)
  then show ?case by (auto intro: ns_runs.intros)
next
  case (Suc m)
  then have "i < n" by simp
  then have "[i..<n] = i # [Suc i..<n]" by (rule upt_conv_Cons)
  with Suc.prems(1) obtain f1 s1 where r: "connect_nth E i (f, s) = Some (f1, s1)"
    "mfold (connect_nth E) [Suc i..<n] (f1, s1) = Some (f', s')" by (auto split: option.splits)
  have "ns_runs E (Connecting (Suc i) f1) s1 Idle s'"
    by (rule Suc.hyps(1) [OF _ r(2)]) (use Suc \<open>i < n\<close> connect_nth_list [OF r(1)] in simp_all)
  moreover have "ns_run E (Connecting i f) s = Some (Connecting (Suc i) f1, s1)"
    using r(1) \<open>i < n\<close> Suc.prems(2) by (simp add: ns_run_def)
  ultimately show ?case by (blast intro: ns_runs.go)
qed

lemma parse_rounds:
  assumes "parse_loop E tok rest s = Some s'"
  shows "\<exists>rest'. ns_runs E (Parsing tok rest) s (Parsing None rest') s'"
proof (rule parse_loop.raw_induct [where P = "\<lambda>E tok rest s s'. \<exists>rest'. ns_runs E (Parsing tok rest) s (Parsing None rest') s'", OF _ assms])
  fix f E tok rest s s'
  assume IH: "\<And>E tok rest s s'. f E tok rest s = Some s' \<Longrightarrow> \<exists>rest'. ns_runs E (Parsing tok rest) s (Parsing None rest') s'"
    and run: "(case tok of
        None \<Rightarrow> Some s
      | Some t \<Rightarrow>
          (case strtok (CHR '':'') t of
             None \<Rightarrow> f E (Some t) rest s
           | Some (ip_addr, r) \<Rightarrow>
               (case strtok (CHR '':'') r of
                  None \<Rightarrow> f E (Some (takeWhile (\<lambda>c. c = CHR '':'') t @ ip_addr)) rest s
                | Some (port, save) \<Rightarrow> do {
                    let ip_port_tok = strtok (CHR '' '') save;
                    s \<leftarrow> add_peer E s ip_addr port;
                    (case strtok (CHR '' '') rest of
                       None \<Rightarrow> f E None [] s
                     | Some (t', rest') \<Rightarrow> f E (Some t') rest' s)
                  }))) = Some (s' :: pstate)"
  show "\<exists>rest'. ns_runs E (Parsing tok rest) s (Parsing None rest') s'"
  proof (cases tok)
    case None
    with run show ?thesis by (auto intro: ns_runs.stop)
  next
    case (Some t)
    with run obtain task' s1 where r: "ns_parse E t rest s = Some (task', s1)"
      "\<exists>tok' rest'. task' = Parsing tok' rest' \<and> f E tok' rest' s1 = Some s'"
      by (auto simp: ns_parse_def bind_eq_Some_conv split: option.splits)
    with IH obtain rest' where "ns_runs E task' s1 (Parsing None rest') s'" by blast
    with r(1) Some show ?thesis by (intro exI [of _ rest']) (auto simp: ns_run_def intro: ns_runs.go)
  qed
qed

lemma connect_runs:
  assumes "connect_to_peers E s = Some (f, s')"
  shows "ns_runs E (Connecting 0 0) s Idle s'"
  using connect_rounds [where i = 0 and f = 0] assms by (simp add: connect_to_peers_def)

lemma name_server_runs:
  assumes "name_server_msg E buffer s r = Some (b, s')"
  shows "\<exists>task p. ns_receive buffer (cs_peers s) r = Some (task, p) \<and> ns_runs (ce_peers E) task p Idle (cs_peers s') \<and>
    s' = s\<lparr>cs_peers := cs_peers s'\<rparr>"
proof -
  from assms obtain res str where rec: "recv_into buffer r = Some (res, b)" "cstr b = Some str"
    and run: "(if str_starts_with str ''PEERS '' then do {
       (r, peers) \<leftarrow> parse_peers (ce_peers E) (cs_peers s) (drop 6 str);
       (failed, peers) \<leftarrow> connect_to_peers (ce_peers E) peers;
       Some (b, s\<lparr>cs_peers := peers\<rparr>) } else Some (b, s)) = Some (b, s')"
    by (auto simp: name_server_msg_def bind_eq_Some_conv split: if_splits)
  show ?thesis
  proof (cases "str_starts_with str ''PEERS ''")
    case False
    with rec run show ?thesis by (auto simp: ns_receive_def intro: ns_runs.stop)
  next
    case True
    with run obtain x p1 failed p2 where p: "parse_peers (ce_peers E) (cs_peers s) (drop 6 str) = Some (x, p1)"
      "connect_to_peers (ce_peers E) p1 = Some (failed, p2)" "s' = s\<lparr>cs_peers := p2\<rparr>"
      by (auto simp: bind_eq_Some_conv)
    note c = connect_runs [OF p(2)]
    show ?thesis
    proof (cases "length (drop 6 str) < 1")
      case short: True
      with p(1) have "p1 = cs_peers s" by (auto simp: parse_peers_def)
      with rec True short c p(3) show ?thesis by (simp add: ns_receive_def)
    next
      case False
      then have "\<not> length (drop 6 str) < 1" .
      with p(1) obtain p0 where "clean_peers_list (cs_peers s) = Some p0"
        "(case strtok (CHR '' '') (drop 6 str) of None \<Rightarrow> parse_loop (ce_peers E) None [] p0
          | Some (t, rest) \<Rightarrow> parse_loop (ce_peers E) (Some t) rest p0) = Some p1"
        by (auto simp: parse_peers_def bind_eq_Some_conv)
      then obtain tok rest where p0: "clean_peers_list (cs_peers s) = Some p0"
        "parse_loop (ce_peers E) tok rest p0 = Some p1"
        "(case strtok (CHR '' '') (drop 6 str) of None \<Rightarrow> Parsing None [] | Some (t, rest) \<Rightarrow> Parsing (Some t) rest) =
           Parsing tok rest"
        by (cases "strtok (CHR '' '') (drop 6 str)") auto
      from parse_rounds [OF p0(2)] obtain rest' where
        "ns_runs (ce_peers E) (Parsing tok rest) p0 (Parsing None rest') p1" by blast
      moreover have "ns_run (ce_peers E) (Parsing None rest') p1 = Some (Connecting 0 0, p1)" by (simp add: ns_run_def)
      ultimately have "ns_runs (ce_peers E) (Parsing tok rest) p0 Idle p2"
        using c by (blast intro: ns_runs_trans ns_runs.go)
      with rec True False p0 p(3) show ?thesis by (simp add: ns_receive_def)
    qed
  qed
qed

lemma conn_to_again [simp]: "conn_to (conn_to w c k t s) c k t' s' = conn_to w c k t' s'"
  by (simp add: conn_to_def)

lemma to_threads_conn: "cw_buf w c = Some k \<Longrightarrow> conn_to (to_threads w) c k Waiting s = to_threads (w\<lparr>cw_client := s\<rparr>)"
  by (auto simp: conn_to_def to_threads_def)

lemma to_threads_server: "server_to (to_threads w) Idle p = to_threads (w\<lparr>cw_client := (cw_client w)\<lparr>cs_peers := p\<rparr>\<rparr>)"
  by (simp add: server_to_def to_threads_def)

lemma to_threads_client [simp]: "th_client (to_threads w) = cw_client w" "th_server (to_threads w) = Idle"
  "cw_buf w c = Some k \<Longrightarrow> th_conns (to_threads w) c = Some (k, Waiting)"
  by (simp_all add: to_threads_def)

text \<open>What is left of the reaction to a new message: relaying and reading it, or a fault of one of the two.\<close>

lemma conn_steps:
  assumes "conn_relay E k n s = Some s2" and "client_read_msg E k s2 = Some s3" and "text_at (cs_mem s) k = Some d"
    and "thread_run E w0 es (conn_to w c k (Fresh n) s)"
  shows "thread_run E w0 (es @ [Relay c d, Read c d]) (conn_to w c k Waiting s3)"
proof -
  let ?w1 = "conn_to w c k (Fresh n) s" and ?w2 = "conn_to w c k Relayed s2"
  have "thread_step E ?w1 (Relay c d) (Some ?w2)"
    using thread_step.relay [of ?w1 c k n d E] assms(1,3) by (simp add: conn_after_def)
  note r2 = thread_run_step [OF assms(4) this]
  have "text_at (cs_mem s2) k = Some d" using assms(3) conn_relay_keeps [OF assms(1)] by simp
  then have "thread_step E ?w2 (Read c d) (Some (conn_to w c k Waiting s3))"
    using thread_step.read [of ?w2 c k d E] assms(2) by (simp add: conn_after_def)
  from thread_run_step [OF r2 this] show ?thesis by simp
qed

lemma conn_faults:
  assumes "conn_relay E k n s = None \<or> (\<exists>s2. conn_relay E k n s = Some s2 \<and> client_read_msg E k s2 = None)"
    and t: "text_at (cs_mem s) k = Some d" and run: "thread_run E w0 es (conn_to w c k (Fresh n) s)"
  shows "\<exists>fs e w'. fs @ [e] \<in> {[Relay c d], [Relay c d, Read c d]} \<and> thread_run E w0 (es @ fs) w' \<and> thread_step E w' e None"
proof (cases "conn_relay E k n s")
  case None
  then have "thread_step E (conn_to w c k (Fresh n) s) (Relay c d) None"
    using thread_step.relay [of "conn_to w c k (Fresh n) s" c k n d E] t by (simp add: conn_after_def)
  with run show ?thesis
    by (intro exI [of _ "[]"] exI [of _ "Relay c d"] exI [of _ "conn_to w c k (Fresh n) s"]) simp
next
  case (Some s2)
  with assms(1) have "client_read_msg E k s2 = None" by simp
  moreover have "text_at (cs_mem s2) k = Some d" using t conn_relay_keeps [OF Some] by simp
  ultimately have "thread_step E (conn_to w c k Relayed s2) (Read c d) None"
    using thread_step.read [of "conn_to w c k Relayed s2" c k d E] by (simp add: conn_after_def)
  moreover have "thread_step E (conn_to w c k (Fresh n) s) (Relay c d) (Some (conn_to w c k Relayed s2))"
    using thread_step.relay [of "conn_to w c k (Fresh n) s" c k n d E] t Some by (simp add: conn_after_def)
  note thread_run_step [OF run this]
  ultimately show ?thesis
    by (intro exI [of _ "[Relay c d]"] exI [of _ "Read c d"] exI [of _ "conn_to w c k Relayed s2"]) simp
qed

lemma at_time_same: "conn_relay (at_time E now rnd) = conn_relay E" "client_read_msg (at_time E now rnd) = client_read_msg E"
  by (simp_all add: fun_eq_iff conn_relay_def client_read_msg_def at_time_def)

lemma conn_enter_text:
  assumes "conn_enter E k s = Some (fresh, s')"
  shows "(\<exists>t. text_at (cs_mem s) k = Some t) \<and> cs_mem s' = cs_mem s"
proof (cases "text_at (cs_mem s) k")
  case None
  with assms show ?thesis by (simp add: conn_enter_def client_has_seen_msg_def)
next
  case (Some t)
  with assms show ?thesis
    by (cases "g_lookup (ce_hash E) (cs_seen s) (cs_mem s) t")
      (auto simp: conn_enter_def client_has_seen_msg_def client_hash_add_msg_def)
qed

text \<open>The first two steps of a reaction: the bytes are in the buffer, and the message is looked up and entered.\<close>

lemma conn_msg_start:
  assumes rok: "recv_ok (Received d)" and c: "cw_buf w c = Some k"
    and buf: "cs_mem (cw_client w) k = Some buffer" "BUFFER_SIZE < length buffer"
  obtains b fresh s where "recv_into buffer (Received d) = Some (length d, b)"
    "fresh \<longleftrightarrow> g_lookup (ce_hash E) (cs_seen (cw_client w)) ((cs_mem (cw_client w))(k \<mapsto> b)) (takeWhile (\<lambda>x. x \<noteq> NUL) d) = None"
    "text_at (cs_mem s) k = Some (takeWhile (\<lambda>x. x \<noteq> NUL) d)"
    "thread_run E (to_threads w) [Recv c (takeWhile (\<lambda>x. x \<noteq> NUL) d), Enter c (takeWhile (\<lambda>x. x \<noteq> NUL) d)]
      (conn_to (to_threads w) c k (if fresh then Fresh (length d) else Waiting) s)"
    "conn_msg (at_time E now rnd) k (cw_client w) (Received d) =
      (if fresh then conn_relay E k (length d) s \<bind> client_read_msg E k else Some s)"
proof -
  let ?E = "at_time E now rnd" and ?w = "to_threads w" and ?t = "takeWhile (\<lambda>x. x \<noteq> NUL) d"
  have "length d \<le> BUFFER_SIZE" using rok by (simp add: recv_ok_def)
  from recv_into_text [OF this buf(2)] obtain b where
    b: "recv_into buffer (Received d) = Some (length d, b)" "cstr b = Some ?t" by blast
  define s1 where "s1 = (cw_client w)\<lparr>cs_mem := (cs_mem (cw_client w))(k \<mapsto> b)\<rparr>"
  have t: "text_at (cs_mem s1) k = Some ?t" using b(2) by (simp add: s1_def text_at_fresh)
  define fresh where "fresh \<longleftrightarrow> g_lookup (ce_hash E) (cs_seen (cw_client w)) (cs_mem s1) ?t = None"
  have "\<exists>s. conn_enter ?E k s1 = Some (fresh, s)"
    using t by (cases "g_lookup (ce_hash E) (cs_seen (cw_client w)) (cs_mem s1) ?t")
      (auto simp: fresh_def conn_enter_def client_has_seen_msg_def client_hash_add_msg_def at_time_def s1_def)
  then obtain s where e: "conn_enter ?E k s1 = Some (fresh, s)" ..
  have ts: "text_at (cs_mem s) k = Some ?t" using conn_enter_text [OF e] t by simp
  let ?w1 = "conn_to ?w c k (Holding (length d)) s1"
  have "thread_step E ?w (Recv c ?t) (Some ?w1)"
    using thread_step.recv [of ?w c k d E] c rok buf(1) b(1) by (simp add: recv_task_def conn_after_def s1_def)
  note r1 = thread_run_step [OF thread_run_init this]
  have "thread_step E ?w1 (Enter c ?t) (Some (conn_to ?w c k (if fresh then Fresh (length d) else Waiting) s))"
    using thread_step.enter [of ?w1 c k "length d" ?t E now rnd] t e by (simp add: conn_after_def)
  note r2 = thread_run_step [OF r1 this]
  have "conn_msg ?E k (cw_client w) (Received d) = client_parse_msg ?E k (length d) s1"
    using buf(1) b(1) by (simp add: conn_msg_def s1_def)
  also have "\<dots> = (if fresh then conn_relay E k (length d) s \<bind> client_read_msg E k else Some s)"
    by (cases fresh; cases "conn_relay E k (length d) s") (simp_all add: client_parse_msg_def relay_split at_time_same e)
  finally show ?thesis using that [OF b(1) _ ts _ ] r2 fresh_def by (simp add: s1_def)
qed

lemma conn_msg_thread_run:
  assumes rok: "recv_ok (Received d)" and c: "cw_buf w c = Some k" and t: "t = takeWhile (\<lambda>x. x \<noteq> NUL) d"
    and buf: "cs_mem (cw_client w) k = Some buffer" "BUFFER_SIZE < length buffer"
  shows "\<exists>b. recv_into buffer (Received d) = Some (length d, b) \<and>
    (case with_client w (cw_buf w) (conn_msg (at_time E now rnd) k (cw_client w) (Received d)) of
       Some w' \<Rightarrow> thread_run E (to_threads w)
         (if g_lookup (ce_hash E) (cs_seen (cw_client w)) ((cs_mem (cw_client w))(k \<mapsto> b)) t = None
          then [Recv c t, Enter c t, Relay c t, Read c t] else [Recv c t, Enter c t]) (to_threads w')
     | None \<Rightarrow> \<exists>es e wx. es @ [e] \<in> {[Recv c t, Enter c t, Relay c t], [Recv c t, Enter c t, Relay c t, Read c t]} \<and>
         thread_run E (to_threads w) es wx \<and> thread_step E wx e None)"
proof -
  let ?r = "conn_msg (at_time E now rnd) k (cw_client w) (Received d)"
  obtain b fresh s where b: "recv_into buffer (Received d) = Some (length d, b)"
    and fresh: "fresh \<longleftrightarrow> g_lookup (ce_hash E) (cs_seen (cw_client w)) ((cs_mem (cw_client w))(k \<mapsto> b)) t = None"
    and ts: "text_at (cs_mem s) k = Some t"
    and run: "thread_run E (to_threads w) [Recv c t, Enter c t]
      (conn_to (to_threads w) c k (if fresh then Fresh (length d) else Waiting) s)"
    and msg: "?r = (if fresh then conn_relay E k (length d) s \<bind> client_read_msg E k else Some s)"
    unfolding t by (rule conn_msg_start [OF rok c buf])
  show ?thesis
  proof (cases ?r)
    case (Some s')
    have "thread_run E (to_threads w) (if fresh then [Recv c t, Enter c t, Relay c t, Read c t] else [Recv c t, Enter c t])
        (to_threads (w\<lparr>cw_client := s'\<rparr>))"
    proof (cases fresh)
      case False
      with run msg Some show ?thesis by (simp add: to_threads_conn [OF c])
    next
      case True
      with msg Some obtain s2 where "conn_relay E k (length d) s = Some s2" "client_read_msg E k s2 = Some s'"
        by (cases "conn_relay E k (length d) s") auto
      note steps = conn_steps [OF this ts, where ?w0.0 = "to_threads w" and w = "to_threads w" and c = c]
      from run True have "thread_run E (to_threads w) [Recv c t, Enter c t] (conn_to (to_threads w) c k (Fresh (length d)) s)"
        by simp
      from steps [OF this] True show ?thesis by (simp add: to_threads_conn [OF c])
    qed
    with b fresh Some show ?thesis by (simp add: with_client_def)
  next
    case None
    with msg have f: fresh and "conn_relay E k (length d) s = None \<or>
        (\<exists>s2. conn_relay E k (length d) s = Some s2 \<and> client_read_msg E k s2 = None)"
      by (cases fresh; cases "conn_relay E k (length d) s"; simp)+
    note faults = conn_faults [OF this(2) ts, where ?w0.0 = "to_threads w" and w = "to_threads w" and c = c]
    from run f have "thread_run E (to_threads w) [Recv c t, Enter c t] (conn_to (to_threads w) c k (Fresh (length d)) s)"
      by simp
    from faults [OF this] obtain fs e wx where "fs @ [e] \<in> {[Relay c t], [Relay c t, Read c t]}"
      "thread_run E (to_threads w) ([Recv c t, Enter c t] @ fs) wx" "thread_step E wx e None" by blast
    with b None show ?thesis
      by (simp add: with_client_def) (intro exI [of _ "[Recv c t, Enter c t] @ fs"] exI [of _ e] exI [of _ wx], auto)
  qed
qed

lemma name_server_thread_run:
  assumes "recv_ok r" and "BUFFER_SIZE < length buffer"
    and run: "with_client w (cw_buf w) (map_option snd (name_server_msg E buffer (cw_client w) r)) = Some w'"
  shows "\<exists>n. thread_run E (to_threads w) (replicate (Suc n) Server) (to_threads w')"
proof -
  from run obtain b s' where s': "name_server_msg E buffer (cw_client w) r = Some (b, s')" "w' = w\<lparr>cw_client := s'\<rparr>"
    by (auto simp: with_client_def)
  from name_server_runs [OF s'(1)] obtain task p where
    p: "ns_receive buffer (cs_peers (cw_client w)) r = Some (task, p)" "ns_runs (ce_peers E) task p Idle (cs_peers s')"
      "s' = (cw_client w)\<lparr>cs_peers := cs_peers s'\<rparr>" by blast
  have "thread_step E (to_threads w) Server (Some (server_to (to_threads w) task p))"
    using thread_step.server_recv [of "to_threads w" buffer r E] assms(1,2) p(1) by (simp add: server_after_def)
  from ns_runs_threads [OF p(2) thread_run_step [OF thread_run_init this]] obtain n where
    "thread_run E (to_threads w) ([] @ [Server] @ replicate n Server) (server_to (to_threads w) Idle (cs_peers s'))" by auto
  then show ?thesis using s'(2) p(3) by (intro exI [of _ n]) (simp add: to_threads_server)
qed

section \<open>An example\<close>

text \<open>
  A client without peers gets a message, and then a list of two peers from the name server, of which the
  first has been added when the message is relayed.
\<close>

lemma ex_ns_receive:
  "\<exists>buffer. BUFFER_SIZE < length buffer \<and> recv_ok (Received ''PEERS a:1 b:2'') \<and>
     ns_receive buffer ex_pstate (Received ''PEERS a:1 b:2'') = Some (Parsing (Some ''a:1'') ''b:2'', ex_pstate)"
proof -
  have "length ''PEERS a:1 b:2'' \<le> BUFFER_SIZE" "BUFFER_SIZE < length (ex_malloc 1500)" "NUL \<notin> set ''PEERS a:1 b:2''"
    by (simp_all add: BUFFER_SIZE_def length_ex_malloc)
  from recv_into_result [OF this] obtain b where
    b: "recv_into (ex_malloc 1500) (Received ''PEERS a:1 b:2'') = Some (length ''PEERS a:1 b:2'', b)"
      "cstr b = Some ''PEERS a:1 b:2''" by blast
  have e: "clean_peers_list ex_pstate = Some ex_pstate"
    by (subst clean_peers_list.simps) (simp add: ex_pstate_def list_size_def list_create_def)
  have "str_starts_with ''PEERS a:1 b:2'' ''PEERS ''" by (simp add: str_starts_with_def)
  with b e show ?thesis
    by (intro exI [of _ "ex_malloc 1500"])
      (simp add: ns_receive_def strtok_def recv_ok_def BUFFER_SIZE_def length_ex_malloc)
qed

lemma ex_ns_parse:
  "\<exists>p a. ns_run (ce_peers ex_cenv) (Parsing (Some ''a:1'') ''b:2'') ex_pstate = Some (Parsing (Some ''b:2'') [], p) \<and> peers_ok p [a]"
proof -
  have "good_word ''a'' NI_MAXHOST" "good_word ''1'' NI_MAXSERV"
    by (simp_all add: good_word_def NI_MAXHOST_def NI_MAXSERV_def)
  from add_peer_result [OF ex_pstate_ok ex_penv_ok this] obtain p where
    "add_peer ex_penv ex_pstate ''a'' ''1'' = Some p" "peers_ok p [ps_next ex_pstate]" by auto
  then show ?thesis by (auto simp: ns_run_def ns_parse_def strtok_def ex_cenv_def)
qed

lemma ex_during_parse:
  "\<exists>es w1 w w' a. intact_run ex_cenv (\<lambda>t. t) (ex_threads ex_pstate) es w1 \<and>
     th_server w1 = Parsing (Some ''a:1'') ''b:2'' \<and> run (replacing_step ex_cenv (\<lambda>t. t)) w1 [Server] w \<and>
     intact_step ex_cenv (\<lambda>t. t) w (Relay 0 ''x'') (Some w') \<and>
     th_server w = Parsing (Some ''b:2'') [] \<and> peers_ok (cs_peers (th_client w)) [a]"
proof -
  let ?w0 = "ex_threads ex_pstate"
  have d: "''x'' \<noteq> []" "length ''x'' \<le> BUFFER_SIZE" and t: "takeWhile (\<lambda>x. x \<noteq> NUL) ''x'' = ''x''"
    by (simp_all add: BUFFER_SIZE_def)
  have c0: "th_conns ?w0 0 = Some (1, Waiting)" by (simp add: ex_threads_def)
  from recv_step [OF c0 ex_threads_ok(1) d, unfolded t] obtain r1 where
    r1: "thread_step ex_cenv ?w0 (Recv 0 ''x'') (Some (conn_to ?w0 0 1 (Holding (length ''x''))
      ((th_client ?w0)\<lparr>cs_mem := (cs_mem (th_client ?w0))(1 \<mapsto> ''x'' @ NUL # r1)\<rparr>)))" by blast
  define w1 where "w1 = conn_to ?w0 0 1 (Holding (length ''x'')) ((th_client ?w0)\<lparr>cs_mem := (cs_mem (th_client ?w0))(1 \<mapsto> ''x'' @ NUL # r1)\<rparr>)"
  have w1: "th_conns w1 0 = Some (1, Holding (length ''x''))" "cs_mem (th_client w1) 1 = Some (''x'' @ NUL # r1)"
    "cs_seen (th_client w1) = []" "cs_peers (th_client w1) = ex_pstate" "th_server w1 = Idle"
    by (simp_all add: w1_def) (simp_all add: ex_threads_def)
  have "text_at (cs_mem (th_client w1)) 1 = Some ''x''" and i1: "seen_intact (\<lambda>t. t) w1" and "ghash_ok (ce_hash ex_cenv) (\<lambda>t. t)"
    using w1(2,3) glib_ghash_ok by (simp_all add: text_at_def cstr_def seen_intact_def)
  from enter_step [OF w1(1) this(1) this(3) i1] w1(3) obtain s where
    s: "thread_step ex_cenv w1 (Enter 0 ''x'') (Some (conn_to w1 0 1 (Fresh (length ''x'')) s))"
      "cs_mem s = cs_mem (th_client w1)" "cs_peers s = cs_peers (th_client w1)" "intact (cs_mem s) (cs_seen s)" by auto
  define w2 where "w2 = conn_to w1 0 1 (Fresh (length ''x'')) s"
  from ex_ns_receive obtain buffer where buf: "BUFFER_SIZE < length buffer" "recv_ok (Received ''PEERS a:1 b:2'')"
    "ns_receive buffer ex_pstate (Received ''PEERS a:1 b:2'') = Some (Parsing (Some ''a:1'') ''b:2'', ex_pstate)" by blast
  have w2: "th_server w2 = Idle" "cs_peers (th_client w2) = ex_pstate" using s(3) w1(4,5) by (simp_all add: w2_def)
  define w3 where "w3 = server_to w2 (Parsing (Some ''a:1'') ''b:2'') ex_pstate"
  have 3: "thread_step ex_cenv w2 Server (Some w3)"
    using thread_step.server_recv [OF w2(1) buf(1,2), of ex_cenv] buf(3) w2(2) by (simp add: server_after_def w3_def)
  from ex_ns_parse obtain p a where p: "ns_run (ce_peers ex_cenv) (Parsing (Some ''a:1'') ''b:2'') ex_pstate =
    Some (Parsing (Some ''b:2'') [], p)" "peers_ok p [a]" by blast
  define w4 where "w4 = server_to w3 (Parsing (Some ''b:2'') []) p"
  have 4: "thread_step ex_cenv w3 Server (Some w4)"
    using thread_step.server_run [of w3 ex_cenv] p(1) by (simp add: server_after_def w3_def w4_def)
  have "th_conns w4 0 = Some (1, Fresh (length ''x''))" "cs_mem (th_client w4) 1 = Some (''x'' @ NUL # r1)"
    "peers_ok (cs_peers (th_client w4)) [a]" "th_server w4 = Parsing (Some ''b:2'') []"
    using s(2) w1(2) p(2) by (simp_all add: w4_def w3_def w2_def)
  note r = relay_step [OF this(1-3), of ex_cenv, unfolded t] and w4 = this(3,4)
  have i: "seen_intact (\<lambda>t. t) w2" "seen_intact (\<lambda>t. t) w3" "seen_intact (\<lambda>t. t) w4"
    using s(4) by (simp_all add: seen_intact_def w2_def w3_def w4_def)
  have "intact_run ex_cenv (\<lambda>t. t) ?w0 ((([] @ [Recv 0 ''x'']) @ [Enter 0 ''x'']) @ [Server]) w3"
    using intact_run_step [OF intact_run_step [OF intact_run_step [OF run.init ex_threads_ok(4) r1 [folded w1_def]]
      i1 s(1) [folded w2_def]] i(1) 3] .
  moreover have "th_server w3 = Parsing (Some ''a:1'') ''b:2''" by (simp add: w3_def)
  moreover from this 4 i(2) have "replacing_step ex_cenv (\<lambda>t. t) w3 Server (Some w4)"
    by (simp add: replacing_step_def intact_step_def)
  from run.step [where stp = "replacing_step ex_cenv (\<lambda>t. t)", OF run.init [where ?w0.0 = w3] this] have "run (replacing_step ex_cenv (\<lambda>t. t)) w3 [Server] w4" by simp
  ultimately show ?thesis using r w4 i(3) unfolding intact_step_def by blast
qed

section \<open>Properties\<close>

text \<open>
  C15: the client's model with whole reactions as steps is a part of the one with mutex sections as steps. The
  reaction to a message that \<open>recv\<close> puts into a connection's buffer is the run of exactly the four
  steps of its thread (receive, enter, relay, read), or of the first two if the table finds the message; and
  if the reaction faults, the run faults in its third or fourth step. The reaction to what the name server sent,
  if it returns without a fault, is a run of steps of that server's thread alone. In each case no
  other thread makes a step in between, and the states at the end are the same.
\<close>

theorem reactions_are_runs:
  assumes "recv_ok (Received d)" and "cw_buf w c = Some k" and "cs_mem (cw_client w) k = Some buffer"
    and "BUFFER_SIZE < length buffer" and "t = takeWhile (\<lambda>x. x \<noteq> NUL) d"
  shows "(\<exists>b. recv_into buffer (Received d) = Some (length d, b) \<and>
      (case with_client w (cw_buf w) (conn_msg (at_time E now rnd) k (cw_client w) (Received d)) of
         Some w' \<Rightarrow> thread_run E (to_threads w)
           (if g_lookup (ce_hash E) (cs_seen (cw_client w)) ((cs_mem (cw_client w))(k \<mapsto> b)) t = None
            then [Recv c t, Enter c t, Relay c t, Read c t] else [Recv c t, Enter c t]) (to_threads w')
       | None \<Rightarrow> \<exists>es e wx. es @ [e] \<in> {[Recv c t, Enter c t, Relay c t], [Recv c t, Enter c t, Relay c t, Read c t]} \<and>
           thread_run E (to_threads w) es wx \<and> thread_step E wx e None)) \<and>
    (\<forall>r ns_buffer w'. recv_ok r \<and> BUFFER_SIZE < length ns_buffer \<and>
      with_client w (cw_buf w) (map_option snd (name_server_msg E ns_buffer (cw_client w) r)) = Some w' \<longrightarrow>
      (\<exists>n. thread_run E (to_threads w) (replicate (Suc n) Server) (to_threads w')))"
  using conn_msg_thread_run [OF assms(1,2,5,3,4)] name_server_thread_run by blast

theorem reactions_are_runs_witness:
  "\<exists>ps d s. ps_sent (cs_peers s) = ps_sent ps @ [(7, d)] \<and>
     thread_run ex_cenv (to_threads \<lparr>cw_client = ex_client_at ps, cw_buf = [0 \<mapsto> 1]\<rparr>)
       [Recv 0 d, Enter 0 d, Relay 0 d, Read 0 d] (to_threads \<lparr>cw_client = s, cw_buf = [0 \<mapsto> 1]\<rparr>)"
proof -
  from ex_open_peer obtain ps as where ps: "peers_ok ps as" "flood ps as = (\<lambda>d. [(7, d)])" by blast
  from ex_message [of "''hi''"] obtain d where d: "readable ex_cenv d" "NUL \<notin> set d" "length d \<le> BUFFER_SIZE" by auto
  then have "d \<noteq> []" using readable_not_empty by blast
  then have rok: "recv_ok (Received d)" using d(3) by (simp add: recv_ok_def)
  let ?w = "\<lparr>cw_client = ex_client_at ps, cw_buf = [0 \<mapsto> 1]\<rparr>"
  have w: "cw_buf ?w 0 = Some 1" "cs_mem (cw_client ?w) 1 = Some (ex_malloc 1485)" "BUFFER_SIZE < length (ex_malloc 1485)"
    by (simp_all add: length_ex_malloc BUFFER_SIZE_def)
  note w = w takeWhile_absent [OF d(2), symmetric]
  have "ghash_ok (ce_hash ex_cenv) (\<lambda>t. t)" using glib_ghash_ok by simp
  from relayed_once [OF this _ _ _ w(3) _ d(2,3) _ d(1), of "ex_client_at ps" 1 as] ps obtain s where
    s: "conn_msg ex_cenv 1 (ex_client_at ps) (Received d) = Some s" "ps_sent (cs_peers s) = ps_sent ps @ [(7, d)]" by auto
  have "at_time ex_cenv 0 (\<lambda>i. i) = ex_cenv" by (simp add: at_time_def ex_cenv_def)
  then have "with_client ?w (cw_buf ?w) (conn_msg (at_time ex_cenv 0 (\<lambda>i. i)) 1 (cw_client ?w) (Received d)) =
      Some \<lparr>cw_client = s, cw_buf = [0 \<mapsto> 1]\<rparr>" using s(1) by (simp add: with_client_def)
  moreover have "g_lookup (ce_hash ex_cenv) (cs_seen (cw_client ?w)) mem d = None" for mem by (simp add: glib_ghash_def)
  ultimately have "thread_run ex_cenv (to_threads ?w) [Recv 0 d, Enter 0 d, Relay 0 d, Read 0 d]
      (to_threads \<lparr>cw_client = s, cw_buf = [0 \<mapsto> 1]\<rparr>)"
    using reactions_are_runs [OF rok w, of ex_cenv 0 "\<lambda>i. i"] by auto
  with s(2) show ?thesis by blast
qed

text \<open>
  C16: what a message reaches when it is relayed while the name server's thread replaces the peer list, for
  every interleaving with an intact table: after that thread has emptied the list, a relay reaches no
  peer at all until the last peer of the new list has been added, then exactly the first \<open>i\<close> peers
  while the thread is about to connect to peer \<open>i\<close>, and all when it waits again. The bytes are those
  received. In each case the message is already entered in the table of seen messages, and it is
  never relayed again.
\<close>

theorem relay_reaches:
  assumes "ghash_ok (ce_hash E) ents" and "own_buffers w0" and "all_waiting w0"
    and "phase_ok False (th_server w0) (cs_peers (th_client w0))" and "known (ents (cs_seen (th_client w0))) d = None"
    and "intact_run E ents w0 es w1" and "th_server w1 = Parsing tok rest"
    and "run (replacing_step E ents) w1 fs w" and "intact_step E ents w (Relay c d) (Some w')"
  shows "(\<exists>as n data. peers_ok (cs_peers (th_client w)) as \<and> takeWhile (\<lambda>x. x \<noteq> NUL) data = d \<and>
      ps_sent (cs_peers (th_client w')) = ps_sent (cs_peers (th_client w)) @
        map (\<lambda>a. (peer_fd (peer_at (cs_peers (th_client w)) a), data)) (take n as) \<and>
      (case th_server w of Idle \<Rightarrow> n = length as | Parsing _ _ \<Rightarrow> n = 0 | Connecting i _ \<Rightarrow> n = i \<and> i \<le> length as)) \<and>
    known (ents (cs_seen (th_client w))) d \<noteq> None \<and> (\<forall>gs w2. intact_run E ents w' gs w2 \<longrightarrow> relays gs d = 0)"
proof -
  have inv: "peers_inv (cs_peers (th_client w0))" using assms(4) by (auto simp: phase_ok_def peers_inv_def)
  note run = run_append [OF replacing_intact [OF assms(8)] assms(6)]
  note way = on_its_way_run [OF _ assms(2,3,1,5)]
  from assms(9) have step: "thread_step E w (Relay c d) (Some w')" by (simp add: intact_step_def)
  have "phase_ok False (th_server w1) (cs_peers (th_client w1))"
    by (rule phs.run_keeps [OF intact_run_run [OF assms(6)] assms(4)])
  then have "phase_ok True (th_server w1) (cs_peers (th_client w1))" unfolding assms(7) phase_ok_parsing .
  from relay_sends [OF step handlers_ok_run [OF intact_run_run [OF run] assms(2,3) inv] rpl.run_keeps [OF assms(8) this]]
  have "\<exists>as n data. peers_ok (cs_peers (th_client w)) as \<and> takeWhile (\<lambda>x. x \<noteq> NUL) data = d \<and>
      ps_sent (cs_peers (th_client w')) = ps_sent (cs_peers (th_client w)) @
        map (\<lambda>a. (peer_fd (peer_at (cs_peers (th_client w)) a), data)) (take n as) \<and>
      (case th_server w of Idle \<Rightarrow> n = length as | Parsing _ _ \<Rightarrow> n = 0 | Connecting i _ \<Rightarrow> n = i \<and> i \<le> length as)"
    unfolding open_count_def by (cases "th_server w") auto
  moreover from relay_effect [OF step] obtain k n where "c \<in> workers w d is_fresh"
    by (metis (no_types, lifting) workers_self task_kinds(5))
  then have "workers w d is_fresh \<noteq> {}" by blast
  then have "known (ents (cs_seen (th_client w))) d \<noteq> None"
    using way [OF run] by (cases "known (ents (cs_seen (th_client w))) d") (simp_all add: on_its_way_def Let_def)
  moreover have "relays gs d = 0" if "intact_run E ents w' gs w2" for gs w2
  proof -
    from way [OF run_append [OF that run.step [OF run assms(9)]]] have
      "relays (((es @ fs) @ [Relay c d]) @ gs) d \<le> 1" by (auto simp: on_its_way_def Let_def split: if_splits)
    then show ?thesis by simp
  qed
  ultimately show ?thesis by blast
qed

theorem relay_reaches_witness:
  "\<exists>es w1 w w' a. intact_run ex_cenv (\<lambda>t. t) (ex_threads ex_pstate) es w1 \<and> run (replacing_step ex_cenv (\<lambda>t. t)) w1 [Server] w \<and>
     thread_step ex_cenv w (Relay 0 ''x'') (Some w') \<and> peers_ok (cs_peers (th_client w)) [a] \<and>
     ps_sent (cs_peers (th_client w')) = ps_sent (cs_peers (th_client w))"
proof -
  from ex_during_parse obtain es w1 w w' a where w: "intact_run ex_cenv (\<lambda>t. t) (ex_threads ex_pstate) es w1"
    "th_server w1 = Parsing (Some ''a:1'') ''b:2''" "run (replacing_step ex_cenv (\<lambda>t. t)) w1 [Server] w"
    "intact_step ex_cenv (\<lambda>t. t) w (Relay 0 ''x'') (Some w')" "th_server w = Parsing (Some ''b:2'') []"
    "peers_ok (cs_peers (th_client w)) [a]" by blast
  have start: "phase_ok False (th_server (ex_threads ex_pstate)) (cs_peers (th_client (ex_threads ex_pstate)))"
    using ex_pstate_ok by (intro phase_okI [where as = "[]" and n = 0]) (simp_all add: ex_threads_def open_count_def)
  have G: "ghash_ok (ce_hash ex_cenv) (\<lambda>t. t)" using glib_ghash_ok by simp
  from relay_reaches [OF G ex_threads_ok(1,2) start ex_threads_ok(6) w(1-4)] w(5) have
    "ps_sent (cs_peers (th_client w')) = ps_sent (cs_peers (th_client w))" by auto
  with w(1,3,4,6) show ?thesis unfolding intact_step_def by blast
qed

end
