(* ===== verification/Rfc4648.thy ===== *)
theory Rfc4648
  imports Base64
begin

text \<open>
  The base64 encoding as RFC 4648 defines it, on bits: the input is one string of bits, most significant
  bit first; groups of six bits, the last one filled up with zeros, select characters of the
  alphabet; and the text is filled up with \<open>=\<close> to a multiple of four characters. \<open>Base64encode\<close> of
  \<open>ac-lib/base64.c\<close>, which shifts and masks signed characters three at a time, computes the same.
\<close>

section \<open>The encoding of the RFC\<close>

definition byte_bits :: "char \<Rightarrow> bool list" where
  "byte_bits c = map (bit (uchar c)) [7, 6, 5, 4, 3, 2, 1, 0]"

definition bits_value :: "bool list \<Rightarrow> nat" where
  "bits_value = foldl (\<lambda>n b. 2 * n + of_bool b) 0"

fun sextets :: "bool list \<Rightarrow> bool list list" where
  "sextets [] = []"
| "sextets (b # bs) = take 6 (b # bs @ replicate 5 False) # sextets (drop 5 bs)"

definition rfc_alphabet :: string where
  "rfc_alphabet = map char_of ([65..<91] @ [97..<123] @ [48..<58 :: nat]) @ ''+/''"

definition rfc_pad :: "string \<Rightarrow> string" where
  "rfc_pad w = w @ replicate ((4 - length w mod 4) mod 4) (CHR ''='')"

definition rfc_encode :: "bytes \<Rightarrow> string" where
  "rfc_encode s = rfc_pad (map (\<lambda>g. rfc_alphabet ! bits_value g) (sextets (concat (map byte_bits s))))"

section \<open>Equality with the encoding of the code\<close>

lemma alphabet_same: "rfc_alphabet = basis_64"
  by code_simp

lemma bits_value_horner: "bits_value bs = horner_sum of_bool 2 (rev bs)"
  by (induction bs rule: rev_induct) (simp_all add: bits_value_def)

lemma bits_value_int: "int (bits_value bs) = horner_sum of_bool 2 (rev bs)"
  by (induction bs rule: rev_induct) (simp_all add: bits_value_def)

definition msb6 :: "int \<Rightarrow> bool list" where
  "msb6 k = map (bit k) [5, 4, 3, 2, 1, 0]"

lemma six_bits:
  assumes "take_bit 6 k = k"
  shows "rfc_alphabet ! bits_value (msb6 k) = digit64 k"
proof -
  have "rev [5, 4, 3, 2, 1, 0 :: nat] = [0..<6]" by (simp add: upt_rec)
  then have "int (bits_value (msb6 k)) = horner_sum of_bool 2 (map (bit k) [0..<6])"
    unfolding msb6_def bits_value_int rev_map by simp
  also have "\<dots> = k" using assms by (simp only: horner_sum_bit_eq_take_bit)
  finally have "bits_value (msb6 k) = nat k" by simp
  then show ?thesis by (simp only: digit64_def alphabet_same)
qed

lemma group_bits:
  "msb6 (enc0 a) = map (bit (uchar a)) [7, 6, 5, 4, 3, 2]"
  "msb6 (enc1 a b) = map (bit (uchar a)) [1, 0] @ map (bit (uchar b)) [7, 6, 5, 4]"
  "msb6 (enc2 b c) = map (bit (uchar b)) [3, 2, 1, 0] @ map (bit (uchar c)) [7, 6]"
  "msb6 (enc3 c) = map (bit (uchar c)) [5, 4, 3, 2, 1, 0]"
  by (simp_all add: msb6_def enc_bits bit_simps bit_schar)

lemma sextets_group:
  "sextets (byte_bits a @ byte_bits b @ byte_bits c @ bs) = msb6 (enc0 a) #
     msb6 (enc1 a b) # msb6 (enc2 b c) # msb6 (enc3 c) #
     sextets bs"
  unfolding group_bits by (simp add: byte_bits_def)

lemma bits_NUL [simp]: "bit (uchar NUL) n = False"
  by (simp add: uchar_def)

lemma sextets_rest:
  "sextets (byte_bits a @ byte_bits b) = [msb6 (enc0 a),
     msb6 (enc1 a b), msb6 (enc2 b NUL)]"
  "sextets (byte_bits a) = [msb6 (enc0 a), msb6 (enc1 a NUL)]"
  unfolding group_bits by (simp_all add: byte_bits_def numeral_eq_Suc)

lemma rfc_pad_group: "rfc_pad (w # x # y # z # t) = w # x # y # z # rfc_pad t"
proof -
  have "length (w # x # y # z # t) mod 4 = (length t + 4) mod 4" by simp
  also have "\<dots> = length t mod 4" by (rule mod_add_self2)
  finally show ?thesis by (simp only: rfc_pad_def append_Cons)
qed

lemma replicate_2: "replicate 2 x = [x, x]"
  by (simp add: numeral_2_eq_2)

lemma b64_rfc: "b64 s = rfc_encode s"
proof (induction s rule: b64.induct)
  case (1 a b c r)
  then show ?case
    by (simp only: rfc_encode_def list.map concat.simps sextets_group six_bits enc_range rfc_pad_group b64.simps append_assoc)
next
  case (2 a b)
  have "concat (map byte_bits [a, b]) = byte_bits a @ byte_bits b" by simp
  then show ?case
    by (simp only: rfc_encode_def sextets_rest six_bits enc_range list.map b64.simps) (simp add: rfc_pad_def replicate_2)
next
  case (3 a)
  have "concat (map byte_bits [a]) = byte_bits a" by simp
  then show ?case
    by (simp only: rfc_encode_def sextets_rest six_bits enc_range list.map b64.simps) (simp add: rfc_pad_def replicate_2)
qed (simp add: rfc_encode_def rfc_pad_def)

section \<open>Properties\<close>

text \<open>
  C6: \<open>Base64encode\<close> is the base64 encoding of RFC 4648: into a buffer of \<open>Base64encode_len\<close> bytes it writes
  exactly the text that the RFC's definition on bits gives for the first \<open>len\<close> bytes, and a NUL; and
  \<open>Base64decode\<close> turns each text of the RFC back into the bytes it encodes.
\<close>

theorem base64_is_rfc4648:
  assumes "0 \<le> len" and "len \<le> int (length s)" and "Base64encode_len len \<le> int (length dst)"
    and "length s < length plain"
  shows "Base64encode dst s len = Some (Base64encode_len len,
      rfc_encode (take (nat len) s) @ NUL # drop (nat (Base64encode_len len)) dst) \<and>
    Base64decode plain (rfc_encode s @ [NUL]) = Some (int (length s), s @ NUL # drop (length s + 1) plain)"
proof -
  let ?w = "b64 (take (nat len) s)"
  have "int (length ?w) + 1 = Base64encode_len len"
    using assms(1,2) by (simp add: length_b64 Base64encode_len_def min_absorb2 zdiv_int ac_simps)
  then have "length (?w @ [NUL]) = nat (Base64encode_len len)" by simp
  moreover have "pad [NUL]" using not_alphabet(1) by (simp add: pad_def)
  ultimately show ?thesis
    using assms Base64encode_result [OF assms(1,2), of dst] Base64decode_b64 [of "[NUL]" plain s]
    by (simp add: write_all_def flip: b64_rfc)
qed

theorem base64_is_rfc4648_witness:
  "Base64encode (replicate 9 NUL) ''foob'' 4 = Some (9, ''Zm9vYg=='' @ [NUL]) \<and>
   Base64decode (replicate 5 NUL) (''Zm9vYg=='' @ [NUL]) = Some (4, ''foob'' @ [NUL])"
proof -
  have "rfc_encode ''foob'' = ''Zm9vYg==''" by code_simp
  with base64_is_rfc4648 [of 4 "''foob''" "replicate 9 NUL" "replicate 5 NUL"] show ?thesis
    by (simp add: Base64encode_len_def)
qed

end
