(* ===== verification/TestPrograms.thy ===== *)
theory TestPrograms
  imports RsaContext Sockets
begin

text \<open>
  The test programs: the encryption test \<open>ac-client-server/test.c\<close>, and the name server's test client
  \<open>ac-name-server/nameclient.c\<close> with \<open>nameclient_test.c\<close>; and \<open>newThread\<close> of
  \<open>ac-client-server/thread_util.c\<close>, which nothing calls.

  The encryption test has copies of the functions that load keys, in which a key that cannot be read is
  NULL instead of a crash; NULL keys are passed on to OpenSSL, so keys have an option type here.
\<close>

section \<open>The encryption test\<close>

definition test_load_entry ::
  "('t, 'k option rsa_key) ghash \<Rightarrow> ('k, 'p) files \<Rightarrow> bytes \<Rightarrow> string \<Rightarrow> bytes \<times> 't keys \<Rightarrow> (bytes \<times> 't keys) option"
where
  "test_load_entry G F blk d_name fs = (case fs of (full_path, s) \<Rightarrow> do {
     let (file, written) = fs_entry F d_name;
     let mem = k_mem s ++ written;
     let s = s\<lparr>k_mem := mem\<rparr>;
     name \<leftarrow> text_at mem file;
     full_path \<leftarrow> strncpy full_path ''./pub_key/'' full_path_len;
     full_path \<leftarrow> strncat full_path name full_path_len;
     (case strrchr name (CHR ''.'') of
        None \<Rightarrow> Some (full_path, s)
      | Some i \<Rightarrow> do {
          b \<leftarrow> mem file;
          b \<leftarrow> put_byte b i NUL;
          let s = s\<lparr>k_mem := mem(file \<mapsto> b)\<rparr>;
          let ext = drop (Suc i) name;
          s \<leftarrow> (if strncmp ext ''pub'' 4 = 0 then do {
                   path \<leftarrow> cstr full_path;
                   let key = client_open_pub_key F path;
                   (t, n) \<leftarrow> key_hash_add G (k_mem s) blk (k_next s) (k_table s) file key;
                   Some (s\<lparr>k_table := t, k_next := n\<rparr>)
                 }
                 else Some s);
          full_path \<leftarrow> zero_bytes full_path full_path_len;
          Some (full_path, s)
        })
   })"

definition test_load_public_keys ::
  "('t, 'k option rsa_key) ghash \<Rightarrow> ('k, 'p) files \<Rightarrow> bytes \<Rightarrow> bytes \<Rightarrow> 't keys \<Rightarrow> 't keys option" where
  "test_load_public_keys G F full_path blk s =
     (case fs_dir F ''./pub_key/'' of
        None \<Rightarrow> Some s
      | Some names \<Rightarrow> map_option snd (mfold (test_load_entry G F blk) names (full_path, s)))"

definition test_load_private_key :: "('k, 'p) files \<Rightarrow> bytes \<Rightarrow> string \<Rightarrow> 'p option option" where
  "test_load_private_key F full_path key_name = do {
     full_path \<leftarrow> strncpy full_path ''./priv_key/'' full_path_len;
     full_path \<leftarrow> strncat full_path key_name full_path_len;
     path \<leftarrow> cstr full_path;
     Some (client_open_priv_key F path)
   }"

text \<open>
  \<open>main\<close>: the exit code, and what is printed as decrypted (\<open>None\<close>: an error). Printing a NULL string is
  a fault. \<open>blks\<close> holds the contents of the uninitialised local buffers, \<open>ctx\<close> is the fresh context.
\<close>

record test_blocks =
  tb_pub_path :: bytes
  tb_priv_path :: bytes
  tb_name :: bytes
  tb_msg :: message_encrypted

definition test_message :: string where
  "test_message = ''Can eve help us? I hope so.''"

definition test_main ::
  "('t, 'k option rsa_key) ghash \<Rightarrow> ('k, 'p) files \<Rightarrow> ('c, 'k option, 'p option) evp \<Rightarrow> (nat \<Rightarrow> bytes) \<Rightarrow> test_blocks \<Rightarrow>
     heap \<Rightarrow> 'c \<Rightarrow> 'c rsa_ctx \<Rightarrow> (int \<times> string option) option" where
  "test_main G F evp malloc blks mem c0 blk = do {
     rsa_ctx \<leftarrow> client_create_rsa_ctx c0 (Some blk);
     let public_key_hash_table = key_create_hash_table G;
     keys \<leftarrow> test_load_public_keys G F (tb_pub_path blks) (tb_name blks)
       \<lparr>k_mem = mem, k_table = public_key_hash_table, k_next = 0\<rparr>;
     private_key \<leftarrow> test_load_private_key F (tb_priv_path blks) ''bob.pem'';
     let public_key = Option.bind (key_get_by_name G (k_mem keys) (k_table keys) ''bob'') id;
     (encrypted, rsa_ctx) \<leftarrow> msg_encrypt_encode evp malloc (tb_msg blks) test_message rsa_ctx public_key;
     encrypted_msg \<leftarrow> encrypted;
     s \<leftarrow> cstr encrypted_msg;
     (decrypted, rsa_ctx) \<leftarrow> msg_decode_decrypt evp malloc (tb_msg blks) s rsa_ctx private_key;
     (case decrypted of
        None \<Rightarrow> Some (1, None)
      | Some decrypted_msg \<Rightarrow> do { d \<leftarrow> cstr decrypted_msg; Some (1, Some d) })
   }"

text \<open>The files as the test sees them: every file that is not a key is the key NULL.\<close>

definition with_null :: "('k, 'p) files \<Rightarrow> ('k option, 'p option) files" where
  "with_null F = \<lparr>fs_open = Some, fs_pem_pub = (\<lambda>p. Some (client_open_pub_key F p)),
     fs_pem_priv = (\<lambda>p. Some (client_open_priv_key F p)), fs_dir = fs_dir F, fs_entry = fs_entry F\<rparr>"

lemma with_null_simps [simp]:
  "client_open_pub_key (with_null F) p = Some (client_open_pub_key F p)"
  "client_open_priv_key (with_null F) p = Some (client_open_priv_key F p)"
  "fs_dir (with_null F) = fs_dir F" "fs_entry (with_null F) = fs_entry F"
  "readdir_ok (with_null F) names = readdir_ok F names" "\<not> unreadable (with_null F) d"
  "dir_memory (with_null F) names mem = dir_memory F names mem" "key_addr (with_null F) n = key_addr F n"
  by (simp_all add: with_null_def client_open_pub_key_def client_open_priv_key_def readdir_ok_def unreadable_def
      dir_memory_def after_entry_def [abs_def] key_addr_def)

lemma test_load_entry_same: "test_load_entry G F = load_entry G (with_null F)"
  unfolding fun_eq_iff test_load_entry_def load_entry_def PUBLIC_KEY_DIR_def with_null_simps Option.bind.simps Let_def
  by blast

lemma test_load_same:
  "test_load_public_keys G F full_path blk s = load_public_keys G (with_null F) full_path blk s"
  "test_load_private_key F full_path name = load_private_key (with_null F) full_path name"
  by (simp_all add: test_load_public_keys_def load_public_keys_def PUBLIC_KEY_DIR_def test_load_entry_same
      test_load_private_key_def load_private_key_def PRIVATE_KEY_DIR_def split: option.splits)

section \<open>The test client of the name server\<close>

text \<open>
  The loop of \<open>contact_server\<close>: \<open>blk i\<close> is the content of the local buffer in round \<open>i\<close>, which is not
  initialised and to which no terminator is written. The result is what is printed, and the exit code if the
  connection ends.
\<close>

fun contact_loop :: "(nat \<Rightarrow> bytes) \<Rightarrow> nat \<Rightarrow> received list \<Rightarrow> (string list \<times> int option) option" where
  "contact_loop blk i [] = Some ([], None)"
| "contact_loop blk i (r # rs) =
     (case r of
        Failed \<Rightarrow> Some ([], Some (-1))
      | Received d \<Rightarrow>
          (if d = [] then Some ([], Some (-1))
           else do {
             buff \<leftarrow> write_at (blk i) 0 d;
             s \<leftarrow> cstr buff;
             (out, code) \<leftarrow> contact_loop blk (Suc i) rs;
             Some (s # out, code)
           }))"

text \<open>The result of \<open>getaddrinfo\<close> is not checked: after an error the address is not initialised.\<close>

definition contact_server :: "net \<Rightarrow> string \<Rightarrow> string \<Rightarrow> (nat \<Rightarrow> bytes) \<Rightarrow> received list \<Rightarrow> (string list \<times> int option) option" where
  "contact_server N address port blk rs =
     (case n_getaddrinfo N (Some address) port of
        Some (res # _) \<Rightarrow>
          (let sock = n_socket N res in
           if sock = -1 then Some ([], Some (-1))
           else if n_connect N sock res = -1 then Some ([], Some (-1))
           else contact_loop blk 0 rs)
      | _ \<Rightarrow> None)"

text \<open>\<open>main\<close> reads two arguments without counting them.\<close>

definition nameclient_main :: "net \<Rightarrow> string list \<Rightarrow> (nat \<Rightarrow> bytes) \<Rightarrow> received list \<Rightarrow> (string list \<times> int option) option" where
  "nameclient_main N argv blk rs =
     (case argv of
        _ # address # port # _ \<Rightarrow> contact_server N address port blk rs
      | _ \<Rightarrow> None)"

text \<open>
  The client prints what it receives only where the old content of the buffer supplies the terminator that
  the name server does not send; a message that fills the buffer is read past its end.
\<close>

lemma contact_loop_prints:
  assumes "NUL \<notin> set d" and "d \<noteq> []" and "length (blk i) = 512"
  shows "contact_loop blk i (Received d # rs) =
    (if length d \<le> 512 \<and> NUL \<in> set (drop (length d) (blk i))
     then do { (out, code) \<leftarrow> contact_loop blk (Suc i) rs;
               Some ((d @ takeWhile (\<lambda>c. c \<noteq> NUL) (drop (length d) (blk i))) # out, code) }
     else None)"
proof -
  have "takeWhile (\<lambda>c. c \<noteq> NUL) (d @ r) = d @ takeWhile (\<lambda>c. c \<noteq> NUL) r" for r
    using assms(1) by (intro takeWhile_append2) auto
  with assms show ?thesis by (auto simp: write_at_def cstr_def)
qed

section \<open>Threads\<close>

text \<open>
  \<open>newThread\<close> returns the identifier of the thread, here what \<open>pthread_create\<close> stores for a function and its
  argument, as an \<open>unsigned int\<close>: different threads may get the same result.
\<close>

definition newThread :: "(nat \<Rightarrow> nat \<Rightarrow> 64 word) \<Rightarrow> nat \<Rightarrow> nat \<Rightarrow> 32 word" where
  "newThread pthread_create tsa dat = (let thread = pthread_create tsa dat in ucast thread)"

lemma newThread_truncates:
  "\<exists>create. create 0 0 \<noteq> create 0 1 \<and> newThread create 0 0 = newThread create 0 1"
  by (rule exI [of _ "\<lambda>_ n. 0x7F0000000700 + push_bit 32 (word_of_nat n)"]) (simp add: newThread_def)

section \<open>Properties\<close>

text \<open>
  C28: the encryption test prints its message: if the files \<open>bob.pub\<close> and \<open>bob.pem\<close> hold a matching pair of keys,
  OpenSSL's sealing functions succeed, and the directory entry of \<open>bob.pub\<close>, whose name is the key of the table, is
  not overwritten by a later call of \<open>readdir\<close>, then \<open>main\<close> of \<open>test.c\<close> loads the keys, encrypts, decrypts and
  prints the message unchanged, and returns 1, whatever other files the key directory has, readable or not;
  and it does so with every allocator, as the 28 bytes of the message are padded to 32, which fits the block
  and is no multiple of three.
\<close>

theorem encryption_test_prints:
  assumes G: "glib_like G ents" and dir: "fs_dir F ''./pub_key/'' = Some names" "readdir_ok F names"
      "\<forall>d \<in> set names. dir_name d"
    and entry: "text_at (dir_memory F names mem) (fst (fs_entry F ''bob.pub'')) = Some ''bob''"
    and bob: "''bob.pub'' \<in> set names" "client_open_pub_key F ''./pub_key/bob.pub'' = Some pub"
      "client_open_priv_key F ''./priv_key/bob.pem'' = Some priv"
    and evp: "evp_ok evp (Some pub) (Some priv)" and m: "\<forall>n. n \<le> length (malloc n)"
    and blks: "length (tb_pub_path blks) = full_path_len" "length (tb_priv_path blks) = full_path_len"
      "KT_MAX_KEY_NAME_LEN \<le> length (tb_name blks)"
    and seal: "seals evp c0 (Some pub) (test_message @ [NUL]) (r1, r2, r3) ek iv o1 o2 c3" "r1 \<noteq> 0" "r2 \<noteq> 0" "r3 \<noteq> 0"
  shows "test_main G F evp malloc blks mem c0 blk = Some (1, Some test_message)"
proof -
  let ?s = "\<lparr>k_mem = mem, k_table = key_create_hash_table G, k_next = 0\<rparr>"
  let ?ctx = "blk\<lparr>rsa_encrypt_ctx := c0, rsa_decrypt_ctx := c0\<rparr>"
  have "k_table ?s = key_create_hash_table G" "fs_dir (with_null F) PUBLIC_KEY_DIR = Some names"
    "readdir_ok (with_null F) names"
    using dir(1,2) by (simp_all add: PUBLIC_KEY_DIR_def)
  from load_public_keys_run [OF G this(1) blks(1,3) this(2,3) dir(3)] obtain keys where
    keys: "test_load_public_keys G F (tb_pub_path blks) (tb_name blks) ?s = Some keys" "k_mem keys = dir_memory F names mem"
      "\<And>mem n. key_get_by_name G mem (k_table keys) n = keys_found (with_null F) names mem n"
    by (auto simp: test_load_same)
  have bob_key: "key_get_by_name G (k_mem keys) (k_table keys) ''bob'' = Some (Some pub)"
    using entry bob(1,2) unfolding keys(3) keys(2)
    by (simp add: keys_found_def keys_of_def pub_path_def PUBLIC_KEY_DIR_def key_addr_def)
  have "NUL \<notin> set ''bob.pem''" by simp
  from load_private_key_result [OF blks(2) this, of "with_null F"] have
    priv: "test_load_private_key F (tb_priv_path blks) ''bob.pem'' = Some (Some priv)"
    using bob(3) by (simp add: test_load_same PRIVATE_KEY_DIR_def)
  have l: "length test_message = 27" "NUL \<notin> set test_message" by (simp_all add: test_message_def)
  then have len: "seal_len test_message = 32" by (simp add: seal_len_def)
  have "44 \<le> length (malloc (length test_message + 1 + EVP_MAX_IV_LENGTH))"
    using spec [OF m, of "length test_message + 1 + EVP_MAX_IV_LENGTH"] by (simp add: l EVP_MAX_IV_LENGTH_def)
  then have room: "length (malloc (length test_message + 1 + EVP_MAX_IV_LENGTH)) \<noteq> seal_len test_message" by (simp add: len)
  have "rsa_encrypt_ctx ?ctx = c0" by simp
  with seal(1) have s: "seals evp (rsa_encrypt_ctx ?ctx) (Some pub) (test_message @ [NUL]) (r1, r2, r3) ek iv o1 o2 c3" by simp
  obtain dest ctx1 where e: "msg_encrypt_encode evp malloc (tb_msg blks) test_message ?ctx (Some pub) = Some (Some dest, ctx1)"
    by (rule msg_encrypt_encode_result [OF evp m s seal(2-4), of "tb_msg blks"]) (use room len in auto)
  from encoded_wire [OF evp m e] obtain c x ek' iv' where
    w: "cstr dest = Some (wire (c @ [x]) ek' iv')" "ek' \<noteq> []" "length iv' = EVP_MAX_IV_LENGTH"
      "length test_message < length c" "opens evp (Some priv) ek' iv' c (test_message @ [NUL])" by blast
  from decrypt_wire [OF w(5,2-4) m l(2), where t = "[]" and res = "tb_msg blks" and ctx = ctx1 and x = x] obtain b ctx2 where
    "msg_decode_decrypt evp malloc (tb_msg blks) (wire (c @ [x]) ek' iv') ctx1 (Some priv) = Some (Some b, ctx2)"
    "cstr b = Some test_message" by (auto simp: wire_tail_def)
  then show ?thesis
    by (simp add: test_main_def client_create_rsa_ctx_def keys(1) bob_key priv e w(1) Let_def)
qed

text \<open>The example's cipher for keys of any type.\<close>

definition ex_evp_any :: "(bytes, 'pub, 'priv) evp" where
  "ex_evp_any = \<lparr>EVP_PKEY_size = (\<lambda>_. EVP_PKEY_size ex_evp ()), EVP_SealInit = (\<lambda>c _. EVP_SealInit ex_evp c ()),
     EVP_SealUpdate = EVP_SealUpdate ex_evp, EVP_SealFinal = EVP_SealFinal ex_evp,
     EVP_OpenInit = (\<lambda>d ek iv _. EVP_OpenInit ex_evp d ek iv ()), EVP_OpenUpdate = EVP_OpenUpdate ex_evp,
     EVP_OpenFinal = EVP_OpenFinal ex_evp, EVP_CIPHER_CTX_cleanup = EVP_CIPHER_CTX_cleanup ex_evp\<rparr>"

lemma ex_evp_any: "seals ex_evp_any c pub = seals ex_evp c ()" "opens ex_evp_any priv = opens ex_evp ()"
  "evp_ok ex_evp_any pub priv"
proof -
  show s: "seals ex_evp_any c pub = seals ex_evp c ()" for c pub by (simp add: fun_eq_iff seals_def ex_evp_any_def)
  show o: "opens ex_evp_any priv = opens ex_evp ()" for priv by (simp add: fun_eq_iff opens_def ex_evp_any_def)
  show "evp_ok ex_evp_any pub priv" using ex_evp_ok unfolding evp_ok_def s o by (simp add: ex_evp_any_def)
qed

text \<open>A directory with a key file that cannot be opened.\<close>

definition ex_test_files :: "(string, string) files" where
  "ex_test_files = (ex_files length (''carol2.pub'' # ex_names))\<lparr>fs_open := (\<lambda>p. if p = ''./pub_key/carol2.pub'' then None else Some p)\<rparr>"

theorem encryption_test_prints_witness:
  "test_main glib_ghash ex_test_files ex_evp_any ex_mem
     \<lparr>tb_pub_path = replicate 282 NUL, tb_priv_path = replicate 282 NUL, tb_name = replicate 256 NUL, tb_msg = ex_sealed 1\<rparr>
     Map.empty [] ex_ctx = Some (1, Some ''Can eve help us? I hope so.'')"
proof -
  let ?F = ex_test_files
  let ?b = "\<lparr>tb_pub_path = replicate 282 NUL, tb_priv_path = replicate 282 NUL, tb_name = replicate 256 NUL, tb_msg = ex_sealed 1\<rparr>"
  have dir: "fs_dir ?F ''./pub_key/'' = Some (''carol2.pub'' # ex_names)" "readdir_ok ?F (''carol2.pub'' # ex_names)"
    "\<forall>d \<in> set (''carol2.pub'' # ex_names). dir_name d" "''bob.pub'' \<in> set (''carol2.pub'' # ex_names)"
    "text_at (dir_memory ?F (''carol2.pub'' # ex_names) Map.empty) (fst (fs_entry ?F ''bob.pub'')) = Some ''bob''"
    by (simp_all add: ex_test_files_def readdir_ok_def ex_files_def ex_names_def dir_name_def cstr_def dir_memory_def
        after_entry_def strrchr_def text_at_def)
  have keys: "client_open_pub_key ?F ''./pub_key/bob.pub'' = Some ''./pub_key/bob.pub''"
    "client_open_priv_key ?F ''./priv_key/bob.pem'' = Some ''./priv_key/bob.pem''"
    by (simp_all add: client_open_pub_key_def client_open_priv_key_def ex_test_files_def ex_files_def)
  have blks: "length (tb_pub_path ?b) = full_path_len" "length (tb_priv_path ?b) = full_path_len"
    "KT_MAX_KEY_NAME_LEN \<le> length (tb_name ?b)" by (simp_all add: full_path_len_def KT_MAX_KEY_NAME_LEN_def)
  obtain o2 where s: "seals (ex_evp_any :: (bytes, string option, string option) evp) [] (Some ''./pub_key/bob.pub'') (test_message @ [NUL]) (1, 1, 1) ex_ek (replicate 16 (CHR ''i'')) [] o2 []"
    using ex_seals [of "test_message @ [NUL]"] by (auto simp: ex_evp_any(1) ex_ctx_def)
  show ?thesis
    using encryption_test_prints [OF glib_ghash_like dir(1-3,5,4) keys ex_evp_any(3) ex_mem blks s, of ex_ctx]
    by (simp add: test_message_def)
qed

end
