(* ===== verification/Spec2Isabelle.thy ===== *)
theory Spec2Isabelle
  imports Startup PeerKeys Network TornPort Strtok CipherThreads ThreadPeers Rfc4648 TestPrograms
begin

text \<open>
  A verification library for AnonyChat, a chat program in C that floods encrypted messages through a
  network of clients.

  \<^bold>\<open>The program.\<close> \<open>src/ac-name-server\<close> is a server that knows the connected clients and, whenever a client
  announces its port (\<open>PORTUPD\<close>) or sends anything else, assigns peers to all clients and sends each
  its list (\<open>PEERS\<close>). \<open>src/ac-client-server\<close> is the client: it connects to the name server and to the
  peers it is told, encrypts what the user types for a named recipient, pads it and sends it to all
  peers, and relays every message it has not seen to all its peers and tries to decrypt it.
  \<open>src/ac-lib\<close> holds what they share: a linked list, a graph, a base64 codec, encryption over OpenSSL,
  the table of seen messages over GLib, and peers.

  \<^bold>\<open>The theories and the code they model.\<close>
  \<^item> \<open>Prelude\<close>: pointers, array access, counting loops (\<open>mfold\<close>), counting occurrences.
  \<^item> \<open>Machine\<close>: what the step relations share: reachable states (\<open>reach\<close>), runs with their events (\<open>run\<close>), and the
    locales \<open>kept\<close> and \<open>traced\<close> of properties that every step preserves, interpreted for the server (\<open>srv\<close>), the
    client (\<open>cl\<close>) and the threads (\<open>way\<close>, \<open>hdl\<close>, \<open>thd\<close>, \<open>phs\<close>).
  \<^item> \<open>CList\<close>: \<open>ac-lib/list.c\<close>. The list is a store of elements with head, tail and size; the abstract
    list also records which elements have a stale \<open>prev\<close> link, as \<open>list_remove\<close> leaves them. The locale
    \<open>list_store\<close> is the interface to the other theories, interpreted (\<open>lst\<close>) on the model of the code.
  \<^item> \<open>Graph\<close>: \<open>ac-lib/tree.c\<close>, nodes with arrays of connections in a store.
  \<^item> \<open>CString\<close>: the functions of \<open>string.h\<close> that the code uses, on blocks of bytes, and \<open>str_starts_with\<close>.
  \<^item> \<open>PeerLine\<close>, \<open>PeerGraph\<close>, \<open>ServerLoop\<close>: \<open>ac-name-server/name_server.c\<close>; the text of a \<open>PEERS\<close> message
    (\<open>client_peers_static\<close>, \<open>client_peers_rand\<close>), the assignment of peers (\<open>manage_graph\<close>: one graph node per
    client, \<open>shuffle\<close>, \<open>combineNodesToGraph\<close>, and a breadth-first search per client), and the threads
    (\<open>listen_for_clients\<close>, \<open>client_handle\<close>) as the step relation \<open>srv_step\<close>; an iteration of the receive
    loop is two steps, the message (\<open>client_take\<close>) and the redistribution of the peers (\<open>finish_msg\<close>).
    \<open>TornPort\<close>: the port field while it is written, as \<open>manage_graph\<close> may read it.
  \<^item> \<open>Sockets\<close>: both \<open>init_server\<close> functions and \<open>connect_to_host\<close>.
  \<^item> \<open>Base64\<close>, \<open>Enc\<close>: \<open>ac-lib/base64.c\<close>, and \<open>ac-lib/enc.c\<close> from \<open>msg_encrypt_encode\<close> to \<open>msg_decode_decrypt\<close>;
    the locale \<open>text_codec\<close> is what messages and keys use of the codec, interpreted (\<open>cdc\<close>) on the C functions;
    \<open>Rfc4648\<close> is the reference definition of base64 on bits; \<open>RsaContext\<close> has the rest of \<open>ac-lib/enc.c\<close> (contexts,
    key generation, printing) and the clean-up of the key table.
  \<^item> \<open>Msg\<close>, \<open>KeyTable\<close>: \<open>ac-lib/msg.c\<close>; \<open>ac-client-server/key_table.c\<close> and the loading of keys from files.
  \<^item> \<open>PeerTable\<close>, \<open>Client\<close>, \<open>Delivery\<close>, \<open>ClientLoop\<close>: \<open>ac-client-server/client_server.c\<close>; the peer list
    (\<open>parse_peers\<close>, \<open>connect_to_peers\<close>, \<open>client_send_to_all_peers\<close>), the reactions to input, clients and the
    name server (\<open>input_send_msg\<close>, \<open>client_parse_msg\<close>, \<open>name_server_handle\<close>), the way of a message from client
    to client, and the threads as the step relation \<open>client_step\<close>.
  \<^item> \<open>Threads\<close>, \<open>ThreadPeers\<close>: the client's threads again, with one mutex section as one step (\<open>thread_step\<close>):
    look-up and entry of a message (\<open>conn_enter\<close>), relay (\<open>conn_relay\<close>), and the rounds of \<open>parse_peers\<close> and
    \<open>connect_to_peers\<close> (\<open>ns_receive\<close>, \<open>ns_run\<close>). \<open>Strtok\<close>: the calls of \<open>strtok\<close> by the threads of both programs
    as steps on its static variable. \<open>CipherThreads\<close>: the calls of OpenSSL inside \<open>client_decrypt_msg\<close>, by all
    threads, as steps on the one context that they share.
  \<^item> \<open>Flooding\<close>, \<open>Network\<close>: networks of clients, with packets that are delivered in any order. The locale
    \<open>flooding\<close> says what a node must do with a packet, and is interpreted (\<open>net\<close>) on \<open>conn_msg\<close>.
  \<^item> \<open>Protocol\<close>, \<open>PeerKeys\<close>, \<open>Startup\<close>: the two programs together; the exchange of keys between peers; both
    \<open>main\<close> functions up to the state that their threads start in.
  \<^item> \<open>TestPrograms\<close>: \<open>ac-client-server/test.c\<close>, \<open>ac-name-server/nameclient.c\<close>, \<open>nameclient_test.c\<close> and
    \<open>ac-client-server/thread_util.c\<close>.

  \<^bold>\<open>Conventions.\<close> A function of the code is a function of the state it changes, with the same name. The
  result \<open>None\<close> is undefined behaviour or no return: an access outside a block, a NULL pointer or freed
  memory, a string without terminator, a loop that does not end. Error codes are ordinary values. A
  block is the list of its bytes; the content of fresh memory and of uninitialised local buffers is a parameter
  (\<open>mem\<close>, \<open>malloc\<close>, \<open>m\<close>, \<open>env_stack\<close>), and a block may be longer than asked for. Theorems hold for every
  content, except that of fresh elements of lists: \<open>list_add\<close> does not set \<open>next\<close>, and what is shown of programs with lists
  assumes that it is NULL in fresh blocks (\<open>zeroed\<close>, a part of \<open>mem_ok\<close>). An allocation that fails is not modelled. Integers are
  unbounded: lengths are bounded by the sizes of the buffers, and the counters of identifiers
  (\<open>peer_id\<close>, \<open>key_id\<close>, \<open>client_id\<close>) do not matter to control flow. Loops are structural recursion, \<open>mfold\<close>,
  a \<open>function\<close> with a termination proof, or, where the code may run for ever, \<open>partial_function\<close>; there
  is no fuel, and that a loop returns is part of the statements.

  \<^bold>\<open>Parameters.\<close> OpenSSL (\<open>evp\<close>, with \<open>evp_ok\<close>: what is sealed for a key can be opened with it), GLib's
  hash table (\<open>ghash\<close>, with \<open>ghash_ok\<close>: a map from texts as long as no key is freed or changed), the
  socket calls (\<open>net\<close>), the file system and PEM reader (\<open>files\<close>, with \<open>readdir_ok\<close>: \<open>readdir\<close> returns terminated names, in
  storage that later calls may overwrite), \<open>malloc\<close> and \<open>rand\<close>. \<open>open_bounded\<close> says that decryption writes at most one block more
  than it is given, \<open>glib_like\<close> that the hash table compares the texts that its keys have at the moment, \<open>init_fresh\<close> that a
  successful \<open>EVP_OpenInit\<close> does not depend on what was in the context before. Each hypothesis has an instance in the examples of
  the theory that states it. Keys are abstract values: the code copies their structs with \<open>memcpy\<close> and frees the originals, which
  leaves the copy with the same pointers.

  \<^bold>\<open>What is shown.\<close>
  \<^item> Messages: what is typed for a recipient is shown, unchanged, by every client with the key that
    receives it for the first time (\<open>Delivery\<close>), if its text form fits the padding (\<open>wire_size\<close>: up to 462 characters with
    keys of 4096 bits), over the round trips of \<open>Base64\<close> and \<open>Enc\<close>; the codec is the
    one of RFC 4648 (\<open>Rfc4648\<close>). In a network,
    a message that \<open>msg_encrypt_encode\<close> made (\<open>well_formed\<close>; others can crash the clients) floods: deliveries end, and each linked client has relayed it once and shown it once
    (\<open>Network\<close>), as long as the program itself does not break the table of seen messages
    (\<open>Delivery.overwritten_key_forgotten\<close>, \<open>Delivery.input_send_outcome\<close>).
  \<^item> The network: each client is sent every other client, exactly twice with five or more clients; the
    client turns this into its peer list (\<open>PeerGraph\<close>, \<open>PeerTable\<close>, \<open>Protocol\<close>); the port that
    a starting client announces is the one that the name server stores (\<open>Startup\<close>), whatever the threads that \<open>main\<close> has
    created by then do in between (the parameters \<open>others1\<close> and \<open>others2\<close> of \<open>client_main\<close>).
  \<^item> Threads: in every interleaving a message is relayed and read once, no handler of a \<open>well_formed\<close> message gets
    stuck, and each task describes its buffer (\<open>Threads\<close>); the reactions of \<open>ClientLoop\<close> to received messages are
    uninterrupted runs, and a message relayed while the peer list is replaced reaches only some peers or none
    (\<open>ThreadPeers\<close>); two messages parsed at the same time get each other's words (\<open>Strtok\<close>), and a message can be
    decrypted with the key of another one that arrives at the same time (\<open>CipherThreads\<close>), while a parse without
    interruption is as in the other theories.
  \<^item> Invariants of all reachable states of both programs (\<open>ServerLoop\<close>, \<open>ClientLoop\<close>), refinement of
    the list (\<open>CList\<close>), termination of the search and of message handling.
  \<^item> Memory: exact conditions for the accesses outside of blocks in the encoder, the text form, the
    padding, the peers message and the port field, and sizes for which there are none; crashes and
    endless loops that a message or a sequence of connections can cause.

  \<^bold>\<open>Not modelled.\<close> What is printed (except where printing reads a string, and for the test programs).
  Mutexes are not part of the state: the theories on threads take what a mutex protects as one step. A step of
  \<open>client_step\<close> is the whole reaction to one event; \<open>Threads\<close> and \<open>ThreadPeers\<close> have the
  interleavings inside the reactions to received messages (with the connections fixed and without input),
  \<open>Strtok\<close> those of \<open>strtok\<close> (but for the calls in \<open>parse_peers\<close>), which the other theories treat as if each thread had a rest of its own, and
  \<open>CipherThreads\<close> those of OpenSSL's calls on the shared context, which the others treat as one step.
  \<open>manage_graph\<close> holds the mutex of the list throughout; that it may read a port that is being written is shown for
  one read (\<open>TornPort\<close>), not for a whole \<open>PEERS\<close> message. Interleavings inside \<open>input_send_msg\<close> are not covered. \<open>client_initialize_crypto\<close> and \<open>client_cleanup_crypto\<close> only call OpenSSL,
  \<open>print_usage\<close> only prints; the commented-out peer encryption is not code.
\<close>

end
